(* ===== verification/Go_Prelude.thy ===== *)
theory Go_Prelude
  imports Main "HOL-Library.Word"
begin

text \<open>
  What the components share: the Go types the models are written in, the outcome of a Go
  function that may panic, slices, and the facts on two's-complement words and on lists that
  carry the component proofs.

  Go's \<open>int32\<close>, \<open>uint32\<close>, \<open>int64\<close> and \<open>uint8\<close> are words of their width: \<open>+\<close> and \<open>-\<close> wrap
  around as they do in Go, \<open>sint\<close> reads a signed value and \<open>uint\<close> an unsigned one, and the
  signed comparisons of the source are \<open><s\<close> and \<open>\<le>s\<close>. Go's \<open>int\<close> is \<open>nat\<close> where it is a
  length or an index and \<open>int\<close> where the code subtracts from it.
\<close>

subsection \<open>Types\<close>

type_synonym i32 = "32 word"
type_synonym u32 = "32 word"
type_synonym i64 = "64 word"
type_synonym u8 = "8 word"
type_synonym byte = "8 word"

text \<open>A panic is a value: the message of an explicit \<open>panic\<close>, or one of the run-time errors the
  code can raise. \<open>OutOfFuel\<close> is no behaviour of the code: it marks a loop whose model ran
  longer than its bound, and the theorems show where that cannot happen.\<close>

datatype go_panic =
    Panic string
  | NilDereference
  | IndexOutOfRange
  | CloseOfClosedChannel
  | OutOfFuel

definition bindE :: "go_panic + 'a \<Rightarrow> ('a \<Rightarrow> go_panic + 'b) \<Rightarrow> go_panic + 'b" where
  "bindE m f = (case m of Inl e \<Rightarrow> Inl e | Inr x \<Rightarrow> f x)"

definition max_int32 :: i32 where
  "max_int32 = 2147483647"

text \<open>The slice expression \<open>xs[i:j]\<close> with its bounds check.\<close>

definition go_slice :: "'a list \<Rightarrow> nat \<Rightarrow> nat \<Rightarrow> go_panic + 'a list" where
  "go_slice xs i j =
     (if i \<le> j \<and> j \<le> length xs then Inr (take (j - i) (drop i xs)) else Inl IndexOutOfRange)"

text \<open>The index expression \<open>xs[i]\<close> with its bounds check.\<close>

definition go_index :: "'a list \<Rightarrow> nat \<Rightarrow> go_panic + 'a" where
  "go_index xs i = (if i < length xs then Inr (xs ! i) else Inl IndexOutOfRange)"

text \<open>The built-in \<open>copy(dst, src)\<close> for a destination \<open>dst\<close>: its contents afterwards. The
  number of elements copied is \<open>min (length dst) (length src)\<close>.\<close>

definition go_copy :: "'a list \<Rightarrow> 'a list \<Rightarrow> 'a list" where
  "go_copy dst src = take (length dst) src @ drop (length src) dst"

named_theorems go_simps \<open>evaluation of Go outcomes, slices and signed comparisons\<close>

subsection \<open>Outcomes\<close>

lemma bindE_Inl [simp]: "bindE (Inl e) f = Inl e"
  by (simp add: bindE_def)

lemma bindE_Inr [simp]: "bindE (Inr x) f = f x"
  by (simp add: bindE_def)

lemma bindE_eq_Inr_iff [simp]: "bindE m f = Inr y \<longleftrightarrow> (\<exists>x. m = Inr x \<and> f x = Inr y)"
  by (cases m) auto

lemma bindE_eq_Inl_iff:
  "bindE m f = Inl e \<longleftrightarrow> m = Inl e \<or> (\<exists>x. m = Inr x \<and> f x = Inl e)"
  by (cases m) auto

lemma bindE_cong [fundef_cong]:
  "m = m' \<Longrightarrow> (\<And>x. m' = Inr x \<Longrightarrow> f x = f' x) \<Longrightarrow> bindE m f = bindE m' f'"
  by (cases m') auto

subsection \<open>Slices\<close>

lemma go_slice_Inr [go_simps]:
  "i \<le> j \<Longrightarrow> j \<le> length xs \<Longrightarrow> go_slice xs i j = Inr (take (j - i) (drop i xs))"
  by (simp add: go_slice_def)

lemma go_index_Inr [go_simps]: "i < length xs \<Longrightarrow> go_index xs i = Inr (xs ! i)"
  by (simp add: go_index_def)

lemma length_go_copy [simp]: "length (go_copy dst src) = length dst"
  by (simp add: go_copy_def)

text \<open>Copying into the tail of an array leaves its head alone and puts the source's prefix
  behind it.\<close>

lemma take_write_tail:
  assumes "w \<le> length c"
  shows "take (w + min (length c - w) (length p)) (take w c @ go_copy (drop w c) p)
    = take w c @ take (length c - w) p"
  using assms by (auto simp: go_copy_def min_def)

subsection \<open>Two's-complement words\<close>

lemma sint32_bounds: "- 2147483648 \<le> sint (a :: 32 word)" "sint (a :: 32 word) < 2147483648"
  using sint_ge [of a] sint_lt [of a] by simp_all

lemma signed32_eq_self:
  "- 2147483648 \<le> (k :: int) \<Longrightarrow> k < 2147483648 \<Longrightarrow> signed_take_bit 31 k = k"
  by (intro signed_take_bit_int_eq_self) simp_all

lemma sint32_plus:
  assumes "- 2147483648 \<le> sint (a :: 32 word) + sint b" "sint a + sint b < 2147483648"
  shows "sint (a + b) = sint a + sint b"
  using assms by (simp add: sint_word_ariths signed32_eq_self)

lemma sint32_minus:
  assumes "- 2147483648 \<le> sint (a :: 32 word) - sint b" "sint a - sint b < 2147483648"
  shows "sint (a - b) = sint a - sint b"
  using assms by (simp add: sint_word_ariths signed32_eq_self)

text \<open>A difference that leaves the range on the right comes back on the left.\<close>

lemma sint32_minus_wrap:
  assumes "2147483648 \<le> sint (a :: 32 word) - sint b"
  shows "sint (a - b) = sint a - sint b - 4294967296"
proof -
  let ?d = "sint a - sint b"
  have le: "?d < 4294967296"
    using sint32_bounds [of a] sint32_bounds [of b] by linarith
  have "(?d + 2147483648) mod 4294967296 = (?d + 2147483648 - 4294967296) mod 4294967296"
    by (simp only: minus_mod_self2)
  also have "\<dots> = ?d + 2147483648 - 4294967296"
    using assms le by (intro mod_pos_pos_trivial) linarith+
  finally have "signed_take_bit 31 ?d = ?d - 4294967296"
    by (simp add: signed_take_bit_eq_take_bit_shift take_bit_eq_mod)
  then show ?thesis by (simp add: sint_word_ariths)
qed

lemma sint_max_int32 [simp]: "sint max_int32 = 2147483647"
  by (simp add: max_int32_def)

lemma sint_of_nat32: "n < 2147483648 \<Longrightarrow> sint (of_nat n :: 32 word) = int n"
  by (simp add: signed_of_nat signed32_eq_self)

lemmas signed_compare [go_simps] = word_sless_alt word_sle_eq

end
