(* ===== verification/H2_Types.thy ===== *)
theory H2_Types
  imports Go_Prelude
begin

text \<open>
  The package's error values (\<open>types.go\<close> and the \<open>errors.New\<close> variables of the other files), its
  HTTP/2 constants (\<open>http2_defaults.go\<close>) and the error codes of RFC 7540 section 7 that the
  code names. The frame and error types that \<open>types.go\<close> only renames belong to
  golang.org/x/net/http2; the model has of them what this package reads.
  \<open>OpError\<close> is a \<open>*net.OpError\<close>: its operation, its text and, when it wraps an
  \<open>*os.SyscallError\<close>, the name of the system call and its error number.
\<close>

type_synonym ErrCode = u32

abbreviation (input) ErrCodeNo :: ErrCode where "ErrCodeNo \<equiv> 0"
abbreviation (input) ErrCodeProtocol :: ErrCode where "ErrCodeProtocol \<equiv> 1"
abbreviation (input) ErrCodeInternal :: ErrCode where "ErrCodeInternal \<equiv> 2"
abbreviation (input) ErrCodeFlowControl :: ErrCode where "ErrCodeFlowControl \<equiv> 3"
abbreviation (input) ErrCodeStreamClosed :: ErrCode where "ErrCodeStreamClosed \<equiv> 5"
abbreviation (input) ErrCodeFrameSize :: ErrCode where "ErrCodeFrameSize \<equiv> 6"
abbreviation (input) ErrCodeRefusedStream :: ErrCode where "ErrCodeRefusedStream \<equiv> 7"

datatype go_error =
    ErrorString string
  | IoEOF
  | IoUnexpectedEOF
  | ErrFrameTooLarge
  | StreamError u32 ErrCode
  | ConnectionError ErrCode
  | GoAwayFlowError
  | OpError string string "(string \<times> nat) option"

definition streamError :: "u32 \<Rightarrow> ErrCode \<Rightarrow> go_error" where
  "streamError sid code = StreamError sid code"

abbreviation errReadEmpty :: go_error where
  "errReadEmpty \<equiv> ErrorString ''read from empty dataBuffer''"

abbreviation errClosedPipeWrite :: go_error where
  "errClosedPipeWrite \<equiv> ErrorString ''write on closed buffer''"

definition http2MaxFrameLen :: u32 where "http2MaxFrameLen = 16384"
definition http2InitHeaderTableSize :: u32 where "http2InitHeaderTableSize = 4096"
definition defaultWriteBufSize :: int where "defaultWriteBufSize = 32 * 1024"
definition defaultReadBufSize :: int where "defaultReadBufSize = 32 * 1024"
definition defaultWindowSize :: u32 where "defaultWindowSize = 65535"
definition defaultMaxReadFrameSize :: u32 where "defaultMaxReadFrameSize = 1048576"

end
