(* ===== verification/Buffer_Interface.thy ===== *)
theory Buffer_Interface
  imports H2_Types
begin

text \<open>
  The interface \<open>pipeBuffer\<close> of \<open>pipe.go\<close>: \<open>Len\<close>, \<open>Write\<close> and \<open>Read\<close>. A value of the interface
  is a record of its operations. \<open>Read\<close> takes the length of the caller's slice and returns the
  bytes it stored there, whose number is the count Go returns. The locale states what a pipe
  relies on: the buffer is a queue of bytes.
\<close>

record 'b pipeBuffer =
  buf_Len :: "'b \<Rightarrow> int"
  buf_Write :: "byte list \<Rightarrow> 'b \<Rightarrow> go_panic + (nat \<times> go_error option) \<times> 'b"
  buf_Read :: "nat \<Rightarrow> 'b \<Rightarrow> go_panic + (byte list \<times> go_error option) \<times> 'b"

text \<open>A client's use of a buffer: writes and reads in any order. The run returns the bytes each
  read delivered.\<close>

datatype buf_op = OpWrite "byte list" | OpRead nat

fun buf_run :: "'b pipeBuffer \<Rightarrow> buf_op list \<Rightarrow> 'b \<Rightarrow> go_panic + byte list \<times> 'b" where
  "buf_run bi [] b = Inr ([], b)"
| "buf_run bi (OpWrite p # ops) b =
     bindE (buf_Write bi p b) (\<lambda>(_, b1). buf_run bi ops b1)"
| "buf_run bi (OpRead k # ops) b =
     bindE (buf_Read bi k b) (\<lambda>((bs, _), b1).
     bindE (buf_run bi ops b1) (\<lambda>(out, b2). Inr (bs @ out, b2)))"

fun written :: "buf_op list \<Rightarrow> byte list" where
  "written [] = []"
| "written (OpWrite p # ops) = p @ written ops"
| "written (OpRead k # ops) = written ops"

locale byte_queue =
  fixes bi :: "'b pipeBuffer"
    and contents :: "'b \<Rightarrow> byte list"
    and invar :: "'b \<Rightarrow> bool"
  assumes Len_contents: "invar b \<Longrightarrow> buf_Len bi b = int (length (contents b))"
    and Write_appends: "invar b \<Longrightarrow>
      \<exists>b'. buf_Write bi p b = Inr ((length p, None), b') \<and> invar b' \<and> contents b' = contents b @ p"
    and Read_takes: "invar b \<Longrightarrow> contents b \<noteq> [] \<Longrightarrow>
      \<exists>b'. buf_Read bi k b = Inr ((take k (contents b), None), b') \<and> invar b' \<and>
        contents b' = drop k (contents b)"
    and Read_empty: "invar b \<Longrightarrow> contents b = [] \<Longrightarrow>
      buf_Read bi k b = Inr (([], Some errReadEmpty), b)"
begin

lemma Read_any:
  assumes "invar b"
  obtains e b' where "buf_Read bi k b = Inr ((take k (contents b), e), b')" "invar b'"
    "contents b' = drop k (contents b)"
  using assms Read_takes [of b k] Read_empty [of b k] by (cases "contents b = []") auto

text \<open>Whatever the interleaving of writes and reads, no byte is lost, duplicated or reordered.\<close>

lemma buf_run_fifo:
  assumes "invar b"
  shows "\<exists>out b'. buf_run bi ops b = Inr (out, b') \<and> invar b' \<and>
    out @ contents b' = contents b @ written ops"
  using assms
proof (induction ops arbitrary: b)
  case (Cons op ops)
  show ?case
  proof (cases op)
    case (OpWrite p)
    obtain b1 where b1: "buf_Write bi p b = Inr ((length p, None), b1)" "invar b1"
      "contents b1 = contents b @ p"
      using Write_appends [OF Cons.prems] by blast
    then show ?thesis
      using Cons.IH [of b1] OpWrite by auto
  next
    case (OpRead k)
    obtain e b1 where b1: "buf_Read bi k b = Inr ((take k (contents b), e), b1)" "invar b1"
      "contents b1 = drop k (contents b)"
      by (rule Read_any [OF Cons.prems])
    obtain out b2 where r: "buf_run bi ops b1 = Inr (out, b2)" "invar b2"
      and q: "out @ contents b2 = contents b1 @ written ops"
      using Cons.IH [OF b1(2)] by blast
    have "(take k (contents b) @ out) @ contents b2 = take k (contents b) @ contents b1 @ written ops"
      by (simp add: q)
    also have "\<dots> = contents b @ written ops"
      by (simp add: b1(3) flip: append_assoc)
    finally have "(take k (contents b) @ out) @ contents b2 = contents b @ written ops" .
    then show ?thesis
      using b1(1) r OpRead by auto
  qed
qed simp

end

end
