(* ===== verification/DataBuffer.thy ===== *)
theory DataBuffer
  imports Buffer_Interface
begin

text \<open>
  The chunked byte buffer (\<open>databuffer.go\<close>). Chunks come from pools of five size classes; a
  chunk taken from a pool holds arbitrary bytes, so the models of \<open>getDataBufferChunk\<close> and of its
  callers take the pools' answers as an argument \<open>get\<close> (class index to chunk). \<open>newChunk\<close> is the
  pools' own \<open>New\<close>. A chunk put back is not observable.
\<close>

definition dataChunkSizeClasses :: "nat list" where
  "dataChunkSizeClasses = [1024, 2048, 4096, 8192, 16384]"

definition newChunk :: "nat \<Rightarrow> byte list" where
  "newChunk i = replicate (dataChunkSizeClasses ! i) 0"

text \<open>The loop of \<open>getDataBufferChunk\<close>: the first class that holds \<open>size\<close>, else the last.\<close>

function chunkClass :: "nat \<Rightarrow> int \<Rightarrow> nat" where
  "chunkClass i sz =
     (if i < length dataChunkSizeClasses - 1
      then if sz \<le> int (dataChunkSizeClasses ! i) then i else chunkClass (Suc i) sz
      else i)"
  by pat_completeness auto
termination
  by (relation "measure (\<lambda>(i, sz). length dataChunkSizeClasses - i)") auto

definition getDataBufferChunk :: "(nat \<Rightarrow> byte list) \<Rightarrow> int \<Rightarrow> byte list" where
  "getDataBufferChunk get sz = get (chunkClass 0 sz)"

definition putDataBufferChunk :: "byte list \<Rightarrow> go_panic + unit" where
  "putDataBufferChunk p =
     (if length p \<in> set dataChunkSizeClasses then Inr ()
      else Inl (Panic ''unexpected buffer len''))"

record dataBuffer =
  db_chunks :: "byte list list"
  db_r :: nat
  db_w :: nat
  db_size :: int
  db_expected :: int

definition bytesFromFirstChunk :: "dataBuffer \<Rightarrow> go_panic + byte list" where
  "bytesFromFirstChunk b =
     bindE (go_index (db_chunks b) 0) (\<lambda>c0.
       if length (db_chunks b) = 1 then go_slice c0 (db_r b) (db_w b)
       else go_slice c0 (db_r b) (length c0))"

text \<open>One turn of \<open>Read\<close>'s loop for a caller's slice of length \<open>plen\<close>: the bytes copied and the
  buffer after it.\<close>

definition readStep :: "nat \<Rightarrow> dataBuffer \<Rightarrow> go_panic + byte list \<times> dataBuffer" where
  "readStep plen b =
     bindE (bytesFromFirstChunk b) (\<lambda>readFrom.
       let n = min plen (length readFrom);
           b1 = b\<lparr>db_r := db_r b + n, db_size := db_size b - int n\<rparr>
       in bindE (go_index (db_chunks b1) 0) (\<lambda>c0.
            if db_r b1 = length c0
            then bindE (putDataBufferChunk c0) (\<lambda>_.
                   Inr (take n readFrom, b1\<lparr>db_chunks := tl (db_chunks b1), db_r := 0\<rparr>))
            else Inr (take n readFrom, b1)))"

fun readLoop :: "nat \<Rightarrow> nat \<Rightarrow> byte list \<Rightarrow> dataBuffer \<Rightarrow> go_panic + byte list \<times> dataBuffer" where
  "readLoop 0 plen acc b = Inl OutOfFuel"
| "readLoop (Suc fuel) plen acc b =
     (if 0 < plen \<and> 0 < db_size b
      then bindE (readStep plen b) (\<lambda>(bs, b'). readLoop fuel (plen - length bs) (acc @ bs) b')
      else Inr (acc, b))"

definition dataBuffer_Read ::
    "nat \<Rightarrow> dataBuffer \<Rightarrow> go_panic + (byte list \<times> go_error option) \<times> dataBuffer" where
  "dataBuffer_Read plen b =
     (if db_size b = 0 then Inr (([], Some errReadEmpty), b)
      else bindE (readLoop (Suc plen) plen [] b) (\<lambda>(bs, b'). Inr ((bs, None), b')))"

definition dataBuffer_Len :: "dataBuffer \<Rightarrow> int" where
  "dataBuffer_Len b = db_size b"

text \<open>\<open>lastChunkOrAlloc\<close>: afterwards the chunk it returns is the last of \<open>chunks\<close>.\<close>

definition lastChunkOrAlloc ::
    "(nat \<Rightarrow> byte list) \<Rightarrow> int \<Rightarrow> dataBuffer \<Rightarrow> byte list \<times> dataBuffer" where
  "lastChunkOrAlloc get want b =
     (if db_chunks b \<noteq> [] \<and> db_w b < length (last (db_chunks b)) then (last (db_chunks b), b)
      else let chunk = getDataBufferChunk get want
           in (chunk, b\<lparr>db_chunks := db_chunks b @ [chunk], db_w := 0\<rparr>))"

text \<open>One turn of \<open>Write\<close>'s loop: the number of bytes copied and the buffer after it. The chunk
  is written in place, so the last chunk of the buffer changes.\<close>

definition writeStep ::
    "(nat \<Rightarrow> byte list) \<Rightarrow> byte list \<Rightarrow> dataBuffer \<Rightarrow> go_panic + nat \<times> dataBuffer" where
  "writeStep get p b =
     (let want = (if int (length p) < db_expected b then db_expected b else int (length p));
          (chunk, b1) = lastChunkOrAlloc get want b
      in bindE (go_slice chunk (db_w b1) (length chunk)) (\<lambda>dst.
           let n = min (length dst) (length p)
           in Inr (n, b1\<lparr>db_chunks := butlast (db_chunks b1) @ [take (db_w b1) chunk @ go_copy dst p],
                         db_w := db_w b1 + n,
                         db_size := db_size b1 + int n,
                         db_expected := db_expected b1 - int n\<rparr>)))"

fun writeLoop :: "(nat \<Rightarrow> byte list) \<Rightarrow> nat \<Rightarrow> byte list \<Rightarrow> dataBuffer \<Rightarrow> go_panic + dataBuffer" where
  "writeLoop get 0 p b = Inl OutOfFuel"
| "writeLoop get (Suc fuel) p b =
     (if p = [] then Inr b
      else bindE (writeStep get p b) (\<lambda>(n, b'). writeLoop get fuel (drop n p) b'))"

definition dataBuffer_Write ::
    "(nat \<Rightarrow> byte list) \<Rightarrow> byte list \<Rightarrow> dataBuffer \<Rightarrow>
      go_panic + (nat \<times> go_error option) \<times> dataBuffer" where
  "dataBuffer_Write get p b =
     bindE (writeLoop get (Suc (length p)) p b) (\<lambda>b'. Inr ((length p, None), b'))"

definition dataBuffer_ops :: "(nat \<Rightarrow> byte list) \<Rightarrow> dataBuffer pipeBuffer" where
  "dataBuffer_ops get =
     \<lparr>buf_Len = dataBuffer_Len, buf_Write = dataBuffer_Write get, buf_Read = dataBuffer_Read\<rparr>"

text \<open>The buffer a new stream starts with: \<open>dataBuffer{expected: -1}\<close>.\<close>

definition emptyBuffer :: dataBuffer where
  "emptyBuffer = \<lparr>db_chunks = [], db_r = 0, db_w = 0, db_size = 0, db_expected = - 1\<rparr>"

text \<open>The unread bytes, and the invariant that every operation keeps.\<close>

definition unread :: "dataBuffer \<Rightarrow> byte list" where
  "unread b =
     (if db_chunks b = [] then []
      else drop (db_r b) (concat (butlast (db_chunks b)) @ take (db_w b) (last (db_chunks b))))"

definition db_inv :: "dataBuffer \<Rightarrow> bool" where
  "db_inv b \<longleftrightarrow>
     (\<forall>c \<in> set (db_chunks b). length c \<in> set dataChunkSizeClasses) \<and>
     (db_chunks b \<noteq> [] \<longrightarrow>
        db_w b \<le> length (last (db_chunks b)) \<and> db_r b < length (hd (db_chunks b)) \<and>
        (length (db_chunks b) = 1 \<longrightarrow> db_r b \<le> db_w b)) \<and>
     (db_chunks b = [] \<longrightarrow> db_r b = 0) \<and>
     db_size b = int (length (unread b))"

declare chunkClass.simps [simp del]

subsection \<open>Chunks\<close>

text \<open>What the code relies on of the pools: a chunk has the size of its class.\<close>

locale chunk_pool =
  fixes get :: "nat \<Rightarrow> byte list"
  assumes length_get: "i < 5 \<Longrightarrow> length (get i) = dataChunkSizeClasses ! i"

lemma class_positive: "n \<in> set dataChunkSizeClasses \<Longrightarrow> 0 < n \<and> n \<le> 16384"
  by (auto simp: dataChunkSizeClasses_def)

lemma length_dataChunkSizeClasses: "length dataChunkSizeClasses = 5"
  by (simp add: dataChunkSizeClasses_def)

lemma chunkClass_bounds: "i \<le> 4 \<Longrightarrow> i \<le> chunkClass i sz \<and> chunkClass i sz \<le> 4"
proof (induction i sz rule: chunkClass.induct)
  case (1 i sz)
  note len = length_dataChunkSizeClasses
  show ?case
  proof (cases "i < 4 \<and> \<not> sz \<le> int (dataChunkSizeClasses ! i)")
    case True
    with 1 len show ?thesis by (subst (1 2) chunkClass.simps) simp
  next
    case False
    with 1(2) len show ?thesis by (subst (1 2) chunkClass.simps) auto
  qed
qed

subsection \<open>One turn of the loops\<close>

lemma unread_Cons:
  "db_chunks b = c # cs \<Longrightarrow> db_r b \<le> length c \<Longrightarrow> unread b =
     (if cs = [] then take (db_w b - db_r b) (drop (db_r b) c)
      else drop (db_r b) c @ concat (butlast cs) @ take (db_w b) (last cs))"
  by (simp add: unread_def drop_take)

lemma db_invD:
  assumes "db_inv b" "db_chunks b = c # cs"
  shows "length c \<in> set dataChunkSizeClasses" "\<And>d. d \<in> set cs \<Longrightarrow> length d \<in> set dataChunkSizeClasses"
    "db_r b < length c" "cs = [] \<Longrightarrow> db_r b \<le> db_w b \<and> db_w b \<le> length c"
    "cs \<noteq> [] \<Longrightarrow> db_w b \<le> length (last cs)" "db_size b = int (length (unread b))"
  using assms by (auto simp: db_inv_def)

lemma bytesFromFirstChunk_unread:
  assumes inv: "db_inv b" and ne: "unread b \<noteq> []"
  obtains c cs rf rest where "db_chunks b = c # cs" "bytesFromFirstChunk b = Inr rf" "rf \<noteq> []"
    "unread b = rf @ rest"
    "cs = [] \<longrightarrow> rf = take (db_w b - db_r b) (drop (db_r b) c) \<and> rest = []"
    "cs \<noteq> [] \<longrightarrow> rf = drop (db_r b) c \<and> rest = concat (butlast cs) @ take (db_w b) (last cs)"
proof -
  obtain c cs where c: "db_chunks b = c # cs"
    using ne by (cases "db_chunks b") (auto simp: unread_def)
  note d = db_invD [OF inv c]
  show ?thesis
  proof (cases "cs = []")
    case True
    let ?rf = "take (db_w b - db_r b) (drop (db_r b) c)"
    have "bytesFromFirstChunk b = Inr ?rf"
      using True c d by (simp add: bytesFromFirstChunk_def go_simps)
    moreover have "unread b = ?rf"
      using True c d by (simp add: unread_Cons)
    ultimately show ?thesis using True c ne that by simp
  next
    case False
    let ?rf = "drop (db_r b) c"
    have "bytesFromFirstChunk b = Inr ?rf"
      using False c d by (simp add: bytesFromFirstChunk_def go_simps)
    moreover have "unread b = ?rf @ concat (butlast cs) @ take (db_w b) (last cs)"
      using False c d by (simp add: unread_Cons)
    ultimately show ?thesis using False c d(3) that by simp
  qed
qed

lemma db_size_unread: "db_inv b \<Longrightarrow> db_size b = int (length (unread b))"
  by (simp add: db_inv_def)

text \<open>A turn of \<open>Read\<close> on a buffer with unread bytes copies at least one byte, from the front.\<close>

lemma readStep_ok:
  assumes inv: "db_inv b" and ne: "unread b \<noteq> []" and plen: "0 < plen"
  obtains bs b' where "readStep plen b = Inr (bs, b')" "db_inv b'" "bs \<noteq> []" "length bs \<le> plen"
    "unread b = bs @ unread b'" "length bs = plen \<or> length bs < plen"
proof -
  obtain c cs rf rest where c: "db_chunks b = c # cs" and rf: "bytesFromFirstChunk b = Inr rf"
      "rf \<noteq> []" "unread b = rf @ rest"
    and one: "cs = [] \<longrightarrow> rf = take (db_w b - db_r b) (drop (db_r b) c) \<and> rest = []"
    and more: "cs \<noteq> [] \<longrightarrow> rf = drop (db_r b) c \<and> rest = concat (butlast cs) @ take (db_w b) (last cs)"
    by (rule bytesFromFirstChunk_unread [OF inv ne])
  note d = db_invD [OF inv c]
  let ?n = "min plen (length rf)"
  let ?b1 = "b\<lparr>db_r := db_r b + ?n, db_size := db_size b - int ?n\<rparr>"
  let ?b2 = "if db_r ?b1 = length c then ?b1\<lparr>db_chunks := cs, db_r := 0\<rparr> else ?b1"
  have step: "readStep plen b = Inr (take ?n rf, ?b2)"
    using rf(1) c d(1) by (simp add: readStep_def Let_def putDataBufferChunk_def go_simps)
  have unread2: "unread ?b2 = drop ?n (unread b)"
  proof (cases "cs = []")
    case True
    with one d(4) have "length rf = db_w b - db_r b" by (simp add: min_def) linarith
    with True one rf(3) c d(3,4) show ?thesis
      by (auto simp: unread_Cons unread_def min_def drop_take add.commute)
  next
    case False
    with more have len: "length rf = length c - db_r b" by simp
    show ?thesis
    proof (cases "db_r b + ?n = length c")
      case True
      with len d(3) have n: "?n = length rf" by linarith
      have "unread ?b2 = rest"
        using True False more c by (simp add: unread_def)
      then show ?thesis using rf(3) n by simp
    next
      case neq: False
      with len d(3) have "db_r b + ?n \<le> length c" "?n \<le> length rf" by linarith+
      with neq False more c rf(3) show ?thesis
        by (simp add: unread_Cons add.commute)
    qed
  qed
  have inv2: "db_inv ?b2"
  proof -
    have "db_size ?b2 = int (length (unread ?b2))"
      unfolding unread2 using d(6) rf(3) by (simp add: of_nat_diff)
    moreover have "cs \<noteq> [] \<Longrightarrow> 0 < length (hd cs)"
      using d(2) [of "hd cs"] class_positive [of "length (hd cs)"] by simp
    moreover have "length rf \<le> length c - db_r b"
      using one more by (cases "cs = []") simp_all
    moreover have "cs = [] \<Longrightarrow> length rf = db_w b - db_r b"
      using one d(4) by (simp add: min_def) linarith
    ultimately show ?thesis
      using c d unfolding db_inv_def by (auto simp: min_def split: if_splits)
  qed
  have "take ?n rf \<noteq> []" using plen rf(2) by simp
  moreover have "unread b = take ?n rf @ unread ?b2"
    unfolding unread2 using rf(3) by (simp add: min_def)
  ultimately show ?thesis
    using that [OF step inv2] by (simp add: min_def)
qed

lemma readLoop_ok:
  assumes "db_inv b" "plen < fuel"
  shows "\<exists>b'. readLoop fuel plen acc b = Inr (acc @ take plen (unread b), b') \<and> db_inv b' \<and>
    unread b' = drop plen (unread b)"
  using assms
proof (induction fuel arbitrary: plen acc b)
  case (Suc fuel)
  show ?case
  proof (cases "0 < plen \<and> unread b \<noteq> []")
    case True
    then obtain bs b1 where st: "readStep plen b = Inr (bs, b1)" "db_inv b1" "bs \<noteq> []"
        "length bs \<le> plen" "unread b = bs @ unread b1"
      using readStep_ok [OF Suc.prems(1)] by blast
    have "plen - length bs < fuel"
      using st(3,4) Suc.prems(2) by (cases bs) auto
    then obtain b2 where "readLoop fuel (plen - length bs) (acc @ bs) b1 =
          Inr ((acc @ bs) @ take (plen - length bs) (unread b1), b2)" "db_inv b2"
        "unread b2 = drop (plen - length bs) (unread b1)"
      using Suc.IH [OF st(2)] by blast
    moreover have "0 < db_size b"
      using True db_size_unread [OF Suc.prems(1)] by simp
    ultimately show ?thesis
      using True st by simp
  next
    case False
    then show ?thesis
      using Suc.prems db_size_unread [OF Suc.prems(1)] by auto
  qed
qed simp

text \<open>Writing into the last chunk, or into a fresh one when it is full.\<close>

lemma unread_snoc:
  "db_chunks b = cs @ [c] \<Longrightarrow> unread b = drop (db_r b) (concat cs @ take (db_w b) c)"
  by (simp add: unread_def)

lemma db_inv_snoc:
  assumes "db_chunks b = cs @ [c]"
  shows "db_inv b \<longleftrightarrow> (\<forall>d \<in> set (cs @ [c]). length d \<in> set dataChunkSizeClasses) \<and>
    db_w b \<le> length c \<and> db_r b < length (hd (cs @ [c])) \<and> (cs = [] \<longrightarrow> db_r b \<le> db_w b) \<and>
    db_size b = int (length (unread b))"
  using assms by (auto simp: db_inv_def)

context chunk_pool
begin

lemma length_getDataBufferChunk: "length (getDataBufferChunk get sz) \<in> set dataChunkSizeClasses"
  using chunkClass_bounds [of 0 sz] length_get [of "chunkClass 0 sz"]
    nth_mem [of "chunkClass 0 sz" dataChunkSizeClasses]
  by (simp add: getDataBufferChunk_def length_dataChunkSizeClasses)

lemma lastChunkOrAlloc_ok:
  assumes inv: "db_inv b"
  obtains cs c b1 where "lastChunkOrAlloc get want b = (c, b1)" "db_chunks b1 = cs @ [c]"
    "db_inv b1" "db_w b1 < length c" "unread b1 = unread b"
proof (cases "db_chunks b \<noteq> [] \<and> db_w b < length (last (db_chunks b))")
  case True
  then show ?thesis
    using that [of "last (db_chunks b)" b "butlast (db_chunks b)"] inv
    by (simp add: lastChunkOrAlloc_def)
next
  case False
  let ?c = "getDataBufferChunk get want"
  let ?b1 = "b\<lparr>db_chunks := db_chunks b @ [?c], db_w := 0\<rparr>"
  have pos: "0 < length ?c"
    using class_positive [OF length_getDataBufferChunk] by blast
  have un: "unread ?b1 = unread b"
  proof (cases "db_chunks b" rule: rev_cases)
    case Nil
    then show ?thesis using inv by (simp add: unread_def db_inv_def)
  next
    case (snoc cs c)
    then have "db_w b = length c" using False inv by (simp add: db_inv_def)
    then show ?thesis
      using snoc unread_snoc [of ?b1 "cs @ [c]" ?c] unread_snoc [of b cs c] by simp
  qed
  have "db_r b < length (hd (db_chunks b @ [?c]))"
    using inv pos by (cases "db_chunks b") (auto simp: db_inv_def)
  moreover have "db_chunks b = [] \<Longrightarrow> db_r b = 0"
    using inv by (simp add: db_inv_def)
  ultimately have "db_inv ?b1"
    using inv un length_getDataBufferChunk [of want]
    by (subst db_inv_snoc [of _ "db_chunks b" ?c]) (auto simp: db_inv_def)
  with un pos show ?thesis
    using that [of ?c ?b1 "db_chunks b"] False by (auto simp: lastChunkOrAlloc_def Let_def)
qed

text \<open>A turn of \<open>Write\<close> appends at least one byte.\<close>

lemma writeStep_ok:
  assumes inv: "db_inv b" and ne: "p \<noteq> []"
  obtains n b' where "writeStep get p b = Inr (n, b')" "0 < n" "n \<le> length p" "db_inv b'"
    "unread b' = unread b @ take n p"
proof -
  let ?want = "if int (length p) < db_expected b then db_expected b else int (length p)"
  obtain cs c b1 where l: "lastChunkOrAlloc get ?want b = (c, b1)" "db_chunks b1 = cs @ [c]"
    "db_inv b1" "db_w b1 < length c" "unread b1 = unread b"
    by (rule lastChunkOrAlloc_ok [OF inv])
  note i1 = l(3) [unfolded db_inv_snoc [OF l(2)]]
  let ?n = "min (length c - db_w b1) (length p)"
  let ?c = "take (db_w b1) c @ go_copy (drop (db_w b1) c) p"
  let ?b2 = "b1\<lparr>db_chunks := cs @ [?c], db_w := db_w b1 + ?n, db_size := db_size b1 + int ?n,
      db_expected := db_expected b1 - int ?n\<rparr>"
  have step: "writeStep get p b = Inr (?n, ?b2)"
    using l by (simp add: writeStep_def Let_def go_simps)
  have len: "length ?c = length c"
    using l(4) by simp
  have "take (db_w b1 + ?n) ?c = take (db_w b1) c @ take ?n p"
    using take_write_tail [of "db_w b1" c p] l(4) by (simp add: min_def)
  moreover have "db_r b1 \<le> length (concat cs @ take (db_w b1) c)"
    using i1 l(4) by (cases cs) (auto simp: min_def)
  ultimately have un: "unread ?b2 = unread b1 @ take ?n p"
    using l(2) by (simp add: unread_snoc [of b1 cs c] unread_snoc [of ?b2 cs ?c])
  have "db_size ?b2 = int (length (unread ?b2))"
    unfolding un using i1 by (simp add: min_def)
  moreover have "\<forall>d \<in> set (cs @ [?c]). length d \<in> set dataChunkSizeClasses"
    using i1 len by (metis (no_types, lifting) Un_iff empty_iff insert_iff list.set set_append)
  moreover have "db_w b1 + ?n \<le> length ?c" "cs = [] \<longrightarrow> db_r b1 \<le> db_w b1 + ?n"
    unfolding len using i1 l(4) by (auto simp: min_def)
  moreover have "db_r b1 < length (hd (cs @ [?c]))"
    using i1 len by (cases cs) simp_all
  ultimately have "db_inv ?b2"
    by (subst db_inv_snoc [of ?b2 cs ?c]) simp_all
  then show ?thesis
    using that [OF step] ne l(4,5) un by simp
qed

lemma writeLoop_ok:
  assumes "db_inv b" "length p < fuel"
  shows "\<exists>b'. writeLoop get fuel p b = Inr b' \<and> db_inv b' \<and> unread b' = unread b @ p"
  using assms
proof (induction fuel arbitrary: p b)
  case (Suc fuel)
  show ?case
  proof (cases "p = []")
    case False
    obtain n b1 where st: "writeStep get p b = Inr (n, b1)" "0 < n" "n \<le> length p" "db_inv b1"
        "unread b1 = unread b @ take n p"
      by (rule writeStep_ok [OF Suc.prems(1) False])
    then show ?thesis
      using Suc.IH [OF st(4), of "drop n p"] Suc.prems(2) False by auto
  qed (use Suc.prems in simp)
qed simp

end

sublocale chunk_pool \<subseteq> db: byte_queue "dataBuffer_ops get" unread db_inv
proof
  fix b k p
  assume inv: "db_inv b"
  show "buf_Len (dataBuffer_ops get) b = int (length (unread b))"
    using inv by (simp add: dataBuffer_ops_def dataBuffer_Len_def db_size_unread)
  show "\<exists>b'. buf_Write (dataBuffer_ops get) p b = Inr ((length p, None), b') \<and> db_inv b' \<and>
      unread b' = unread b @ p"
    using writeLoop_ok [OF inv, of p "Suc (length p)"]
    by (auto simp: dataBuffer_ops_def dataBuffer_Write_def simp del: writeLoop.simps)
  {
    assume "unread b \<noteq> []"
    then show "\<exists>b'. buf_Read (dataBuffer_ops get) k b = Inr ((take k (unread b), None), b') \<and>
        db_inv b' \<and> unread b' = drop k (unread b)"
      using readLoop_ok [OF inv, of k "Suc k" "[]"]
      by (auto simp: dataBuffer_ops_def dataBuffer_Read_def db_size_unread [OF inv] simp del: readLoop.simps)
  next
    assume "unread b = []"
    then show "buf_Read (dataBuffer_ops get) k b = Inr (([], Some errReadEmpty), b)"
      by (simp add: dataBuffer_ops_def dataBuffer_Read_def db_size_unread [OF inv])
  }
qed

context chunk_pool
begin

lemmas dataBuffer_queue = db.byte_queue_axioms

lemma db_run_empty:
  "\<exists>out b'. buf_run (dataBuffer_ops get) ops emptyBuffer = Inr (out, b') \<and> db_inv b' \<and>
    out @ unread b' = written ops"
  using db.buf_run_fifo [of emptyBuffer ops] by (simp add: db_inv_def emptyBuffer_def unread_def)

end

lemma waste_bound:
  assumes "db_inv b"
  shows "int (sum_list (map length (db_chunks b))) - dataBuffer_Len b < 2 * 16384"
proof (cases "db_chunks b" rule: rev_cases)
  case Nil
  then show ?thesis using assms by (simp add: dataBuffer_Len_def db_inv_def unread_def)
next
  case (snoc cs c)
  note i = assms [unfolded db_inv_snoc [OF snoc]]
  have "length c \<le> 16384" "length (hd (cs @ [c])) \<le> 16384"
    using i class_positive by (cases cs; force)+
  moreover have "length (unread b) = length (concat cs) + db_w b - db_r b"
    using i by (simp only: unread_snoc [OF snoc] length_drop length_append length_take min_absorb2)
  moreover have "db_r b \<le> length (concat cs) + db_w b"
    using i by (cases cs) auto
  ultimately show ?thesis
    using i snoc by (simp add: dataBuffer_Len_def length_concat)
qed

interpretation fresh_pool: chunk_pool newChunk
  by unfold_locales (simp add: newChunk_def)

subsection \<open>Properties\<close>

text \<open>C18: \<open>dataBuffer\<close> is a queue of bytes. Started empty, any interleaving of \<open>Write\<close>s and \<open>Read\<close>s,
  of any sizes and across any chunk boundaries, returns without panicking, whatever bytes the pools'
  chunks held before; the bytes read so far followed by the bytes still unread are exactly the bytes
  written, in order, and \<open>Len\<close> counts the unread ones.\<close>

theorem dataBuffer_fifo:
  assumes "chunk_pool get"
  shows "\<exists>out b'. buf_run (dataBuffer_ops get) ops emptyBuffer = Inr (out, b') \<and>
    out @ unread b' = written ops \<and> dataBuffer_Len b' = int (length (written ops) - length out)"
proof -
  obtain out b' where run: "buf_run (dataBuffer_ops get) ops emptyBuffer = Inr (out, b')" "db_inv b'"
      and q: "out @ unread b' = written ops"
    using chunk_pool.db_run_empty [OF assms] by blast
  have "length (written ops) = length out + length (unread b')"
    unfolding q [symmetric] by simp
  then show ?thesis
    using run q by (auto simp: dataBuffer_Len_def db_size_unread)
qed

theorem dataBuffer_fifo_witness:
  "\<exists>out b'. buf_run (dataBuffer_ops newChunk) [OpWrite [1, 2, 3], OpRead 2, OpWrite [4], OpRead 9] emptyBuffer
      = Inr (out, b') \<and> out @ unread b' = [1, 2, 3, 4]"
  using dataBuffer_fifo [OF fresh_pool.chunk_pool_axioms,
      of "[OpWrite [1, 2, 3], OpRead 2, OpWrite [4], OpRead 9]"]
  by auto

text \<open>The space a buffer wastes is bounded as its comment claims: whatever was written to and
  read from it, the bytes its chunks hold beyond the unread ones are fewer than twice the largest
  size class.\<close>

theorem dataBuffer_waste:
  assumes "chunk_pool get" and "buf_run (dataBuffer_ops get) ops emptyBuffer = Inr (out, b)"
  shows "int (sum_list (map length (db_chunks b))) - dataBuffer_Len b < 2 * 16384"
  using chunk_pool.db_run_empty [OF assms(1), of ops] assms(2) waste_bound by auto

theorem dataBuffer_waste_witness:
  "\<exists>out b. buf_run (dataBuffer_ops newChunk) [OpWrite [1, 2, 3], OpRead 2] emptyBuffer = Inr (out, b) \<and>
    int (sum_list (map length (db_chunks b))) - dataBuffer_Len b < 2 * 16384"
proof -
  obtain out b where run: "buf_run (dataBuffer_ops newChunk) [OpWrite [1, 2, 3], OpRead 2] emptyBuffer = Inr (out, b)"
    using fresh_pool.db_run_empty by blast
  then show ?thesis
    using dataBuffer_waste [OF fresh_pool.chunk_pool_axioms run] by blast
qed

text \<open>One \<open>Read\<close>. On a buffer with unread bytes it fills the caller's slice as far as they go,
  from the front, returns their number and no error, and keeps the invariant; with nothing unread
  it returns \<open>errReadEmpty\<close> and changes nothing. It neither panics nor loops.\<close>

theorem dataBuffer_Read_correct:
  assumes "db_inv b"
  shows "\<exists>b'. dataBuffer_Read plen b =
      Inr ((take plen (unread b), if unread b = [] then Some errReadEmpty else None), b') \<and>
      db_inv b' \<and> unread b' = drop plen (unread b) \<and> (unread b = [] \<longrightarrow> b' = b)"
  using fresh_pool.db.Read_takes [OF assms, of plen] fresh_pool.db.Read_empty [OF assms, of plen] assms
  by (cases "unread b = []") (auto simp: dataBuffer_ops_def)

theorem dataBuffer_Read_correct_witness:
  "dataBuffer_Read 4 emptyBuffer = Inr (([], Some errReadEmpty), emptyBuffer)"
proof -
  have "db_inv emptyBuffer" "unread emptyBuffer = []"
    by (simp_all add: db_inv_def emptyBuffer_def unread_def)
  then show ?thesis
    using dataBuffer_Read_correct [of emptyBuffer 4] by auto
qed

end
