(* ===== verification/Pipe.thy ===== *)
theory Pipe
  imports DataBuffer
begin

text \<open>
  The pipe between the serve loop and a stream's reader (\<open>pipe.go\<close>). Every method holds the
  pipe's mutex, so one method call is one atomic step; the exception is \<open>Read\<close>, which releases the
  mutex in \<open>c.Wait()\<close>. \<open>pipe_Read_pass\<close> is one turn of its loop, with \<open>None\<close> for reaching
  \<open>Wait\<close>, and \<open>pipe_Read\<close> is the whole loop against the batches of calls that other goroutines
  make while the reader sleeps. The buffer is any value of the interface \<open>pipeBuffer\<close>; \<open>'f\<close> names
  the function \<open>readFn\<close>, and a read reports the one it ran.
\<close>

datatype chan_state = ChanOpen | ChanClosed

definition go_close :: "chan_state \<Rightarrow> go_panic + chan_state" where
  "go_close c = (case c of ChanOpen \<Rightarrow> Inr ChanClosed | ChanClosed \<Rightarrow> Inl CloseOfClosedChannel)"

record ('b, 'f) pipe =
  p_b :: "'b option"
  p_err :: "go_error option"
  p_breakErr :: "go_error option"
  p_donec :: "chan_state option"
  p_readFn :: "'f option"

definition newPipe :: "'b \<Rightarrow> ('b, 'f) pipe" where
  "newPipe b = \<lparr>p_b = Some b, p_err = None, p_breakErr = None, p_donec = None, p_readFn = None\<rparr>"

definition pipe_Len :: "'b pipeBuffer \<Rightarrow> ('b, 'f) pipe \<Rightarrow> int" where
  "pipe_Len bi p = (case p_b p of None \<Rightarrow> 0 | Some b \<Rightarrow> buf_Len bi b)"

type_synonym 'f read_result = "byte list \<times> go_error option \<times> 'f option"

definition pipe_Read_pass ::
    "'b pipeBuffer \<Rightarrow> nat \<Rightarrow> ('b, 'f) pipe \<Rightarrow> go_panic + 'f read_result option \<times> ('b, 'f) pipe" where
  "pipe_Read_pass bi d p =
     (case p_breakErr p of
        Some e \<Rightarrow> Inr (Some ([], Some e, None), p)
      | None \<Rightarrow>
          (case p_b p of
             Some b \<Rightarrow>
               if 0 < buf_Len bi b
               then bindE (buf_Read bi d b) (\<lambda>((bs, e), b').
                      Inr (Some (bs, e, None), p\<lparr>p_b := Some b'\<rparr>))
               else (case p_err p of
                       Some e \<Rightarrow> Inr (Some ([], Some e, p_readFn p), p\<lparr>p_readFn := None, p_b := None\<rparr>)
                     | None \<Rightarrow> Inr (None, p))
           | None \<Rightarrow>
               (case p_err p of
                  Some e \<Rightarrow> Inr (Some ([], Some e, p_readFn p), p\<lparr>p_readFn := None, p_b := None\<rparr>)
                | None \<Rightarrow> Inr (None, p))))"

definition pipe_Write ::
    "'b pipeBuffer \<Rightarrow> byte list \<Rightarrow> ('b, 'f) pipe \<Rightarrow>
      go_panic + (nat \<times> go_error option) \<times> ('b, 'f) pipe" where
  "pipe_Write bi d p =
     (if p_err p \<noteq> None then Inr ((0, Some errClosedPipeWrite), p)
      else if p_breakErr p \<noteq> None then Inr ((length d, None), p)
      else case p_b p of
             None \<Rightarrow> Inl NilDereference
           | Some b \<Rightarrow> bindE (buf_Write bi d b) (\<lambda>(r, b'). Inr (r, p\<lparr>p_b := Some b'\<rparr>)))"

definition closeDoneLocked :: "('b, 'f) pipe \<Rightarrow> go_panic + ('b, 'f) pipe" where
  "closeDoneLocked p =
     (case p_donec p of
        None \<Rightarrow> Inr p
      | Some ChanClosed \<Rightarrow> Inr p
      | Some ChanOpen \<Rightarrow> bindE (go_close ChanOpen) (\<lambda>c. Inr (p\<lparr>p_donec := Some c\<rparr>)))"

text \<open>The destination \<open>dst *error\<close> of \<open>closeWithError\<close> is one of the pipe's two error fields.\<close>

datatype pipe_dst = DstErr | DstBreakErr

definition closeWithError ::
    "pipe_dst \<Rightarrow> go_error option \<Rightarrow> 'f option \<Rightarrow> ('b, 'f) pipe \<Rightarrow> go_panic + ('b, 'f) pipe" where
  "closeWithError dst err fn p =
     (if err = None then Inl (Panic ''err must be non-nil'')
      else if (case dst of DstErr \<Rightarrow> p_err p | DstBreakErr \<Rightarrow> p_breakErr p) \<noteq> None then Inr p
      else let p1 = p\<lparr>p_readFn := fn\<rparr>
           in case dst of
                DstErr \<Rightarrow> closeDoneLocked (p1\<lparr>p_err := err\<rparr>)
              | DstBreakErr \<Rightarrow> closeDoneLocked (p1\<lparr>p_b := None, p_breakErr := err\<rparr>))"

definition CloseWithError :: "go_error option \<Rightarrow> ('b, 'f) pipe \<Rightarrow> go_panic + ('b, 'f) pipe" where
  "CloseWithError err p = closeWithError DstErr err None p"

definition BreakWithError :: "go_error option \<Rightarrow> ('b, 'f) pipe \<Rightarrow> go_panic + ('b, 'f) pipe" where
  "BreakWithError err p = closeWithError DstBreakErr err None p"

definition closeWithErrorAndCode ::
    "go_error option \<Rightarrow> 'f option \<Rightarrow> ('b, 'f) pipe \<Rightarrow> go_panic + ('b, 'f) pipe" where
  "closeWithErrorAndCode err fn p = closeWithError DstErr err fn p"

definition pipe_Err :: "('b, 'f) pipe \<Rightarrow> go_error option" where
  "pipe_Err p = (if p_breakErr p \<noteq> None then p_breakErr p else p_err p)"

text \<open>\<open>Done\<close> returns the channel; its state is what a waiter on it sees.\<close>

definition pipe_Done :: "('b, 'f) pipe \<Rightarrow> go_panic + ('b, 'f) pipe" where
  "pipe_Done p =
     (if p_donec p = None
      then let p1 = p\<lparr>p_donec := Some ChanOpen\<rparr>
           in if p_err p \<noteq> None \<or> p_breakErr p \<noteq> None then closeDoneLocked p1 else Inr p1
      else Inr p)"

subsection \<open>Calls and their interleaving\<close>

datatype 'f pipe_call =
    CallWrite "byte list"
  | CallClose go_error
  | CallCloseCode go_error 'f
  | CallBreak go_error
  | CallDone

fun pipe_call_step :: "'b pipeBuffer \<Rightarrow> 'f pipe_call \<Rightarrow> ('b, 'f) pipe \<Rightarrow> go_panic + ('b, 'f) pipe" where
  "pipe_call_step bi (CallWrite d) p = bindE (pipe_Write bi d p) (\<lambda>(_, p'). Inr p')"
| "pipe_call_step bi (CallClose e) p = CloseWithError (Some e) p"
| "pipe_call_step bi (CallCloseCode e f) p = closeWithErrorAndCode (Some e) (Some f) p"
| "pipe_call_step bi (CallBreak e) p = BreakWithError (Some e) p"
| "pipe_call_step bi CallDone p = pipe_Done p"

fun pipe_calls :: "'b pipeBuffer \<Rightarrow> 'f pipe_call list \<Rightarrow> ('b, 'f) pipe \<Rightarrow> go_panic + ('b, 'f) pipe" where
  "pipe_calls bi [] p = Inr p"
| "pipe_calls bi (c # cs) p = bindE (pipe_call_step bi c p) (pipe_calls bi cs)"

text \<open>\<open>Read\<close>: a turn of the loop, and, when it waits, the next batch of calls before it runs again.
  \<open>None\<close> is a reader still asleep after the last batch.\<close>

fun pipe_Read ::
    "'b pipeBuffer \<Rightarrow> nat \<Rightarrow> 'f pipe_call list list \<Rightarrow> ('b, 'f) pipe \<Rightarrow>
      go_panic + 'f read_result option \<times> ('b, 'f) pipe" where
  "pipe_Read bi d [] p = pipe_Read_pass bi d p"
| "pipe_Read bi d (cs # batches) p =
     bindE (pipe_Read_pass bi d p) (\<lambda>(r, p1).
       case r of
         Some x \<Rightarrow> Inr (Some x, p1)
       | None \<Rightarrow> bindE (pipe_calls bi cs p1) (pipe_Read bi d batches))"

text \<open>A reader that drains the pipe: reads of the given sizes one after the other, each a single
  turn. It stops at the first read that would wait or returns an error.\<close>

fun pipe_drain ::
    "'b pipeBuffer \<Rightarrow> nat list \<Rightarrow> ('b, 'f) pipe \<Rightarrow>
      go_panic + (byte list \<times> go_error option) \<times> ('b, 'f) pipe" where
  "pipe_drain bi [] p = Inr (([], None), p)"
| "pipe_drain bi (d # ds) p =
     bindE (pipe_Read_pass bi d p) (\<lambda>(r, p1).
       case r of
         None \<Rightarrow> Inr (([], None), p1)
       | Some (bs, Some e, _) \<Rightarrow> Inr ((bs, Some e), p1)
       | Some (bs, None, _) \<Rightarrow>
           bindE (pipe_drain bi ds p1) (\<lambda>((bs', e), p2). Inr ((bs @ bs', e), p2)))"

text \<open>The bytes the pipe accepted: those of the writes before it was closed or broken.\<close>

fun accepted :: "'f pipe_call list \<Rightarrow> byte list" where
  "accepted [] = []"
| "accepted (CallWrite d # cs) = d @ accepted cs"
| "accepted (CallDone # cs) = accepted cs"
| "accepted (_ # cs) = []"

fun first_close :: "'f pipe_call list \<Rightarrow> go_error option" where
  "first_close [] = None"
| "first_close (CallClose e # cs) = Some e"
| "first_close (CallCloseCode e _ # cs) = Some e"
| "first_close (_ # cs) = first_close cs"

text \<open>A call that gives a sleeping reader something to return.\<close>

fun wakes :: "'f pipe_call \<Rightarrow> bool" where
  "wakes (CallWrite d) \<longleftrightarrow> d \<noteq> []"
| "wakes CallDone \<longleftrightarrow> False"
| "wakes _ \<longleftrightarrow> True"

definition is_break :: "'f pipe_call \<Rightarrow> bool" where
  "is_break c = (case c of CallBreak _ \<Rightarrow> True | _ \<Rightarrow> False)"

definition pending :: "('b \<Rightarrow> byte list) \<Rightarrow> ('b, 'f) pipe \<Rightarrow> byte list" where
  "pending contents p = (case p_b p of None \<Rightarrow> [] | Some b \<Rightarrow> contents b)"

definition pipe_inv :: "('b \<Rightarrow> bool) \<Rightarrow> ('b, 'f) pipe \<Rightarrow> bool" where
  "pipe_inv invar p \<longleftrightarrow>
     (case p_b p of None \<Rightarrow> p_err p \<noteq> None \<or> p_breakErr p \<noteq> None | Some b \<Rightarrow> invar b) \<and>
     (p_breakErr p \<noteq> None \<longrightarrow> p_b p = None) \<and>
     (p_donec p = Some ChanOpen \<longrightarrow> p_err p = None \<and> p_breakErr p = None) \<and>
     (p_donec p = Some ChanClosed \<longrightarrow> p_err p \<noteq> None \<or> p_breakErr p \<noteq> None)"

lemmas close_defs = CloseWithError_def BreakWithError_def closeWithErrorAndCode_def
  closeWithError_def closeDoneLocked_def go_close_def


subsection \<open>A pipe over any byte queue\<close>

context byte_queue
begin

abbreviation "pinv \<equiv> pipe_inv invar"
abbreviation "pend \<equiv> pending contents"

lemma pinv_newPipe: "invar b \<Longrightarrow> pinv (newPipe b)"
  by (simp add: pipe_inv_def newPipe_def)

text \<open>The four outcomes of a turn of \<open>Read\<close>.\<close>

lemma read_broken:
  "p_breakErr p = Some e \<Longrightarrow> pipe_Read_pass bi d p = Inr (Some ([], Some e, None), p)"
  by (simp add: pipe_Read_pass_def)

lemma read_data:
  assumes "pinv p" "p_breakErr p = None" "pend p \<noteq> []"
  shows "\<exists>p'. pipe_Read_pass bi d p = Inr (Some (take d (pend p), None, None), p') \<and> pinv p' \<and>
    p_breakErr p' = None \<and> p_err p' = p_err p \<and> pend p' = drop d (pend p)"
proof -
  obtain b where b: "p_b p = Some b" "invar b" "contents b \<noteq> []"
    using assms by (auto simp: pipe_inv_def pending_def split: option.splits)
  obtain b' where "buf_Read bi d b = Inr ((take d (contents b), None), b')" "invar b'"
      "contents b' = drop d (contents b)"
    using Read_takes [OF b(2,3)] by blast
  then show ?thesis
    using assms b by (auto simp: pipe_Read_pass_def Len_contents pending_def pipe_inv_def)
qed

lemma read_closed:
  assumes "pinv p" "p_breakErr p = None" "pend p = []" "p_err p = Some e"
  shows "pipe_Read_pass bi d p =
      Inr (Some ([], Some e, p_readFn p), p\<lparr>p_readFn := None, p_b := None\<rparr>)"
  using assms by (auto simp: pipe_Read_pass_def pending_def pipe_inv_def Len_contents split: option.splits)

lemma read_waits:
  assumes "pinv p" "p_breakErr p = None" "pend p = []" "p_err p = None"
  shows "pipe_Read_pass bi d p = Inr (None, p)"
  using assms by (auto simp: pipe_Read_pass_def pending_def pipe_inv_def Len_contents split: option.splits)

lemma pinv_drained:
  "pinv p \<Longrightarrow> p_err p = Some e \<Longrightarrow> pinv (p\<lparr>p_readFn := None, p_b := None\<rparr>)"
  by (auto simp: pipe_inv_def split: option.splits)

lemma write_step:
  assumes "pinv p"
  shows "\<exists>p'. pipe_call_step bi (CallWrite d) p = Inr p' \<and> pinv p' \<and>
    p_breakErr p' = p_breakErr p \<and> p_err p' = p_err p \<and>
    pend p' = pend p @ (if p_err p = None \<and> p_breakErr p = None then d else [])"
proof (cases "p_err p = None \<and> p_breakErr p = None")
  case True
  then obtain b where b: "p_b p = Some b" "invar b"
    using assms by (auto simp: pipe_inv_def split: option.splits)
  obtain b' where "buf_Write bi d b = Inr ((length d, None), b')" "invar b'" "contents b' = contents b @ d"
    using Write_appends [OF b(2)] by blast
  then show ?thesis
    using assms b True by (auto simp: pipe_Write_def pending_def pipe_inv_def)
next
  case False
  then show ?thesis using assms by (auto simp: pipe_Write_def)
qed

lemma close_step:
  assumes "pinv p" "\<not> is_break c" "\<And>d. c \<noteq> CallWrite d"
  shows "\<exists>p'. pipe_call_step bi c p = Inr p' \<and> pinv p' \<and> p_breakErr p' = p_breakErr p \<and>
    p_err p' = (if p_err p = None then first_close [c] else p_err p) \<and> pend p' = pend p"
proof -
  obtain ch where "p_donec p = ch" by blast
  with assms show ?thesis
    by (cases c; cases ch rule: option.exhaust; cases "the ch")
      (auto simp: is_break_def close_defs pipe_Done_def pipe_inv_def pending_def Let_def
        split: option.splits)
qed

lemma break_step:
  assumes "pinv p"
  shows "\<exists>p'. pipe_call_step bi (CallBreak e) p = Inr p' \<and> pinv p' \<and> p_err p' = p_err p \<and>
    p_breakErr p' = (if p_breakErr p = None then Some e else p_breakErr p) \<and> pend p' = []"
proof -
  obtain ch where "p_donec p = ch" by blast
  with assms show ?thesis
    by (cases ch rule: option.exhaust; cases "the ch")
      (auto simp: close_defs pipe_inv_def pending_def Let_def split: option.splits)
qed

lemma calls_ok:
  assumes "pinv p"
  shows "\<exists>p'. pipe_calls bi cs p = Inr p' \<and> pinv p' \<and> (p_err p \<noteq> None \<longrightarrow> p_err p' = p_err p) \<and>
    (p_breakErr p \<noteq> None \<longrightarrow> p_breakErr p' = p_breakErr p)"
  using assms
proof (induction cs arbitrary: p)
  case (Cons c cs)
  have "\<exists>p1. pipe_call_step bi c p = Inr p1 \<and> pinv p1 \<and> (p_err p \<noteq> None \<longrightarrow> p_err p1 = p_err p) \<and>
      (p_breakErr p \<noteq> None \<longrightarrow> p_breakErr p1 = p_breakErr p)"
    using write_step [OF Cons.prems] break_step [OF Cons.prems] close_step [OF Cons.prems, of c]
    by (cases c) (fastforce simp: is_break_def)+
  then obtain p1 where "pipe_call_step bi c p = Inr p1" "pinv p1"
      "p_err p \<noteq> None \<longrightarrow> p_err p1 = p_err p" "p_breakErr p \<noteq> None \<longrightarrow> p_breakErr p1 = p_breakErr p"
    by blast
  then show ?case using Cons.IH [of p1] by (auto simp del: not_None_eq)
qed simp

lemma calls_effect:
  assumes "pinv p" "p_breakErr p = None" "\<forall>c \<in> set cs. \<not> is_break c"
  shows "\<exists>p'. pipe_calls bi cs p = Inr p' \<and> pinv p' \<and> p_breakErr p' = None \<and>
    pend p' = pend p @ (if p_err p = None then accepted cs else []) \<and>
    p_err p' = (if p_err p = None then first_close cs else p_err p)"
  using assms
proof (induction cs arbitrary: p)
  case (Cons c cs)
  show ?case
  proof (cases "\<exists>d. c = CallWrite d")
    case True
    then obtain d where c: "c = CallWrite d" by blast
    obtain p1 where p1: "pipe_call_step bi (CallWrite d) p = Inr p1" "pinv p1" "p_breakErr p1 = None"
        "p_err p1 = p_err p" "pend p1 = pend p @ (if p_err p = None then d else [])"
      using write_step [OF Cons.prems(1), of d] Cons.prems(2) by auto
    show ?thesis
      using Cons.IH [OF p1(2,3)] Cons.prems(3) p1 c
      by (auto simp del: pipe_call_step.simps)
  next
    case False
    then obtain p1 where "pipe_call_step bi c p = Inr p1" "pinv p1" "p_breakErr p1 = None"
        "p_err p1 = (if p_err p = None then first_close [c] else p_err p)" "pend p1 = pend p"
      using close_step [OF Cons.prems(1), of c] Cons.prems(2,3) by auto
    then show ?thesis
      using Cons.IH [of p1] Cons.prems(3) False
      by (cases c) (auto simp: is_break_def simp del: pipe_call_step.simps)
  qed
qed simp

lemma drain_all:
  assumes "pinv p" "p_breakErr p = None" "\<forall>d \<in> set ds. 0 < d" "length (pend p) < length ds"
  shows "\<exists>p'. pipe_drain bi ds p = Inr ((pend p, p_err p), p')"
  using assms
proof (induction ds arbitrary: p)
  case (Cons d ds)
  show ?case
  proof (cases "pend p = []")
    case True
    then show ?thesis
      using read_waits [OF Cons.prems(1,2)] read_closed [OF Cons.prems(1,2)]
      by (cases "p_err p") auto
  next
    case False
    then obtain p1 where p1: "pipe_Read_pass bi d p = Inr (Some (take d (pend p), None, None), p1)"
        "pinv p1" "p_breakErr p1 = None" "p_err p1 = p_err p" "pend p1 = drop d (pend p)"
      using read_data [OF Cons.prems(1,2)] by blast
    have "length (pend p1) < length ds"
      using p1(5) Cons.prems(3,4) False by (cases "pend p") (auto simp: less_Suc_eq_le)
    with p1 show ?thesis
      using Cons.IH [of p1] Cons.prems(3) by auto
  qed
qed simp

text \<open>A reader has something to return once the pipe holds bytes or an error, and calls never take
  that away.\<close>

definition ready :: "('b, 'f) pipe \<Rightarrow> bool" where
  "ready p \<longleftrightarrow> p_breakErr p \<noteq> None \<or> pend p \<noteq> [] \<or> p_err p \<noteq> None"

lemma pass_ready:
  assumes "pinv p"
  shows "\<exists>r p'. pipe_Read_pass bi d p = Inr (r, p') \<and> (r = None \<longleftrightarrow> \<not> ready p) \<and> (r = None \<longrightarrow> p' = p)"
proof (cases "p_breakErr p")
  case (Some e)
  then show ?thesis by (simp add: read_broken ready_def)
next
  case None
  show ?thesis
  proof (cases "pend p = []")
    case True
    with None show ?thesis
      using read_closed [OF assms None True] read_waits [OF assms None True]
      by (cases "p_err p") (auto simp: ready_def)
  next
    case False
    with None show ?thesis
      using read_data [OF assms None False, of d] by (auto simp: ready_def)
  qed
qed

lemma call_ready:
  assumes "pinv p"
  shows "\<exists>p'. pipe_call_step bi c p = Inr p' \<and> pinv p' \<and> (ready p' \<longleftrightarrow> ready p \<or> wakes c)"
proof (cases "is_break c")
  case True
  then show ?thesis
    using break_step [OF assms] by (cases c) (force simp: is_break_def ready_def)+
next
  case False
  show ?thesis
  proof (cases "\<exists>d. c = CallWrite d")
    case True
    then obtain d where c: "c = CallWrite d" by blast
    obtain p' where "pipe_call_step bi (CallWrite d) p = Inr p'" "pinv p'"
        "p_breakErr p' = p_breakErr p" "p_err p' = p_err p"
        "pend p' = pend p @ (if p_err p = None \<and> p_breakErr p = None then d else [])"
      using write_step [OF assms] by blast
    then show ?thesis
      unfolding c by (intro exI [of _ p']) (auto simp: ready_def simp del: pipe_call_step.simps)
  next
    case neq: False
    then obtain p' where "pipe_call_step bi c p = Inr p'" "pinv p'" "p_breakErr p' = p_breakErr p"
        "p_err p' = (if p_err p = None then first_close [c] else p_err p)" "pend p' = pend p"
      using close_step [OF assms False] by blast
    then show ?thesis
      using neq False by (cases c) (auto simp: ready_def is_break_def simp del: pipe_call_step.simps)
  qed
qed

lemma calls_ready:
  assumes "pinv p"
  shows "\<exists>p'. pipe_calls bi cs p = Inr p' \<and> pinv p' \<and> (ready p' \<longleftrightarrow> ready p \<or> (\<exists>c \<in> set cs. wakes c))"
  using assms
proof (induction cs arbitrary: p)
  case (Cons c cs)
  obtain p1 where "pipe_call_step bi c p = Inr p1" "pinv p1" "ready p1 \<longleftrightarrow> ready p \<or> wakes c"
    using call_ready [OF Cons.prems] by blast
  then show ?case using Cons.IH [of p1] by auto
qed simp

lemma read_returns_iff:
  assumes "pinv p"
  shows "\<exists>r p'. pipe_Read bi d batches p = Inr (r, p') \<and>
    (r = None \<longleftrightarrow> \<not> (ready p \<or> (\<exists>cs \<in> set batches. \<exists>c \<in> set cs. wakes c)))"
  using assms
proof (induction batches arbitrary: p)
  case Nil
  then show ?case using pass_ready [of p d] by auto
next
  case (Cons cs batches)
  obtain r p1 where r: "pipe_Read_pass bi d p = Inr (r, p1)" "r = None \<longleftrightarrow> \<not> ready p" "r = None \<longrightarrow> p1 = p"
    using pass_ready [OF Cons.prems] by blast
  show ?case
  proof (cases r)
    case None
    obtain p2 where "pipe_calls bi cs p = Inr p2" "pinv p2" "ready p2 \<longleftrightarrow> ready p \<or> (\<exists>c \<in> set cs. wakes c)"
      using calls_ready [OF Cons.prems] by blast
    then show ?thesis using r None Cons.IH [of p2] by auto
  qed (use r in auto)
qed

lemma calls_broken:
  assumes "pinv p" "\<forall>c \<in> set cs1. \<not> is_break c" "p_breakErr p = None"
  shows "\<exists>p'. pipe_calls bi (cs1 @ CallBreak e # cs2) p = Inr p' \<and> pinv p' \<and> p_breakErr p' = Some e"
proof -
  have split: "pipe_calls bi (xs @ ys) q = bindE (pipe_calls bi xs q) (pipe_calls bi ys)" for xs ys q
    by (induction xs arbitrary: q) (simp_all add: bindE_def split: sum.splits)
  obtain p1 where p1: "pipe_calls bi cs1 p = Inr p1" "pinv p1" "p_breakErr p1 = None"
    using calls_effect [OF assms(1,3,2)] by blast
  obtain p2 where p2: "pipe_call_step bi (CallBreak e) p1 = Inr p2" "pinv p2" "p_breakErr p2 = Some e"
    using break_step [OF p1(2), of e] p1(3) by auto
  show ?thesis
    using calls_ok [OF p2(2), of cs2] p1 p2 by (auto simp: split simp del: pipe_call_step.simps)
qed

end

subsection \<open>Properties\<close>

lemma db_inv_emptyBuffer: "db_inv emptyBuffer"
  by (simp add: db_inv_def emptyBuffer_def unread_def)

lemma pending_emptyPipe [simp]:
  "pending unread (newPipe emptyBuffer) = []" "p_err (newPipe b) = None" "p_breakErr (newPipe b) = None"
  by (simp_all add: pending_def newPipe_def emptyBuffer_def unread_def)

text \<open>C6: what a reader sees. After any calls but \<open>BreakWithError\<close> on a new pipe over a
  \<open>dataBuffer\<close>, a reader that keeps reading with non-empty slices gets exactly the bytes written
  before the pipe was closed, in order, and then the error of the first \<open>CloseWithError\<close> (or waits,
  when there was none): closing loses no data, a later close does not replace the error, and
  writes after it are dropped.\<close>

theorem pipe_reader_sees_stream:
  assumes "chunk_pool get" and "\<forall>c \<in> set cs. \<not> is_break c"
    and "\<forall>d \<in> set ds. 0 < d" and "length (accepted cs) < length ds"
  shows "\<exists>p p'. pipe_calls (dataBuffer_ops get) cs (newPipe emptyBuffer) = Inr p \<and>
    pipe_drain (dataBuffer_ops get) ds p = Inr ((accepted cs, first_close cs), p')"
proof -
  note q = chunk_pool.dataBuffer_queue [OF assms(1)]
  show ?thesis
    using byte_queue.calls_effect [OF q byte_queue.pinv_newPipe [OF q db_inv_emptyBuffer] _ assms(2)]
      byte_queue.drain_all [OF q _ _ assms(3)] assms(4) by fastforce
qed

theorem pipe_reader_sees_stream_witness:
  "\<exists>p p'. pipe_calls (dataBuffer_ops newChunk)
      [CallWrite [1, 2, 3], CallClose IoEOF, CallWrite [4], CallClose GoAwayFlowError] (newPipe emptyBuffer) = Inr p \<and>
    pipe_drain (dataBuffer_ops newChunk) [2, 2, 2, 2] p = Inr (([1, 2, 3], Some IoEOF), p')"
  using pipe_reader_sees_stream [OF fresh_pool.chunk_pool_axioms,
      of "[CallWrite [1, 2, 3], CallClose IoEOF, CallWrite [4], CallClose GoAwayFlowError]" "[2, 2, 2, 2]"]
  by (simp add: is_break_def del: pipe_calls.simps pipe_drain.simps)



text \<open>\<open>BreakWithError\<close> takes effect at once: whatever was written before it and whatever is called
  after it, every read returns its error and no data, the buffered bytes are gone, and no call panics.\<close>

theorem pipe_break_discards:
  assumes "chunk_pool get" and "\<forall>c \<in> set cs1. \<not> is_break c"
  shows "\<exists>p. pipe_calls (dataBuffer_ops get) (cs1 @ CallBreak e # cs2) (newPipe emptyBuffer) = Inr p \<and>
    pipe_Read_pass (dataBuffer_ops get) d p = Inr (Some ([], Some e, None), p) \<and>
    pipe_Len (dataBuffer_ops get) p = 0 \<and> pipe_Err p = Some e"
proof -
  note q = chunk_pool.dataBuffer_queue [OF assms(1)]
  obtain p where "pipe_calls (dataBuffer_ops get) (cs1 @ CallBreak e # cs2) (newPipe emptyBuffer) = Inr p"
      "pipe_inv db_inv p" "p_breakErr p = Some e"
    using byte_queue.calls_broken [OF q byte_queue.pinv_newPipe [OF q db_inv_emptyBuffer] assms(2)] by auto
  then show ?thesis
    by (auto simp: byte_queue.read_broken [OF q] pipe_inv_def pipe_Len_def pipe_Err_def)
qed

theorem pipe_break_discards_witness:
  "\<exists>p. pipe_calls (dataBuffer_ops newChunk) ([CallWrite [7], CallClose IoEOF] @ CallBreak GoAwayFlowError # [CallWrite [8]])
      (newPipe emptyBuffer) = Inr p \<and>
    pipe_Read_pass (dataBuffer_ops newChunk) 3 p = Inr (Some ([], Some GoAwayFlowError, None), p)"
  using pipe_break_discards [OF fresh_pool.chunk_pool_axioms, of "[CallWrite [7], CallClose IoEOF]"
      GoAwayFlowError "[CallWrite [8]]" 3]
  by (auto simp: is_break_def simp del: pipe_calls.simps append.simps)

text \<open>The \<open>Done\<close> channel is closed at most once and tells the truth: after any calls, in any
  order, on a new pipe, nothing has panicked (in particular no closed channel was closed again), and
  a channel that was handed out is closed exactly when the pipe has an error.\<close>

theorem pipe_Done_iff_Err:
  assumes "chunk_pool get"
  shows "\<exists>p. pipe_calls (dataBuffer_ops get) cs (newPipe emptyBuffer) = Inr p \<and>
    (p_donec p = None \<or> (p_donec p = Some ChanClosed) = (pipe_Err p \<noteq> None))"
proof -
  note q = chunk_pool.dataBuffer_queue [OF assms]
  obtain p where "pipe_calls (dataBuffer_ops get) cs (newPipe emptyBuffer) = Inr p" "pipe_inv db_inv p"
    using byte_queue.calls_ok [OF q byte_queue.pinv_newPipe [OF q db_inv_emptyBuffer]] by blast
  moreover from this have "p_donec p = None \<or> (p_donec p = Some ChanClosed) = (pipe_Err p \<noteq> None)"
    by (cases "p_donec p" rule: option.exhaust; cases "the (p_donec p)")
      (auto simp: pipe_inv_def pipe_Err_def)
  ultimately show ?thesis by blast
qed

theorem pipe_Done_iff_Err_witness:
  "\<exists>p. pipe_calls (dataBuffer_ops newChunk) [CallDone, CallBreak IoEOF, CallClose IoEOF, CallDone] (newPipe emptyBuffer) = Inr p \<and>
    (p_donec p = None \<or> (p_donec p = Some ChanClosed) = (pipe_Err p \<noteq> None))"
  using pipe_Done_iff_Err [OF fresh_pool.chunk_pool_axioms] by blast

text \<open>\<open>Err\<close> is the error of \<open>BreakWithError\<close> whenever there is one, although \<open>CloseWithError\<close> came first.\<close>

theorem pipe_Err_not_first:
  assumes "chunk_pool get"
  shows "\<exists>p. pipe_calls (dataBuffer_ops get) [CallClose e1, CallBreak e2] (newPipe emptyBuffer) = Inr p \<and> pipe_Err p = Some e2"
  using pipe_break_discards [OF assms, of "[CallClose e1]" e2 "[]" 0]
  by (simp add: is_break_def del: pipe_calls.simps) blast

end
