(* ===== verification/Flow.thy ===== *)
theory Flow
  imports Go_Prelude
begin

text \<open>
  Flow-control windows (\<open>flow.go\<close>). A \<open>flow\<close> holds a signed 32-bit window and a pointer to the
  connection's flow, which all streams of a session share. The model keeps the windows in a
  store indexed by \<open>flow_ptr\<close>, so that the sharing is visible: a \<open>take\<close> through a stream's flow
  also changes the connection's entry.
\<close>

datatype flow_ptr = ConnFlow | StreamFlow u32

record flow =
  flow_n :: i32
  flow_conn :: "flow_ptr option"

type_synonym flow_store = "flow_ptr \<Rightarrow> flow"

definition setConnFlow :: "flow_ptr \<Rightarrow> flow_ptr option \<Rightarrow> flow_store \<Rightarrow> flow_store" where
  "setConnFlow f cf s = s(f := (s f)\<lparr>flow_conn := cf\<rparr>)"

definition available :: "flow_store \<Rightarrow> flow_ptr \<Rightarrow> i32" where
  "available s f =
     (let n = flow_n (s f)
      in case flow_conn (s f) of
           None \<Rightarrow> n
         | Some c \<Rightarrow> if flow_n (s c) <s n then flow_n (s c) else n)"

definition sub_n :: "flow_ptr \<Rightarrow> i32 \<Rightarrow> flow_store \<Rightarrow> flow_store" where
  "sub_n f n s = s(f := (s f)\<lparr>flow_n := flow_n (s f) - n\<rparr>)"

definition flow_take :: "flow_ptr \<Rightarrow> i32 \<Rightarrow> flow_store \<Rightarrow> go_panic + flow_store" where
  "flow_take f n s =
     (if available s f <s n then Inl (Panic ''internal error: took too much'')
      else let s1 = sub_n f n s
           in case flow_conn (s1 f) of
                None \<Rightarrow> Inr s1
              | Some c \<Rightarrow> Inr (sub_n c n s1))"

definition flow_add :: "flow_ptr \<Rightarrow> i32 \<Rightarrow> flow_store \<Rightarrow> bool \<times> flow_store" where
  "flow_add f n s =
     (let remain = max_int32 - flow_n (s f)
      in if remain <s n then (False, s)
         else (True, s(f := (s f)\<lparr>flow_n := flow_n (s f) + n\<rparr>)))"

text \<open>A run of \<open>take\<close>s, as the scheduler makes them when it writes a queue of DATA frames.\<close>

fun spend_all :: "(i32 \<Rightarrow> 's \<Rightarrow> go_panic + 's) \<Rightarrow> i32 list \<Rightarrow> 's \<Rightarrow> go_panic + 's" where
  "spend_all spend [] s = Inr s"
| "spend_all spend (n # ns) s = bindE (spend n s) (spend_all spend ns)"

text \<open>The links of a session: a stream's flow points to the connection's, which points nowhere.\<close>

definition linked :: "flow_store \<Rightarrow> u32 \<Rightarrow> bool" where
  "linked s i \<longleftrightarrow> flow_conn (s (StreamFlow i)) = Some ConnFlow \<and> flow_conn (s ConnFlow) = None"

subsection \<open>One operation\<close>

lemma available_stream:
  "linked s i \<Longrightarrow> sint (available s (StreamFlow i))
    = min (sint (flow_n (s ConnFlow))) (sint (flow_n (s (StreamFlow i))))"
  by (simp add: available_def linked_def go_simps Let_def)

lemma available_conn:
  "flow_conn (s ConnFlow) = None \<Longrightarrow> available s ConnFlow = flow_n (s ConnFlow)"
  by (simp add: available_def)

lemma flow_take_panics_iff:
  "(\<exists>m. flow_take f n s = Inl m) \<longleftrightarrow> available s f <s n"
  by (auto simp: flow_take_def Let_def split: option.splits)

lemma flow_take_stream:
  assumes "linked s i" "sint n \<le> sint (available s (StreamFlow i))"
  shows "flow_take (StreamFlow i) n s = Inr (sub_n ConnFlow n (sub_n (StreamFlow i) n s))"
  using assms by (simp add: flow_take_def sub_n_def linked_def go_simps Let_def)

lemma linked_sub_n [simp]: "linked (sub_n f n s) i \<longleftrightarrow> linked s i"
  by (auto simp: linked_def sub_n_def)

lemma sint_flow_sub:
  fixes a n :: i32
  assumes "0 \<le> sint n" "sint n \<le> sint a"
  shows "sint (a - n) = sint a - sint n"
  using assms sint32_bounds [of a] sint32_bounds [of n] by (intro sint32_minus) linarith+

lemma flow_n_take_stream:
  assumes "linked s i" "0 \<le> sint n" "sint n \<le> sint (available s (StreamFlow i))"
    and "flow_take (StreamFlow i) n s = Inr s'"
  shows "sint (flow_n (s' (StreamFlow i))) = sint (flow_n (s (StreamFlow i))) - sint n"
    and "sint (flow_n (s' ConnFlow)) = sint (flow_n (s ConnFlow)) - sint n"
    and "\<And>p. p \<noteq> StreamFlow i \<Longrightarrow> p \<noteq> ConnFlow \<Longrightarrow> s' p = s p"
    and "linked s' i"
proof -
  have s': "s' = sub_n ConnFlow n (sub_n (StreamFlow i) n s)"
    using assms by (simp add: flow_take_stream)
  have le: "sint n \<le> sint (flow_n (s ConnFlow))" "sint n \<le> sint (flow_n (s (StreamFlow i)))"
    using assms(1,3) by (simp_all add: available_stream)
  show "sint (flow_n (s' (StreamFlow i))) = sint (flow_n (s (StreamFlow i))) - sint n"
    using assms(2) le by (simp add: s' sub_n_def sint_flow_sub)
  show "sint (flow_n (s' ConnFlow)) = sint (flow_n (s ConnFlow)) - sint n"
    using assms(2) le by (simp add: s' sub_n_def sint_flow_sub)
  show "\<And>p. p \<noteq> StreamFlow i \<Longrightarrow> p \<noteq> ConnFlow \<Longrightarrow> s' p = s p"
    by (simp add: s' sub_n_def)
  show "linked s' i"
    using assms(1) by (simp add: s')
qed

lemma flow_add_nonneg:
  assumes "0 \<le> sint (flow_n (s f))"
  shows "flow_add f n s =
    (if sint (flow_n (s f)) + sint n \<le> 2147483647
     then (True, s(f := (s f)\<lparr>flow_n := flow_n (s f) + n\<rparr>)) else (False, s))"
proof -
  have "sint (max_int32 - flow_n (s f)) = 2147483647 - sint (flow_n (s f))"
    using assms sint32_bounds [of "flow_n (s f)"] by (subst sint32_minus) simp_all
  then show ?thesis by (auto simp: flow_add_def go_simps Let_def)
qed

lemma sint_flow_add:
  fixes a n :: i32
  assumes "0 \<le> sint a" "sint a + sint n \<le> 2147483647"
  shows "sint (a + n) = sint a + sint n"
  using assms sint32_bounds [of n] by (intro sint32_plus) linarith+

subsection \<open>The contract of a window that is spent from\<close>

text \<open>What a writer relies on: the credit it can see is the credit it can spend, and asking for
  more is refused.\<close>

locale credit_window =
  fixes credit :: "'s \<Rightarrow> int"
    and spend :: "i32 \<Rightarrow> 's \<Rightarrow> go_panic + 's"
    and inv :: "'s \<Rightarrow> bool"
  assumes spend_ok: "inv s \<Longrightarrow> 0 \<le> sint n \<Longrightarrow> sint n \<le> credit s \<Longrightarrow>
      \<exists>s'. spend n s = Inr s' \<and> inv s' \<and> credit s' = credit s - sint n"
    and spend_refused: "inv s \<Longrightarrow> credit s < sint n \<Longrightarrow> \<exists>m. spend n s = Inl m"
begin

lemma spend_all_enough:
  assumes "inv s" "\<forall>n \<in> set ns. 0 \<le> sint n" "sum_list (map sint ns) \<le> credit s"
  shows "\<exists>s'. spend_all spend ns s = Inr s'"
  using assms
proof (induction ns arbitrary: s)
  case (Cons n ns)
  have "0 \<le> sum_list (map sint ns)"
    using Cons.prems(2) by (intro sum_list_nonneg) auto
  then obtain s1 where "spend n s = Inr s1" "inv s1" "credit s1 = credit s - sint n"
    using Cons.prems spend_ok [of s n] by auto
  then show ?case
    using Cons.IH [of s1] Cons.prems by auto
qed simp

lemma spend_all_exact:
  assumes "inv s" "\<forall>n \<in> set ns. 0 \<le> sint n" "spend_all spend ns s = Inr s'"
  shows "inv s' \<and> credit s' = credit s - sum_list (map sint ns) \<and> (ns \<noteq> [] \<longrightarrow> 0 \<le> credit s')"
  using assms
proof (induction ns arbitrary: s)
  case (Cons n ns)
  then obtain s1 where s1: "spend n s = Inr s1" and rest: "spend_all spend ns s1 = Inr s'"
    by auto
  have le: "sint n \<le> credit s"
    using spend_refused [of s n] Cons.prems(1) s1 by (cases "credit s < sint n") auto
  then have "inv s1" "credit s1 = credit s - sint n"
    using Cons.prems(1,2) s1 spend_ok [of s n] by auto
  then show ?case
    using Cons.IH [of s1] Cons.prems(2) rest le by (cases ns) auto
qed simp

end

interpretation stream_window: credit_window
  "\<lambda>s. sint (available s (StreamFlow i))" "flow_take (StreamFlow i)" "\<lambda>s. linked s i" for i
proof
  fix s and n :: i32
  assume l: "linked s i" and n: "0 \<le> sint n" "sint n \<le> sint (available s (StreamFlow i))"
  show "\<exists>s'. flow_take (StreamFlow i) n s = Inr s' \<and> linked s' i \<and>
      sint (available s' (StreamFlow i)) = sint (available s (StreamFlow i)) - sint n"
    using flow_n_take_stream [OF l n flow_take_stream [OF l n(2)]] flow_take_stream [OF l n(2)] l
    by (simp add: available_stream)
next
  fix s and n :: i32
  assume "linked s i" "sint (available s (StreamFlow i)) < sint n"
  then show "\<exists>m. flow_take (StreamFlow i) n s = Inl m"
    by (simp add: flow_take_panics_iff go_simps)
qed

subsection \<open>Properties\<close>

text \<open>\<open>add\<close> on a window that is not negative does what its comment says: it refuses exactly the
  increments that would take the window beyond 2^31-1, leaves the store alone then, and otherwise
  the window becomes the exact sum, with no wrap-around, and no other window changes.\<close>

theorem flow_add_exact:
  assumes "0 \<le> sint (flow_n (s f))"
  shows "case flow_add f n s of
      (True, s') \<Rightarrow> sint (flow_n (s f)) + sint n \<le> 2 ^ 31 - 1 \<and>
        sint (flow_n (s' f)) = sint (flow_n (s f)) + sint n \<and>
        flow_conn (s' f) = flow_conn (s f) \<and> (\<forall>g. g \<noteq> f \<longrightarrow> s' g = s g)
    | (False, s') \<Rightarrow> sint (flow_n (s f)) + sint n > 2 ^ 31 - 1 \<and> s' = s"
  using assms by (auto simp: flow_add_nonneg sint_flow_add split: if_splits)

theorem flow_add_exact_witness:
  "case flow_add ConnFlow 100 (\<lambda>_. \<lparr>flow_n = 65535, flow_conn = None\<rparr>) of
      (True, s') \<Rightarrow> sint (flow_n (s' ConnFlow)) = 65635
    | (False, s') \<Rightarrow> False"
  using flow_add_exact [of "\<lambda>_. \<lparr>flow_n = 65535, flow_conn = None\<rparr>" ConnFlow 100]
  by (auto split: bool.splits prod.splits)

text \<open>C35: a window that has gone negative refuses every legal increment. \<open>remain\<close> is computed in
  \<open>int32\<close> and wraps around to a negative number as soon as the window is below zero, so \<open>add\<close>
  reports an overflow although the sum is far below 2^31-1: a peer that lowers
  SETTINGS_INITIAL_WINDOW_SIZE below what is in flight and then sends WINDOW_UPDATE, as RFC 7540
  section 6.9.2 allows, gets a flow-control error.\<close>

theorem flow_add_negative_window:
  assumes "sint (flow_n (s f)) < 0" and "0 \<le> sint n"
  shows "flow_add f n s = (False, s)"
proof -
  have "sint (max_int32 - flow_n (s f)) = 2147483647 - sint (flow_n (s f)) - 4294967296"
    using assms(1) by (subst sint32_minus_wrap) simp_all
  then have "sint (max_int32 - flow_n (s f)) < sint n"
    using assms sint32_bounds [of "flow_n (s f)"] by simp
  then show ?thesis by (simp add: flow_add_def go_simps Let_def)
qed

theorem flow_add_negative_window_witness:
  "flow_add (StreamFlow 1) 20 (\<lambda>_. \<lparr>flow_n = - 10, flow_conn = None\<rparr>)
     = (False, \<lambda>_. \<lparr>flow_n = - 10, flow_conn = None\<rparr>)
   \<and> sint (- 10 :: i32) + sint (20 :: i32) = 10"
  using flow_add_negative_window [of "\<lambda>_. \<lparr>flow_n = - 10, flow_conn = None\<rparr>" "StreamFlow 1" 20]
  by simp



end
