(* ===== verification/Write_Frames.thy ===== *)
theory Write_Frames
  imports H2_Types "HOL-Library.Char_ord" "HOL-Library.List_Lexorder" "HOL-Library.Multiset"
begin

text \<open>
  The frame writers (\<open>write.go\<close>, and \<open>httpCodeString\<close> and \<open>sorter.Keys\<close> of \<open>utils.go\<close>). Each
  type that implements \<open>writeFramer\<close> is a constructor; \<open>writeFrame\<close> and \<open>staysWithinBuffer\<close> are
  its two methods. The \<open>writeContext\<close> a writer runs in is golang.org/x/net's framer and HPACK
  encoder over a buffered connection, which is not part of this package: it is a record of
  operations on a state of its own type \<open>'c\<close>, and the predicate \<open>framer_sizes\<close> states what their
  documentation and RFC 7540 section 4.1 and 6 say of the number of bytes they buffer.

  An \<open>http.Header\<close> is an association list with distinct keys; the order of the list is the
  order in which a Go map iteration happens to visit it.
\<close>

subsection \<open>The writers\<close>

type_synonym header = "(string \<times> string list) list"
type_synonym setting = "16 word \<times> u32"

record writeResHeaders =
  rh_streamID :: u32
  rh_httpResCode :: int
  rh_h :: header
  rh_trailers :: "string list option"
  rh_endStream :: bool
  rh_date :: string
  rh_contentType :: string
  rh_contentLength :: string

text \<open>The \<open>url\<close> of a push promise by the three strings the code takes from it, and the closure
  \<open>allocatePromisedID\<close> by what it returns.\<close>

record writePushPromise =
  pp_streamID :: u32
  pp_method :: string
  pp_Scheme :: string
  pp_Host :: string
  pp_RequestURI :: string
  pp_h :: header
  pp_allocatePromisedID :: "go_error + u32"
  pp_promisedID :: u32

datatype writeFramer =
    FlushFrameWriter
  | WriteSettings "setting list"
  | WriteGoAway u32 ErrCode
  | WriteData u32 "byte list" bool
  | HandlerPanicRST u32
  | WriteStreamError u32 ErrCode
  | WritePing "byte list"
  | WritePingAck "byte list"
  | WriteSettingsAck
  | WriteResHeaders writeResHeaders
  | WritePushPromise writePushPromise
  | Write100ContinueHeadersFrame u32
  | WriteWindowUpdate u32 u32

text \<open>\<open>None\<close> is the nil \<open>writeFramer\<close>.\<close>

definition writeEndsStream :: "writeFramer option \<Rightarrow> go_panic + bool" where
  "writeEndsStream w =
     (case w of
        Some (WriteData _ _ endStream) \<Rightarrow> Inr endStream
      | Some (WriteResHeaders v) \<Rightarrow> Inr (rh_endStream v)
      | None \<Rightarrow> Inl (Panic ''writeEndsStream called on nil writeFramer'')
      | Some _ \<Rightarrow> Inr False)"

definition frameHeaderLen :: int where
  "frameHeaderLen = 9"

text \<open>\<open>[8]byte\<close> has length 8 whatever it holds.\<close>

fun staysWithinBuffer :: "writeFramer \<Rightarrow> int \<Rightarrow> bool" where
  "staysWithinBuffer FlushFrameWriter mx = False"
| "staysWithinBuffer (WriteSettings s) mx = (frameHeaderLen + 6 * int (length s) \<le> mx)"
| "staysWithinBuffer (WriteGoAway _ _) mx = False"
| "staysWithinBuffer (WriteData _ p _) mx = (frameHeaderLen + int (length p) \<le> mx)"
| "staysWithinBuffer (HandlerPanicRST _) mx = (frameHeaderLen + 4 \<le> mx)"
| "staysWithinBuffer (WriteStreamError _ _) mx = (frameHeaderLen + 4 \<le> mx)"
| "staysWithinBuffer (WritePing _) mx = (frameHeaderLen + 8 \<le> mx)"
| "staysWithinBuffer (WritePingAck _) mx = (frameHeaderLen + 8 \<le> mx)"
| "staysWithinBuffer WriteSettingsAck mx = (frameHeaderLen \<le> mx)"
| "staysWithinBuffer (WriteResHeaders _) mx = False"
| "staysWithinBuffer (WritePushPromise _) mx = False"
| "staysWithinBuffer (Write100ContinueHeadersFrame _) mx =
     (9 + 2 * int (length '':status'' + length ''100'') \<le> mx)"
| "staysWithinBuffer (WriteWindowUpdate _ _) mx = (frameHeaderLen + 4 \<le> mx)"

subsection \<open>The write context\<close>

text \<open>The calls a writer makes on the framer.\<close>

datatype framer_call =
    FrSettings "setting list"
  | FrSettingsAck
  | FrGoAway u32 ErrCode
  | FrData u32 bool "byte list"
  | FrRSTStream u32 ErrCode
  | FrPing bool "byte list"
  | FrHeaders u32 "byte list" bool bool
  | FrContinuation u32 bool "byte list"
  | FrPushPromise u32 u32 "byte list" bool
  | FrWindowUpdate u32 u32

record 'c writeContext =
  ctx_Framer :: "framer_call \<Rightarrow> 'c \<Rightarrow> go_error option \<times> 'c"
  ctx_Flush :: "'c \<Rightarrow> go_error option \<times> 'c"
  ctx_bufReset :: "'c \<Rightarrow> 'c"
  ctx_WriteField :: "string \<times> string \<Rightarrow> 'c \<Rightarrow> 'c"
  ctx_bufBytes :: "'c \<Rightarrow> byte list"

text \<open>\<open>splitHeaderBlock\<close> calls \<open>fn\<close> on successive fragments and stops at the first error.\<close>

function splitHeaderBlock ::
    "(byte list \<Rightarrow> bool \<Rightarrow> bool \<Rightarrow> 'c \<Rightarrow> go_error option \<times> 'c) \<Rightarrow> bool \<Rightarrow> byte list \<Rightarrow> 'c \<Rightarrow>
      go_error option \<times> 'c" where
  "splitHeaderBlock fn first headerBlock c =
     (if headerBlock = [] then (None, c)
      else let frag = (if 16384 < length headerBlock then take 16384 headerBlock else headerBlock);
               rest = drop (length frag) headerBlock
           in case fn frag first (rest = []) c of
                (Some err, c') \<Rightarrow> (Some err, c')
              | (None, c') \<Rightarrow> splitHeaderBlock fn False rest c')"
  by pat_completeness auto
termination
  by (relation "measure (\<lambda>(fn, first, hb, c). length hb)") auto

declare splitHeaderBlock.simps [simp del]

definition resHeaders_writeHeaderBlock ::
    "'c writeContext \<Rightarrow> writeResHeaders \<Rightarrow> byte list \<Rightarrow> bool \<Rightarrow> bool \<Rightarrow> 'c \<Rightarrow> go_error option \<times> 'c" where
  "resHeaders_writeHeaderBlock ctx w frag firstFrag lastFrag c =
     (if firstFrag then ctx_Framer ctx (FrHeaders (rh_streamID w) frag (rh_endStream w) lastFrag) c
      else ctx_Framer ctx (FrContinuation (rh_streamID w) lastFrag frag) c)"

definition pushPromise_writeHeaderBlock ::
    "'c writeContext \<Rightarrow> writePushPromise \<Rightarrow> byte list \<Rightarrow> bool \<Rightarrow> bool \<Rightarrow> 'c \<Rightarrow> go_error option \<times> 'c" where
  "pushPromise_writeHeaderBlock ctx w frag firstFrag lastFrag c =
     (if firstFrag then ctx_Framer ctx (FrPushPromise (pp_streamID w) (pp_promisedID w) frag lastFrag) c
      else ctx_Framer ctx (FrContinuation (pp_streamID w) lastFrag frag) c)"

subsection \<open>Headers\<close>

text \<open>\<open>strconv.Itoa\<close>.\<close>

fun digits :: "nat \<Rightarrow> string" where
  "digits n = (if n < 10 then [char_of (48 + n)] else digits (n div 10) @ [char_of (48 + n mod 10)])"

declare digits.simps [simp del]

definition Itoa :: "int \<Rightarrow> string" where
  "Itoa i = (if i < 0 then CHR ''-'' # digits (nat (- i)) else digits (nat i))"

text \<open>The table that \<open>init\<close> fills, for a given \<open>http.StatusText\<close>, and \<open>httpCodeString\<close>.\<close>

definition httpCodeStringCommon :: "(int \<Rightarrow> string) \<Rightarrow> int \<Rightarrow> string option" where
  "httpCodeStringCommon statusText i =
     (if 100 \<le> i \<and> i \<le> 999 \<and> statusText i \<noteq> [] then Some (Itoa i) else None)"

definition httpCodeString :: "(int \<Rightarrow> string) \<Rightarrow> int \<Rightarrow> string" where
  "httpCodeString statusText code =
     (case httpCodeStringCommon statusText code of Some s \<Rightarrow> s | None \<Rightarrow> Itoa code)"

text \<open>\<open>sorter.Keys\<close>: the keys in the order of the map iteration, then \<open>sort.Sort\<close>.\<close>

definition sorter_Keys :: "header \<Rightarrow> string list" where
  "sorter_Keys h = sort (map fst h)"

text \<open>The environment of \<open>encodeHeaders\<close>: \<open>strings.ToLower\<close>, \<open>http.StatusText\<close> and
  golang.org/x/net/lex/httplex.\<close>

record header_env =
  env_ToLower :: "string \<Rightarrow> string"
  env_StatusText :: "int \<Rightarrow> string"
  env_ValidHeaderFieldValue :: "string \<Rightarrow> bool"
  env_IsTokenRune :: "char \<Rightarrow> bool"

definition lowerHeader :: "header_env \<Rightarrow> string \<Rightarrow> string" where
  "lowerHeader env v = env_ToLower env v"

definition encKV :: "'c writeContext \<Rightarrow> string \<Rightarrow> string \<Rightarrow> 'c \<Rightarrow> 'c" where
  "encKV ctx k v = ctx_WriteField ctx (k, v)"

definition headerGet :: "header \<Rightarrow> string \<Rightarrow> string list" where
  "headerGet h k = (case map_of h k of None \<Rightarrow> [] | Some vv \<Rightarrow> vv)"

fun encodeValues :: "header_env \<Rightarrow> 'c writeContext \<Rightarrow> string \<Rightarrow> string list \<Rightarrow> 'c \<Rightarrow> 'c" where
  "encodeValues env ctx k [] c = c"
| "encodeValues env ctx k (v # vv) c =
     (if \<not> env_ValidHeaderFieldValue env v then encodeValues env ctx k vv c
      else if k = ''transfer-encoding'' \<and> v \<noteq> ''trailers'' then encodeValues env ctx k vv c
      else encodeValues env ctx k vv (encKV ctx k v c))"

fun encodeKeys :: "header_env \<Rightarrow> 'c writeContext \<Rightarrow> header \<Rightarrow> string list \<Rightarrow> 'c \<Rightarrow> 'c" where
  "encodeKeys env ctx h [] c = c"
| "encodeKeys env ctx h (k # ks) c =
     encodeKeys env ctx h ks (encodeValues env ctx (lowerHeader env k) (headerGet h k) c)"

definition encodeHeaders ::
    "header_env \<Rightarrow> 'c writeContext \<Rightarrow> header \<Rightarrow> string list option \<Rightarrow> 'c \<Rightarrow> 'c" where
  "encodeHeaders env ctx h keys =
     encodeKeys env ctx h (case keys of None \<Rightarrow> sorter_Keys h | Some ks \<Rightarrow> ks)"

definition validWireHeaderFieldName :: "header_env \<Rightarrow> string \<Rightarrow> bool" where
  "validWireHeaderFieldName env v \<longleftrightarrow>
     v \<noteq> [] \<and> (\<forall>r \<in> set v. env_IsTokenRune env r \<and> \<not> (CHR ''A'' \<le> r \<and> r \<le> CHR ''Z''))"

subsection \<open>writeFrame\<close>

definition resHeaders_writeFrame ::
    "header_env \<Rightarrow> 'c writeContext \<Rightarrow> writeResHeaders \<Rightarrow> 'c \<Rightarrow> go_panic + go_error option \<times> 'c" where
  "resHeaders_writeFrame env ctx w c =
     (let c = ctx_bufReset ctx c;
          c = (if rh_httpResCode w \<noteq> 0
               then encKV ctx '':status'' (httpCodeString (env_StatusText env) (rh_httpResCode w)) c else c);
          c = encodeHeaders env ctx (rh_h w) (rh_trailers w) c;
          c = (if rh_contentType w \<noteq> [] then encKV ctx ''content-type'' (rh_contentType w) c else c);
          c = (if rh_contentLength w \<noteq> [] then encKV ctx ''content-length'' (rh_contentLength w) c else c);
          c = (if rh_date w \<noteq> [] then encKV ctx ''date'' (rh_date w) c else c);
          headerBlock = ctx_bufBytes ctx c
      in if headerBlock = [] \<and> rh_trailers w = None then Inl (Panic ''unexpected empty hpack'')
         else Inr (splitHeaderBlock (resHeaders_writeHeaderBlock ctx w) True headerBlock c))"

definition pushPromise_writeFrame ::
    "header_env \<Rightarrow> 'c writeContext \<Rightarrow> writePushPromise \<Rightarrow> 'c \<Rightarrow> go_panic + go_error option \<times> 'c" where
  "pushPromise_writeFrame env ctx w c =
     (let c = ctx_bufReset ctx c;
          c = encKV ctx '':method'' (pp_method w) c;
          c = encKV ctx '':scheme'' (pp_Scheme w) c;
          c = encKV ctx '':authority'' (pp_Host w) c;
          c = encKV ctx '':path'' (pp_RequestURI w) c;
          c = encodeHeaders env ctx (pp_h w) None c;
          headerBlock = ctx_bufBytes ctx c
      in if headerBlock = [] then Inl (Panic ''unexpected empty hpack'')
         else Inr (splitHeaderBlock (pushPromise_writeHeaderBlock ctx w) True headerBlock c))"

definition continue_writeFrame :: "'c writeContext \<Rightarrow> u32 \<Rightarrow> 'c \<Rightarrow> go_error option \<times> 'c" where
  "continue_writeFrame ctx streamID c =
     (let c1 = encKV ctx '':status'' ''100'' (ctx_bufReset ctx c)
      in ctx_Framer ctx (FrHeaders streamID (ctx_bufBytes ctx c1) False True) c1)"

fun writeFrame ::
    "header_env \<Rightarrow> 'c writeContext \<Rightarrow> writeFramer \<Rightarrow> 'c \<Rightarrow> go_panic + go_error option \<times> 'c" where
  "writeFrame env ctx FlushFrameWriter c = Inr (ctx_Flush ctx c)"
| "writeFrame env ctx (WriteSettings s) c = Inr (ctx_Framer ctx (FrSettings s) c)"
| "writeFrame env ctx (WriteGoAway maxStreamID code) c =
     (let (err, c1) = ctx_Framer ctx (FrGoAway maxStreamID code) c;
          (_, c2) = ctx_Flush ctx c1
      in Inr (err, c2))"
| "writeFrame env ctx (WriteData streamID p endStream) c = Inr (ctx_Framer ctx (FrData streamID endStream p) c)"
| "writeFrame env ctx (HandlerPanicRST sid) c = Inr (ctx_Framer ctx (FrRSTStream sid ErrCodeInternal) c)"
| "writeFrame env ctx (WriteStreamError sid code) c = Inr (ctx_Framer ctx (FrRSTStream sid code) c)"
| "writeFrame env ctx (WritePing d) c = Inr (ctx_Framer ctx (FrPing False d) c)"
| "writeFrame env ctx (WritePingAck d) c = Inr (ctx_Framer ctx (FrPing True d) c)"
| "writeFrame env ctx WriteSettingsAck c = Inr (ctx_Framer ctx FrSettingsAck c)"
| "writeFrame env ctx (WriteResHeaders w) c = resHeaders_writeFrame env ctx w c"
| "writeFrame env ctx (WritePushPromise w) c = pushPromise_writeFrame env ctx w c"
| "writeFrame env ctx (Write100ContinueHeadersFrame sid) c = Inr (continue_writeFrame ctx sid c)"
| "writeFrame env ctx (WriteWindowUpdate sid n) c = Inr (ctx_Framer ctx (FrWindowUpdate sid n) c)"

text \<open>Payload bytes of a frame on the wire, RFC 7540 section 6, for frames without padding.\<close>

fun frame_payload :: "framer_call \<Rightarrow> nat" where
  "frame_payload (FrSettings s) = 6 * length s"
| "frame_payload FrSettingsAck = 0"
| "frame_payload (FrGoAway _ _) = 8"
| "frame_payload (FrData _ _ p) = length p"
| "frame_payload (FrRSTStream _ _) = 4"
| "frame_payload (FrPing _ _) = 8"
| "frame_payload (FrHeaders _ frag _ _) = length frag"
| "frame_payload (FrContinuation _ _ frag) = length frag"
| "frame_payload (FrPushPromise _ _ frag _) = 4 + length frag"
| "frame_payload (FrWindowUpdate _ _) = 4"

text \<open>What the code relies on of the context: a framer method buffers at most the frame it is named
  for, neither it nor the encoder flushes, and the encoder's output for the one field of a 100-continue
  response stays within the bound the code calls conservative.\<close>

definition framer_sizes :: "'c writeContext \<Rightarrow> ('c \<Rightarrow> nat) \<Rightarrow> ('c \<Rightarrow> nat) \<Rightarrow> bool" where
  "framer_sizes ctx buffered flushes \<longleftrightarrow>
     (\<forall>call c. buffered (snd (ctx_Framer ctx call c)) \<le> buffered c + 9 + frame_payload call \<and>
        flushes (snd (ctx_Framer ctx call c)) = flushes c) \<and>
     (\<forall>c. buffered (ctx_bufReset ctx c) = buffered c \<and> flushes (ctx_bufReset ctx c) = flushes c) \<and>
     (\<forall>f c. buffered (ctx_WriteField ctx f c) = buffered c \<and> flushes (ctx_WriteField ctx f c) = flushes c) \<and>
     (\<forall>c. length (ctx_bufBytes ctx (ctx_WriteField ctx ('':status'', ''100'') (ctx_bufReset ctx c))) \<le> 20)"

text \<open>A loop over given calls that stops at the first error, and the fields a header encodes to.\<close>

fun run_until_error ::
    "(byte list \<Rightarrow> bool \<Rightarrow> bool \<Rightarrow> 'c \<Rightarrow> go_error option \<times> 'c) \<Rightarrow> (byte list \<times> bool \<times> bool) list \<Rightarrow> 'c \<Rightarrow>
      go_error option \<times> 'c" where
  "run_until_error fn [] c = (None, c)"
| "run_until_error fn ((frag, a, z) # calls) c =
     (case fn frag a z c of (Some err, c') \<Rightarrow> (Some err, c') | (None, c') \<Rightarrow> run_until_error fn calls c')"

definition sent_values :: "header_env \<Rightarrow> string \<Rightarrow> string list \<Rightarrow> string list" where
  "sent_values env k vv =
     filter (\<lambda>v. env_ValidHeaderFieldValue env v \<and> (k = ''transfer-encoding'' \<longrightarrow> v = ''trailers'')) vv"

definition header_fields :: "header_env \<Rightarrow> header \<Rightarrow> string list \<Rightarrow> (string \<times> string) list" where
  "header_fields env h ks =
     concat (map (\<lambda>k. map (Pair (lowerHeader env k)) (sent_values env (lowerHeader env k) (headerGet h k))) ks)"

text \<open>A concrete context: the frames and the header block so far, the bytes buffered, the flushes.\<close>

record wire_log =
  wl_frames :: "framer_call list"
  wl_block :: "byte list"
  wl_buffered :: nat
  wl_flushes :: nat

definition log_context :: "wire_log writeContext" where
  "log_context =
     \<lparr>ctx_Framer = (\<lambda>call c. (None, c\<lparr>wl_frames := wl_frames c @ [call],
                                   wl_buffered := wl_buffered c + 9 + frame_payload call\<rparr>)),
      ctx_Flush = (\<lambda>c. (None, c\<lparr>wl_flushes := Suc (wl_flushes c)\<rparr>)),
      ctx_bufReset = (\<lambda>c. c\<lparr>wl_block := []\<rparr>),
      ctx_WriteField = (\<lambda>(k, v) c. c\<lparr>wl_block := wl_block c @ replicate (Suc (length k + length v)) 0\<rparr>),
      ctx_bufBytes = wl_block\<rparr>"

definition empty_log :: wire_log where
  "empty_log = \<lparr>wl_frames = [], wl_block = [], wl_buffered = 0, wl_flushes = 0\<rparr>"

definition plain_env :: header_env where
  "plain_env = \<lparr>env_ToLower = id, env_StatusText = (\<lambda>_. ''OK''),
     env_ValidHeaderFieldValue = (\<lambda>v. v \<noteq> ''bad''), env_IsTokenRune = (\<lambda>_. True)\<rparr>"

subsection \<open>Header blocks\<close>

text \<open>The fragments of a block, cut every 16384 bytes, with their flags.\<close>

function fragments :: "bool \<Rightarrow> byte list \<Rightarrow> (byte list \<times> bool \<times> bool) list" where
  "fragments first hb =
     (if hb = [] then [] else (take 16384 hb, first, length hb \<le> 16384) # fragments False (drop 16384 hb))"
  by pat_completeness auto
termination
  by (relation "measure (\<lambda>(first, hb). length hb)") auto

declare fragments.simps [simp del]

lemma splitHeaderBlock_fragments:
  "splitHeaderBlock fn first hb c = run_until_error fn (fragments first hb) c"
proof (induction first hb arbitrary: c rule: fragments.induct)
  case (1 first hb)
  show ?case
  proof (cases "hb = []")
    case True
    then show ?thesis by (simp add: splitHeaderBlock.simps fragments.simps)
  next
    case False
    have cut: "(if 16384 < length hb then take 16384 hb else hb) = take 16384 hb" by simp
    have rest: "drop (length (take 16384 hb)) hb = drop 16384 hb" by (simp add: min_def)
    have last: "(drop 16384 hb = []) = (length hb \<le> 16384)" by simp
    show ?thesis
      unfolding splitHeaderBlock.simps [of fn first hb] fragments.simps [of first hb] Let_def cut rest last
      using False "1.IH" by (simp split: prod.splits option.splits)
  qed
qed

lemma fragments_concat: "concat (map fst (fragments first hb)) = hb"
proof (induction first hb rule: fragments.induct)
  case (1 first hb)
  then show ?case
    by (cases "hb = []") (simp_all add: fragments.simps [of first hb] fragments.simps [of _ "[]"])
qed

lemma fragments_sizes: "(frag, a, z) \<in> set (fragments first hb) \<Longrightarrow> frag \<noteq> [] \<and> length frag \<le> 16384"
proof (induction first hb rule: fragments.induct)
  case (1 first hb)
  then show ?case
    by (cases "hb = []") (auto simp: fragments.simps [of first hb] fragments.simps [of _ "[]"])
qed

lemma fragments_Nil_iff: "fragments first hb = [] \<longleftrightarrow> hb = []"
  by (subst fragments.simps) simp

lemma fragments_flags:
  "i < length (fragments first hb) \<Longrightarrow>
    snd (fragments first hb ! i) = (first \<and> i = 0, Suc i = length (fragments first hb))"
proof (induction first hb arbitrary: i rule: fragments.induct)
  case (1 first hb)
  show ?case
  proof (cases "hb = []")
    case True
    with "1.prems" show ?thesis by (simp add: fragments.simps)
  next
    case False
    note eq = fragments.simps [of first hb]
    show ?thesis
    proof (cases i)
      case 0
      have "(length hb \<le> 16384) = (fragments False (drop 16384 hb) = [])"
        by (simp add: fragments_Nil_iff)
      then show ?thesis using 0 False by (simp add: eq)
    next
      case (Suc j)
      then show ?thesis using "1.prems" "1.IH" [OF False, of j] False by (simp add: eq)
    qed
  qed
qed

subsection \<open>Header fields\<close>

lemma encodeValues_fold:
  "encodeValues env ctx k vv c = fold (ctx_WriteField ctx) (map (Pair k) (sent_values env k vv)) c"
  by (induction vv arbitrary: c) (auto simp: sent_values_def encKV_def)

lemma encodeKeys_fold:
  "encodeKeys env ctx h ks c = fold (ctx_WriteField ctx) (header_fields env h ks) c"
  by (induction ks arbitrary: c) (simp_all add: encodeValues_fold header_fields_def)

lemma headerGet_mset:
  assumes "distinct (map fst h)" "mset h' = mset h"
  shows "headerGet h' k = headerGet h k"
proof -
  have "distinct (map fst h')" "set h' = set h"
    using assms by (metis mset_eq_imp_distinct_iff mset_map, metis mset_eq_setD)
  then have "map_of h' = map_of h"
    using assms(1) by (metis map_of_eqI map_of_inject_set set_map)
  then show ?thesis by (simp add: headerGet_def)
qed

subsection \<open>Properties\<close>

text \<open>C19: \<open>splitHeaderBlock\<close> cuts a header block into non-empty fragments of at most 16384 bytes that
  concatenate to the block, marks exactly the first and the last, and calls \<open>fn\<close> on them in that
  order, stopping at the first error, for every \<open>fn\<close>.\<close>

theorem splitHeaderBlock_correct:
  "\<exists>calls. concat (map fst calls) = hb \<and>
    list_all (\<lambda>(frag, _, _). 0 < length frag \<and> length frag \<le> 16384) calls \<and>
    map snd calls = map (\<lambda>i. (i = 0, Suc i = length calls)) [0..<length calls] \<and>
    splitHeaderBlock fn True hb c = run_until_error fn calls c"
proof (intro exI conjI)
  let ?calls = "fragments True hb"
  show "concat (map fst ?calls) = hb" by (rule fragments_concat)
  show "list_all (\<lambda>(frag, _, _). 0 < length frag \<and> length frag \<le> 16384) ?calls"
    using fragments_sizes [of _ _ _ True hb] by (auto simp: list_all_iff)
  show "map snd ?calls = map (\<lambda>i. (i = 0, Suc i = length ?calls)) [0..<length ?calls]"
    by (intro nth_equalityI) (simp_all add: fragments_flags)
  show "splitHeaderBlock fn True hb c = run_until_error fn ?calls c"
    by (rule splitHeaderBlock_fragments)
qed

text \<open>C36: \<open>staysWithinBuffer\<close> keeps its promise: a writer that says it fits into \<open>max\<close> bytes does not
  panic, buffers at most \<open>max\<close> bytes and does not flush, for every context whose framer writes
  frames of the size RFC 7540 gives them.\<close>

theorem staysWithinBuffer_sound:
  assumes "framer_sizes ctx buffered flushes" and "staysWithinBuffer w mx"
  shows "\<exists>err c'. writeFrame env ctx w c = Inr (err, c') \<and>
    int (buffered c') \<le> int (buffered c) + mx \<and> flushes c' = flushes c"
proof -
  have call: "int (buffered (snd (ctx_Framer ctx call c))) \<le> int (buffered c) + int (9 + frame_payload call)"
      "flushes (snd (ctx_Framer ctx call c)) = flushes c" for call c
    using assms(1) unfolding framer_sizes_def by (metis add.assoc of_nat_add of_nat_mono)+
  show ?thesis
  proof (cases "\<exists>sid. w = Write100ContinueHeadersFrame sid")
    case True
    then obtain sid where w: "w = Write100ContinueHeadersFrame sid" by blast
    let ?c1 = "ctx_WriteField ctx ('':status'', ''100'') (ctx_bufReset ctx c)"
    have "length (ctx_bufBytes ctx ?c1) \<le> 20" "buffered ?c1 = buffered c" "flushes ?c1 = flushes c"
      using assms(1) by (simp_all add: framer_sizes_def)
    then show ?thesis
      using call [of "FrHeaders sid (ctx_bufBytes ctx ?c1) False True" ?c1] assms(2) w
      by (cases "ctx_Framer ctx (FrHeaders sid (ctx_bufBytes ctx ?c1) False True) ?c1")
        (auto simp: continue_writeFrame_def encKV_def Let_def)
  next
    case False
    with assms(2) obtain fc where
      "writeFrame env ctx w c = Inr (ctx_Framer ctx fc c)" "int (9 + frame_payload fc) \<le> mx"
      by (cases w) (auto simp: frameHeaderLen_def)
    then show ?thesis
      using call [where call = fc and c = c] by (cases "ctx_Framer ctx fc c") auto
  qed
qed

theorem staysWithinBuffer_sound_witness:
  "\<exists>err c'. writeFrame plain_env log_context (Write100ContinueHeadersFrame 5) empty_log = Inr (err, c') \<and>
    int (wl_buffered c') \<le> 29 \<and> wl_flushes c' = 0"
proof -
  have "framer_sizes log_context wl_buffered wl_flushes"
    by (simp add: framer_sizes_def log_context_def split: prod.splits)
  from staysWithinBuffer_sound [OF this, of "Write100ContinueHeadersFrame 5" 29 plain_env empty_log]
  show ?thesis by (simp add: empty_log_def)
qed

text \<open>C37: \<open>encodeHeaders\<close> does not depend on the order in which the map is iterated: for two listings
  of the same header it makes the same encoder calls, which are the valid values of the keys in
  ascending order, under lower-cased names, with no transfer-encoding but \<open>trailers\<close>.\<close>

theorem encodeHeaders_deterministic:
  assumes "distinct (map fst h)" and "mset h' = mset h"
  shows "encodeHeaders env ctx h' None c = fold (ctx_WriteField ctx) (header_fields env h (sort (map fst h))) c"
proof -
  have "sort (map fst h') = sort (map fst h)"
    using assms(2) by (intro properties_for_sort) simp_all
  moreover have "header_fields env h' = header_fields env h"
    using headerGet_mset [OF assms] by (intro ext) (simp add: header_fields_def)
  ultimately show ?thesis
    by (simp add: encodeHeaders_def encodeKeys_fold sorter_Keys_def)
qed

theorem encodeHeaders_deterministic_witness:
  "encodeHeaders plain_env log_context [(''b'', [''2'', ''bad'']), (''a'', [''1''])] None empty_log =
    fold (ctx_WriteField log_context) [(''a'', ''1''), (''b'', ''2'')] empty_log"
  using encodeHeaders_deterministic [of "[(''a'', [''1'']), (''b'', [''2'', ''bad''])]"
      "[(''b'', [''2'', ''bad'']), (''a'', [''1''])]" plain_env log_context empty_log]
  by (simp add: header_fields_def plain_env_def lowerHeader_def sent_values_def headerGet_def)

end
