(* ===== verification/WriteSched.thy ===== *)
theory WriteSched
  imports Flow Write_Frames
begin

text \<open>
  Write requests and their queues (\<open>writesched.go\<close>). A request names its stream by id; the
  stream's outbound flow is the entry \<open>StreamFlow id\<close> of the flow store, and the \<open>maxFrameSize\<close> of
  its session is an argument. \<open>done\<close> is a channel, named by a number; the channel store says
  what the one-message buffer of a channel holds.
\<close>

record FrameWriteRequest =
  wr_write :: "writeFramer option"
  wr_stream :: "u32 option"
  wr_done :: "nat option"

definition emptyRequest :: FrameWriteRequest where
  "emptyRequest = \<lparr>wr_write = None, wr_stream = None, wr_done = None\<rparr>"

definition StreamID :: "FrameWriteRequest \<Rightarrow> u32" where
  "StreamID wr =
     (case wr_stream wr of
        None \<Rightarrow> (case wr_write wr of Some (WriteStreamError sid _) \<Rightarrow> sid | _ \<Rightarrow> 0)
      | Some i \<Rightarrow> i)"

definition DataSize :: "FrameWriteRequest \<Rightarrow> nat" where
  "DataSize wr = (case wr_write wr of Some (WriteData _ p _) \<Rightarrow> length p | _ \<Rightarrow> 0)"

text \<open>\<open>if b < a { a = b }\<close> on \<open>int32\<close>.\<close>

definition limit :: "i32 \<Rightarrow> i32 \<Rightarrow> i32" where
  "limit a b = (if b <s a then b else a)"

text \<open>\<open>Consume\<close> for a session's \<open>maxFrameSize\<close>: the two frames, the number of results, and the flow
  store after \<open>take\<close>.\<close>

definition Consume ::
    "i32 \<Rightarrow> i32 \<Rightarrow> FrameWriteRequest \<Rightarrow> flow_store \<Rightarrow>
      go_panic + (FrameWriteRequest \<times> FrameWriteRequest \<times> nat) \<times> flow_store" where
  "Consume maxFrameSize n wr fs =
     (case wr_write wr of
        Some (WriteData sid p endStream) \<Rightarrow>
          if p = [] then Inr ((wr, emptyRequest, 1), fs)
          else
            (case wr_stream wr of
               None \<Rightarrow> Inl NilDereference
             | Some i \<Rightarrow>
                 let allowed = limit (limit (available fs (StreamFlow i)) n) maxFrameSize
                 in if allowed \<le>s 0 then Inr ((emptyRequest, emptyRequest, 0), fs)
                    else if sint allowed < int (length p)
                    then bindE (flow_take (StreamFlow i) allowed fs) (\<lambda>fs'.
                           let k = nat (sint allowed);
                               consumed = \<lparr>wr_write = Some (WriteData sid (take k p) False),
                                           wr_stream = wr_stream wr, wr_done = None\<rparr>;
                               rest = \<lparr>wr_write = Some (WriteData sid (drop k p) endStream),
                                       wr_stream = wr_stream wr, wr_done = wr_done wr\<rparr>
                           in Inr ((consumed, rest, 2), fs'))
                    else bindE (flow_take (StreamFlow i) (of_nat (length p)) fs) (\<lambda>fs'.
                           Inr ((wr, emptyRequest, 1), fs')))
      | _ \<Rightarrow> Inr ((wr, emptyRequest, 1), fs))"

text \<open>The buffered channels of waiting writers: \<open>None\<close> is an empty buffer.\<close>

type_synonym chan_store = "nat \<Rightarrow> go_error option option"

definition replyToWriter ::
    "FrameWriteRequest \<Rightarrow> go_error option \<Rightarrow> chan_store \<Rightarrow> go_panic + FrameWriteRequest \<times> chan_store" where
  "replyToWriter wr err chans =
     (case wr_done wr of
        None \<Rightarrow> Inr (wr, chans)
      | Some ch \<Rightarrow>
          if chans ch = None then Inr (wr\<lparr>wr_write := None\<rparr>, chans(ch := Some err))
          else Inl (Panic ''unbuffered done channel passed in''))"

type_synonym writeQueue = "FrameWriteRequest list"

definition wq_empty :: "writeQueue \<Rightarrow> bool" where
  "wq_empty q \<longleftrightarrow> length q = 0"

definition wq_push :: "FrameWriteRequest \<Rightarrow> writeQueue \<Rightarrow> writeQueue" where
  "wq_push wr q = q @ [wr]"

definition wq_shift :: "writeQueue \<Rightarrow> go_panic + FrameWriteRequest \<times> writeQueue" where
  "wq_shift q = (case q of [] \<Rightarrow> Inl (Panic ''invalid use of queue'') | wr # q' \<Rightarrow> Inr (wr, q'))"

definition wq_consume ::
    "i32 \<Rightarrow> i32 \<Rightarrow> writeQueue \<Rightarrow> flow_store \<Rightarrow>
      go_panic + (FrameWriteRequest \<times> bool) \<times> writeQueue \<times> flow_store" where
  "wq_consume maxFrameSize n q fs =
     (case q of
        [] \<Rightarrow> Inr ((emptyRequest, False), q, fs)
      | wr # _ \<Rightarrow>
          bindE (Consume maxFrameSize n wr fs) (\<lambda>((consumed, rest, numresult), fs').
            if numresult = 0 then Inr ((emptyRequest, False), q, fs')
            else if numresult = 1 then bindE (wq_shift q) (\<lambda>(_, q'). Inr ((consumed, True), q', fs'))
            else Inr ((consumed, True), q[0 := rest], fs')))"

type_synonym writeQueuePool = "writeQueue list"

definition pool_put :: "writeQueue \<Rightarrow> writeQueuePool \<Rightarrow> writeQueuePool" where
  "pool_put q p = p @ [take 0 q]"

definition pool_get :: "writeQueuePool \<Rightarrow> writeQueue \<times> writeQueuePool" where
  "pool_get p = (let ln = length p in if ln = 0 then ([], p) else (p ! (ln - 1), take (ln - 1) p))"

subsection \<open>What a queue means\<close>

text \<open>The order-relevant content of requests: each data byte of a stream, the point where a DATA
  request ends (with the flag and the channel that belong there), and every other frame whole.
  Splitting a DATA request does not change it.\<close>

datatype wire_atom =
    Byte "u32 option" u32 byte
  | DataEnd "u32 option" u32 bool "nat option"
  | Whole FrameWriteRequest

definition atoms :: "FrameWriteRequest \<Rightarrow> wire_atom list" where
  "atoms wr =
     (case wr_write wr of
        Some (WriteData sid p es) \<Rightarrow>
          map (Byte (wr_stream wr) sid) p @
          (if p = [] \<or> es \<or> wr_done wr \<noteq> None then [DataEnd (wr_stream wr) sid es (wr_done wr)] else [])
      | _ \<Rightarrow> [Whole wr])"

abbreviation queue_atoms :: "writeQueue \<Rightarrow> wire_atom list" where
  "queue_atoms q \<equiv> concat (map atoms q)"

text \<open>A run of \<open>consume\<close> calls with the given limits, stopping at the first that gives nothing.\<close>

fun wq_drain ::
    "i32 \<Rightarrow> i32 list \<Rightarrow> writeQueue \<Rightarrow> flow_store \<Rightarrow>
      go_panic + FrameWriteRequest list \<times> writeQueue \<times> flow_store" where
  "wq_drain mfs [] q fs = Inr ([], q, fs)"
| "wq_drain mfs (n # ns) q fs =
     bindE (wq_consume mfs n q fs) (\<lambda>((wr, ok), q1, fs1).
       if ok then bindE (wq_drain mfs ns q1 fs1) (\<lambda>(wrs, q2, fs2). Inr (wr # wrs, q2, fs2))
       else Inr ([], q1, fs1))"

text \<open>The queue of one stream: its DATA requests name it, and its flow is linked.\<close>

definition stream_queue :: "u32 \<Rightarrow> writeQueue \<Rightarrow> bool" where
  "stream_queue i q \<longleftrightarrow> (\<forall>wr \<in> set q. 0 < DataSize wr \<longrightarrow> wr_stream wr = Some i)"

text \<open>A session's flow store with one stream: the connection's window and the stream's.\<close>

definition one_stream :: "u32 \<Rightarrow> i32 \<Rightarrow> i32 \<Rightarrow> flow_store" where
  "one_stream i c n = (\<lambda>_. \<lparr>flow_n = c, flow_conn = None\<rparr>)(StreamFlow i := \<lparr>flow_n = n, flow_conn = Some ConnFlow\<rparr>)"

definition data_bytes :: "FrameWriteRequest list \<Rightarrow> nat" where
  "data_bytes wrs = sum_list (map DataSize wrs)"

lemma linked_one_stream: "linked (one_stream i c n) i"
  by (simp add: linked_def one_stream_def)

lemma flow_n_one_stream [simp]:
  "flow_n (one_stream i c n ConnFlow) = c" "flow_n (one_stream i c n (StreamFlow i)) = n"
  by (simp_all add: one_stream_def)

subsection \<open>One request\<close>

lemma Consume_nondata:
  "DataSize wr = 0 \<Longrightarrow> Consume mfs n wr fs = Inr ((wr, emptyRequest, 1), fs)"
  by (auto simp: DataSize_def Consume_def split: option.splits writeFramer.splits)

lemma DataSize_pos:
  assumes "0 < DataSize wr"
  obtains sid p es where "wr_write wr = Some (WriteData sid p es)" "p \<noteq> []" "DataSize wr = length p"
  using assms by (auto simp: DataSize_def split: option.splits writeFramer.splits)

text \<open>How much a request may send.\<close>

definition allowance :: "i32 \<Rightarrow> i32 \<Rightarrow> u32 \<Rightarrow> flow_store \<Rightarrow> int" where
  "allowance mfs n i fs = min (sint mfs) (min (sint n) (sint (available fs (StreamFlow i))))"

lemma sint_limit [simp]: "sint (limit a b) = min (sint b) (sint a)"
  by (simp add: limit_def go_simps min_def)

lemma sint_allowed: "sint (limit (limit (available fs (StreamFlow i)) n) mfs) = allowance mfs n i fs"
  by (simp add: allowance_def)

lemma allowance_le: "allowance mfs n i fs \<le> sint (available fs (StreamFlow i))"
    "allowance mfs n i fs \<le> sint mfs" "allowance mfs n i fs \<le> sint n"
  by (simp_all add: allowance_def)

lemma Consume_blocked:
  assumes "wr_write wr = Some (WriteData sid p es)" "p \<noteq> []" "wr_stream wr = Some i"
    and "allowance mfs n i fs \<le> 0"
  shows "Consume mfs n wr fs = Inr ((emptyRequest, emptyRequest, 0), fs)"
  using assms by (simp add: Consume_def Let_def word_sle_eq sint_allowed del: sint_limit)

lemma Consume_split:
  assumes wr: "wr_write wr = Some (WriteData sid p es)" "p \<noteq> []" "wr_stream wr = Some i"
    and l: "linked fs i" and a: "0 < allowance mfs n i fs" "allowance mfs n i fs < int (length p)"
  defines "k \<equiv> nat (allowance mfs n i fs)"
  shows "\<exists>fs'. Consume mfs n wr fs = Inr
      ((\<lparr>wr_write = Some (WriteData sid (take k p) False), wr_stream = Some i, wr_done = None\<rparr>,
        \<lparr>wr_write = Some (WriteData sid (drop k p) es), wr_stream = Some i, wr_done = wr_done wr\<rparr>, 2), fs') \<and>
    linked fs' i \<and> sint (available fs' (StreamFlow i)) = sint (available fs (StreamFlow i)) - int k"
proof -
  obtain fs' where "flow_take (StreamFlow i) (limit (limit (available fs (StreamFlow i)) n) mfs) fs = Inr fs'"
      "linked fs' i"
      "sint (available fs' (StreamFlow i)) = sint (available fs (StreamFlow i)) - allowance mfs n i fs"
    using stream_window.spend_ok [OF l, of "limit (limit (available fs (StreamFlow i)) n) mfs"]
      a allowance_le(1) [of mfs n i fs] unfolding sint_allowed by auto
  then show ?thesis
    using wr a by (simp add: Consume_def Let_def word_sle_eq sint_allowed k_def del: sint_limit)
qed

lemma Consume_whole:
  assumes wr: "wr_write wr = Some (WriteData sid p es)" "p \<noteq> []" "wr_stream wr = Some i"
    and l: "linked fs i" and a: "int (length p) \<le> allowance mfs n i fs"
  shows "\<exists>fs'. Consume mfs n wr fs = Inr ((wr, emptyRequest, 1), fs') \<and> linked fs' i \<and>
    sint (available fs' (StreamFlow i)) = sint (available fs (StreamFlow i)) - int (length p)"
proof -
  have "int (length p) \<le> sint (available fs (StreamFlow i))"
    using a allowance_le(1) by (rule order_trans)
  moreover from this have "sint (of_nat (length p) :: i32) = int (length p)"
    using sint32_bounds(2) [of "available fs (StreamFlow i)"] by (intro sint_of_nat32) linarith
  ultimately obtain fs' where "flow_take (StreamFlow i) (of_nat (length p)) fs = Inr fs'" "linked fs' i"
      "sint (available fs' (StreamFlow i)) = sint (available fs (StreamFlow i)) - int (length p)"
    using stream_window.spend_ok [OF l, of "of_nat (length p)"] by auto
  moreover have "0 < int (length p)" using wr(2) by simp
  then have "\<not> allowance mfs n i fs \<le> 0" using a by linarith
  ultimately show ?thesis
    using wr a by (simp add: Consume_def Let_def word_sle_eq sint_allowed del: sint_limit)
qed

subsection \<open>One queue\<close>

lemma atoms_split:
  assumes "wr_write wr = Some (WriteData sid p es)" "wr_stream wr = Some i" "0 < k" "k < length p"
  shows "atoms \<lparr>wr_write = Some (WriteData sid (take k p) False), wr_stream = Some i, wr_done = None\<rparr> @
      atoms \<lparr>wr_write = Some (WriteData sid (drop k p) es), wr_stream = Some i, wr_done = wr_done wr\<rparr>
    = atoms wr"
  using assms by (auto simp: atoms_def simp flip: map_append)

text \<open>What one \<open>consume\<close> does to the queue of a stream whose flow is linked.\<close>

lemma wq_consume_step:
  assumes q: "stream_queue i q" and l: "linked fs i"
  obtains wr ok q' fs' where "wq_consume mfs n q fs = Inr ((wr, ok), q', fs')" "linked fs' i"
    "stream_queue i q'" "queue_atoms q = (if ok then atoms wr else []) @ queue_atoms q'"
    "sint (available fs' (StreamFlow i)) = sint (available fs (StreamFlow i)) - (if ok then int (DataSize wr) else 0)"
    "ok \<longrightarrow> DataSize wr = 0 \<or> (int (DataSize wr) \<le> sint mfs \<and> int (DataSize wr) \<le> sint n)"
    "\<not> ok \<longrightarrow> q' = q \<and> fs' = fs \<and> (q = [] \<or> 0 < DataSize (hd q) \<and> allowance mfs n i fs \<le> 0)"
    "ok \<longrightarrow> data_bytes q = DataSize wr + data_bytes q' \<and> length q' + data_bytes q' < length q + data_bytes q"
proof (cases q)
  case Nil
  then show ?thesis
    using l q by (intro that [of emptyRequest False q fs]) (simp_all add: wq_consume_def)
next
  case (Cons wr rest)
  have tl: "stream_queue i rest" using q Cons by (simp add: stream_queue_def)
  show ?thesis
  proof (cases "DataSize wr = 0")
    case True
    then show ?thesis
      using Cons l tl
      by (intro that [of wr True rest fs]) (simp_all add: wq_consume_def Consume_nondata wq_shift_def data_bytes_def)
  next
    case False
    then obtain sid p es where w: "wr_write wr = Some (WriteData sid p es)" "p \<noteq> []"
        and sz: "DataSize wr = length p"
      by (auto elim: DataSize_pos)
    have st: "wr_stream wr = Some i" using q Cons False by (simp add: stream_queue_def)
    let ?a = "allowance mfs n i fs"
    consider "?a \<le> 0" | "0 < ?a" "?a < int (length p)" | "int (length p) \<le> ?a" by linarith
    then show ?thesis
    proof cases
      case 1
      then show ?thesis
        using Consume_blocked [OF w st 1] Cons l q False
        by (intro that [of emptyRequest False q fs]) (simp_all add: wq_consume_def)
    next
      case 2
      let ?c = "\<lparr>wr_write = Some (WriteData sid (take (nat ?a) p) False), wr_stream = Some i, wr_done = None\<rparr>"
      let ?r = "\<lparr>wr_write = Some (WriteData sid (drop (nat ?a) p) es), wr_stream = Some i, wr_done = wr_done wr\<rparr>"
      obtain fs' where c: "Consume mfs n wr fs = Inr ((?c, ?r, 2), fs')" "linked fs' i"
          "sint (available fs' (StreamFlow i)) = sint (available fs (StreamFlow i)) - int (nat ?a)"
        using Consume_split [OF w st l 2] by blast
      have "atoms ?c @ atoms ?r = atoms wr"
        using 2 by (intro atoms_split w st) linarith+
      moreover have "DataSize ?c = nat ?a" "DataSize ?r = length p - nat ?a" "0 < nat ?a" "nat ?a < length p"
        using 2 by (simp_all add: DataSize_def)
      moreover have "stream_queue i (?r # rest)"
        using tl by (auto simp: stream_queue_def DataSize_def)
      ultimately show ?thesis
        using c Cons allowance_le(2,3) [of mfs n i fs] 2
        by (intro that [of ?c True "?r # rest" fs']) (simp_all add: wq_consume_def data_bytes_def sz)
    next
      case 3
      then obtain fs' where "Consume mfs n wr fs = Inr ((wr, emptyRequest, 1), fs')" "linked fs' i"
          "sint (available fs' (StreamFlow i)) = sint (available fs (StreamFlow i)) - int (length p)"
        using Consume_whole [OF w st l] by blast
      then show ?thesis
        using Cons tl sz 3 allowance_le(2,3) [of mfs n i fs]
        by (intro that [of wr True rest fs']) (simp_all add: wq_consume_def wq_shift_def data_bytes_def)
    qed
  qed
qed

lemma wq_drain_ok:
  assumes "stream_queue i q" "linked fs i"
  shows "\<exists>wrs q' fs'. wq_drain mfs ns q fs = Inr (wrs, q', fs') \<and> linked fs' i \<and> stream_queue i q' \<and>
    queue_atoms wrs @ queue_atoms q' = queue_atoms q \<and>
    (\<forall>wr \<in> set wrs. DataSize wr = 0 \<or> int (DataSize wr) \<le> sint mfs) \<and>
    sint (available fs' (StreamFlow i)) = sint (available fs (StreamFlow i)) - int (data_bytes wrs)"
  using assms
proof (induction ns arbitrary: q fs)
  case (Cons n ns)
  obtain wr ok q1 fs1 where st: "wq_consume mfs n q fs = Inr ((wr, ok), q1, fs1)" "linked fs1 i"
      "stream_queue i q1" "queue_atoms q = (if ok then atoms wr else []) @ queue_atoms q1"
      "sint (available fs1 (StreamFlow i)) = sint (available fs (StreamFlow i)) - (if ok then int (DataSize wr) else 0)"
      "ok \<longrightarrow> DataSize wr = 0 \<or> (int (DataSize wr) \<le> sint mfs \<and> int (DataSize wr) \<le> sint n)"
    using wq_consume_step [OF Cons.prems, of mfs n] by metis
  show ?case
  proof (cases ok)
    case True
    obtain wrs q2 fs2 where "wq_drain mfs ns q1 fs1 = Inr (wrs, q2, fs2)" "linked fs2 i" "stream_queue i q2"
        "queue_atoms wrs @ queue_atoms q2 = queue_atoms q1"
        "\<forall>wr \<in> set wrs. DataSize wr = 0 \<or> int (DataSize wr) \<le> sint mfs"
        "sint (available fs2 (StreamFlow i)) = sint (available fs1 (StreamFlow i)) - int (data_bytes wrs)"
      using Cons.IH [OF st(3,2)] by blast
    then show ?thesis
      using True st by (auto simp: data_bytes_def)
  qed (use st in \<open>simp add: data_bytes_def\<close>)
qed (simp add: data_bytes_def)

text \<open>With enough credit, \<open>consume\<close> calls with a positive limit empty the queue.\<close>

lemma wq_drain_empties:
  assumes "stream_queue i q" "linked fs i" "0 < sint mfs" "\<forall>n \<in> set ns. 0 < sint n"
    and "int (data_bytes q) \<le> sint (available fs (StreamFlow i))"
    and "length q + data_bytes q \<le> length ns"
  shows "\<exists>wrs fs'. wq_drain mfs ns q fs = Inr (wrs, [], fs')"
  using assms
proof (induction ns arbitrary: q fs)
  case Nil
  then show ?case by simp
next
  case (Cons n ns)
  show ?case
  proof (cases "q = []")
    case True
    then show ?thesis by (simp add: wq_consume_def)
  next
    case False
    obtain wr ok q1 fs1 where st: "wq_consume mfs n q fs = Inr ((wr, ok), q1, fs1)" "linked fs1 i"
        "stream_queue i q1"
        "sint (available fs1 (StreamFlow i)) = sint (available fs (StreamFlow i)) - (if ok then int (DataSize wr) else 0)"
        "\<not> ok \<longrightarrow> q1 = q \<and> fs1 = fs \<and> (q = [] \<or> 0 < DataSize (hd q) \<and> allowance mfs n i fs \<le> 0)"
        "ok \<longrightarrow> data_bytes q = DataSize wr + data_bytes q1 \<and> length q1 + data_bytes q1 < length q + data_bytes q"
      using wq_consume_step [OF Cons.prems(1,2), of mfs n] by metis
    have ok: ok
    proof (rule ccontr)
      assume "\<not> ok"
      with st(5) False have h: "0 < DataSize (hd q)" "allowance mfs n i fs \<le> 0" by auto
      have "DataSize (hd q) \<le> data_bytes q"
        using False by (cases q) (simp_all add: data_bytes_def)
      then have "0 < sint (available fs (StreamFlow i))" using h(1) Cons.prems(5) by linarith
      then have "0 < allowance mfs n i fs"
        using Cons.prems(3,4) by (simp add: allowance_def)
      with h(2) show False by simp
    qed
    have "int (data_bytes q1) \<le> sint (available fs1 (StreamFlow i))"
        "length q1 + data_bytes q1 \<le> length ns"
      using st(4,6) ok Cons.prems(5,6) by auto
    then obtain wrs fs2 where "wq_drain mfs ns q1 fs1 = Inr (wrs, [], fs2)"
      using Cons.IH [OF st(3,2) Cons.prems(3)] Cons.prems(4) by auto
    then show ?thesis using st(1) ok by simp
  qed
qed

subsection \<open>Properties\<close>

text \<open>C17: \<open>Consume\<close> on a DATA request with data, for a stream whose flow is linked to the
  connection's. With \<open>allowed\<close> the least of the limit, the two windows and the session's frame size:
  nothing is returned and no credit is taken when \<open>allowed\<close> is not positive; otherwise the first frame
  carries the first \<open>min allowed (length p)\<close> bytes, the rest (if any) the remaining ones together
  with the END_STREAM flag and the writer's channel, and both windows lose exactly the bytes sent. It
  never panics.\<close>

theorem Consume_correct:
  assumes "wr_write wr = Some (WriteData sid p es)" and "p \<noteq> []" and "wr_stream wr = Some i"
    and "linked fs i"
    and "allowed = min (sint mfs) (min (sint n) (min (sint (flow_n (fs ConnFlow))) (sint (flow_n (fs (StreamFlow i))))))"
  shows "\<exists>fs'. sint (available fs' (StreamFlow i)) =
        sint (available fs (StreamFlow i)) - (if allowed \<le> 0 then 0 else min allowed (int (length p))) \<and>
      Consume mfs n wr fs = Inr
       (if allowed \<le> 0 then (emptyRequest, emptyRequest, 0)
        else if int (length p) \<le> allowed then (wr, emptyRequest, 1)
        else (\<lparr>wr_write = Some (WriteData sid (take (nat allowed) p) False), wr_stream = Some i, wr_done = None\<rparr>,
              \<lparr>wr_write = Some (WriteData sid (drop (nat allowed) p) es), wr_stream = Some i, wr_done = wr_done wr\<rparr>, 2),
        fs')"
proof -
  have a: "allowed = allowance mfs n i fs"
    using assms(4,5) by (simp add: allowance_def available_stream)
  consider "allowed \<le> 0" | "0 < allowed" "allowed < int (length p)" | "0 < allowed" "int (length p) \<le> allowed"
    by linarith
  then show ?thesis
  proof cases
    case 1
    then show ?thesis
      using Consume_blocked [OF assms(1-3), of mfs n fs] a by auto
  next
    case 2
    then show ?thesis
      using Consume_split [OF assms(1-4), of mfs n] a by auto
  next
    case 3
    then show ?thesis
      using Consume_whole [OF assms(1-4), of mfs n] a by auto
  qed
qed

theorem Consume_correct_witness:
  "\<exists>fs'. Consume 16384 2147483647
      \<lparr>wr_write = Some (WriteData 1 [10, 20, 30] True), wr_stream = Some 1, wr_done = Some 4\<rparr>
      (one_stream 1 2 9)
    = Inr ((\<lparr>wr_write = Some (WriteData 1 [10, 20] False), wr_stream = Some 1, wr_done = None\<rparr>,
            \<lparr>wr_write = Some (WriteData 1 [30] True), wr_stream = Some 1, wr_done = Some 4\<rparr>, 2), fs')"
proof -
  let ?fs = "one_stream 1 2 9"
  let ?wr = "\<lparr>wr_write = Some (WriteData 1 [10, 20, 30] True), wr_stream = Some 1, wr_done = Some 4\<rparr>"
  note l = linked_one_stream [of 1 2 9]
  have "2 = min (sint (16384 :: i32)) (min (sint (2147483647 :: i32))
      (min (sint (flow_n (?fs ConnFlow))) (sint (flow_n (?fs (StreamFlow 1))))))"
    by simp
  from Consume_correct [OF _ _ _ l this, of ?wr 1 "[10, 20, 30]" True]
  show ?thesis by (auto simp: numeral_2_eq_2)
qed

text \<open>C22: a queue hands out what was pushed, in order. However often \<open>consume\<close> is called on the queue
  of a stream, and with whatever limits, it never panics; the frames it returned followed by what is
  left are the queue's content, byte for byte, with END_STREAM and the writer's notification exactly
  where they were; no DATA frame exceeds the frame size; and the stream's credit went down by exactly
  the bytes returned.\<close>

theorem wq_consume_in_order:
  assumes "stream_queue i q" and "linked fs i"
  shows "\<exists>wrs q' fs'. wq_drain mfs ns q fs = Inr (wrs, q', fs') \<and>
    queue_atoms wrs @ queue_atoms q' = queue_atoms q \<and>
    (\<forall>wr \<in> set wrs. DataSize wr = 0 \<or> int (DataSize wr) \<le> sint mfs) \<and>
    sint (available fs' (StreamFlow i)) = sint (available fs (StreamFlow i)) - int (data_bytes wrs)"
  using wq_drain_ok [OF assms] by blast

theorem wq_consume_in_order_witness:
  "\<exists>wrs q' fs'. wq_drain 2 [5, 5]
      [\<lparr>wr_write = Some (WriteData 1 [10, 20, 30] True), wr_stream = Some 1, wr_done = Some 4\<rparr>]
      (one_stream 1 9 9)
    = Inr (wrs, q', fs') \<and> queue_atoms wrs @ queue_atoms q' =
      [Byte (Some 1) 1 10, Byte (Some 1) 1 20, Byte (Some 1) 1 30, DataEnd (Some 1) 1 True (Some 4)]"
proof -
  let ?fs = "one_stream 1 9 9"
  let ?q = "[\<lparr>wr_write = Some (WriteData 1 [10, 20, 30] True), wr_stream = Some 1, wr_done = Some 4\<rparr>]"
  have "stream_queue 1 ?q" "linked ?fs 1"
    by (simp_all add: stream_queue_def linked_one_stream)
  from wq_consume_in_order [OF this, of 2 "[5, 5]"]
  show ?thesis by (auto simp: atoms_def simp del: wq_drain.simps)
qed

text \<open>C23: a queue with enough credit drains: when both windows cover the data in the queue, at most
  one \<open>consume\<close> call per frame and data byte, each with a positive limit, empties it.\<close>

theorem wq_consume_drains:
  assumes "stream_queue i q" and "linked fs i" and "0 < sint mfs" and "\<forall>n \<in> set ns. 0 < sint n"
    and "int (data_bytes q) \<le> min (sint (flow_n (fs ConnFlow))) (sint (flow_n (fs (StreamFlow i))))"
    and "length q + data_bytes q \<le> length ns"
  shows "\<exists>wrs fs'. wq_drain mfs ns q fs = Inr (wrs, [], fs') \<and> queue_atoms wrs = queue_atoms q"
proof -
  obtain wrs fs' where "wq_drain mfs ns q fs = Inr (wrs, [], fs')"
    using wq_drain_empties [OF assms(1-4) _ assms(6)] assms(2,5) by (auto simp: available_stream)
  then show ?thesis
    using wq_drain_ok [OF assms(1,2), of mfs ns] by auto
qed

theorem wq_consume_drains_witness:
  "\<exists>wrs fs'. wq_drain 2 [5, 5, 5]
      [\<lparr>wr_write = Some (WriteData 1 [10, 20] True), wr_stream = Some 1, wr_done = None\<rparr>]
      (one_stream 1 9 9)
    = Inr (wrs, [], fs')"
proof -
  let ?fs = "one_stream 1 9 9"
  let ?q = "[\<lparr>wr_write = Some (WriteData 1 [10, 20] True), wr_stream = Some 1, wr_done = None\<rparr>]"
  have "stream_queue 1 ?q" "linked ?fs 1"
    by (simp_all add: stream_queue_def linked_one_stream)
  from wq_consume_drains [OF this, of 2 "[5, 5, 5]"]
  show ?thesis by (auto simp: data_bytes_def DataSize_def simp del: wq_drain.simps)
qed

end
