(* ===== verification/PriorityTree.thy ===== *)
theory PriorityTree
  imports WriteSched
begin

text \<open>
  The priority tree of \<open>writesched_priority.go\<close>: nodes linked by \<open>parent\<close>, \<open>kids\<close>, \<open>prev\<close> and \<open>next\<close>
  pointers. Nodes live in a heap indexed by addresses; \<open>None\<close> is the nil pointer. \<open>setParent\<close>,
  \<open>addBytes\<close> and the loop of \<open>removeNode\<close> are translated pointer by pointer, because what they do
  to the sibling lists while walking along them is the point. The second half relates a heap to
  the lists of kids it represents: \<open>forest h K N\<close> says that the links of the first \<open>N\<close> nodes form
  a forest in which \<open>K p\<close> is the list of kids of \<open>p\<close>.
\<close>

datatype priorityNodeState = PriorityNodeOpen | PriorityNodeClosed | PriorityNodeIdle

type_synonym nptr = nat

record priorityNode =
  n_q :: writeQueue
  n_id :: u32
  n_weight :: u8
  n_state :: priorityNodeState
  n_bytes :: i64
  n_subtreeBytes :: i64
  n_parent :: "nptr option"
  n_kids :: "nptr option"
  n_prev :: "nptr option"
  n_next :: "nptr option"

type_synonym node_heap = "nptr \<Rightarrow> priorityNode"

definition set_parent :: "nptr \<Rightarrow> nptr option \<Rightarrow> node_heap \<Rightarrow> node_heap" where
  "set_parent n v h = h(n := (h n)\<lparr>n_parent := v\<rparr>)"

definition set_kids :: "nptr \<Rightarrow> nptr option \<Rightarrow> node_heap \<Rightarrow> node_heap" where
  "set_kids n v h = h(n := (h n)\<lparr>n_kids := v\<rparr>)"

definition set_prev :: "nptr \<Rightarrow> nptr option \<Rightarrow> node_heap \<Rightarrow> node_heap" where
  "set_prev n v h = h(n := (h n)\<lparr>n_prev := v\<rparr>)"

definition set_next :: "nptr \<Rightarrow> nptr option \<Rightarrow> node_heap \<Rightarrow> node_heap" where
  "set_next n v h = h(n := (h n)\<lparr>n_next := v\<rparr>)"

text \<open>The two halves of \<open>setParent\<close>: ``unlink from current parent'' and ``link to new parent''.\<close>

definition unlinkNode :: "nptr \<Rightarrow> node_heap \<Rightarrow> node_heap" where
  "unlinkNode n h =
     (case n_parent (h n) of
        None \<Rightarrow> h
      | Some parent \<Rightarrow>
          let h1 = (case n_prev (h n) of
                      None \<Rightarrow> set_kids parent (n_next (h n)) h
                    | Some p \<Rightarrow> set_next p (n_next (h n)) h)
          in case n_next (h1 n) of
               None \<Rightarrow> h1
             | Some x \<Rightarrow> set_prev x (n_prev (h1 n)) h1)"

definition linkNode :: "nptr \<Rightarrow> nptr option \<Rightarrow> node_heap \<Rightarrow> node_heap" where
  "linkNode n parent h =
     (let h1 = set_parent n parent h
      in case parent of
           None \<Rightarrow> set_prev n None (set_next n None h1)
         | Some q \<Rightarrow>
             let h2 = set_prev n None (set_next n (n_kids (h1 q)) h1);
                 h3 = (case n_next (h2 n) of None \<Rightarrow> h2 | Some x \<Rightarrow> set_prev x (Some n) h2)
             in set_kids q (Some n) h3)"

definition setParent :: "nptr \<Rightarrow> nptr option \<Rightarrow> node_heap \<Rightarrow> go_panic + node_heap" where
  "setParent n parent h =
     (if parent = Some n then Inl (Panic ''setParent to self'')
      else if n_parent (h n) = parent then Inr h
      else Inr (linkNode n parent (unlinkNode n h)))"

text \<open>The loop of \<open>addBytes\<close> up the parent chain.\<close>

fun addSubtreeBytes :: "nat \<Rightarrow> nptr option \<Rightarrow> i64 \<Rightarrow> node_heap \<Rightarrow> go_panic + node_heap" where
  "addSubtreeBytes 0 n b h = Inl OutOfFuel"
| "addSubtreeBytes (Suc fuel) None b h = Inr h"
| "addSubtreeBytes (Suc fuel) (Some n) b h =
     (let h' = h(n := (h n)\<lparr>n_subtreeBytes := n_subtreeBytes (h n) + b\<rparr>)
      in addSubtreeBytes fuel (n_parent (h' n)) b h')"

definition addBytes :: "nat \<Rightarrow> nptr \<Rightarrow> i64 \<Rightarrow> node_heap \<Rightarrow> go_panic + node_heap" where
  "addBytes fuel n b h =
     addSubtreeBytes fuel (Some n) b (h(n := (h n)\<lparr>n_bytes := n_bytes (h n) + b\<rparr>))"

text \<open>The loop of \<open>removeNode\<close>, \<open>for k := n.kids; k != nil; k = k.next\<close>: \<open>k.next\<close> is read after
  \<open>k.setParent\<close> has changed it.\<close>

fun removeKids :: "nat \<Rightarrow> nptr \<Rightarrow> nptr option \<Rightarrow> node_heap \<Rightarrow> go_panic + node_heap" where
  "removeKids 0 n k h = Inl OutOfFuel"
| "removeKids (Suc fuel) n None h = Inr h"
| "removeKids (Suc fuel) n (Some k) h =
     bindE (setParent k (n_parent (h n)) h) (\<lambda>h'. removeKids fuel n (n_next (h' k)) h')"

text \<open>The loop of \<open>AdjustStream\<close> that looks for \<open>n\<close> among the ancestors of \<open>parent\<close>.\<close>

fun hasAncestor :: "nat \<Rightarrow> nptr \<Rightarrow> nptr option \<Rightarrow> node_heap \<Rightarrow> go_panic + bool" where
  "hasAncestor 0 n x h = Inl OutOfFuel"
| "hasAncestor (Suc fuel) n None h = Inr False"
| "hasAncestor (Suc fuel) n (Some x) h =
     (if x = n then Inr True else hasAncestor fuel n (n_parent (h x)) h)"

text \<open>The loop of \<open>AdjustStream\<close> for the exclusive flag: it saves \<open>k.next\<close> before it moves \<open>k\<close>.\<close>

fun adoptKids :: "nat \<Rightarrow> nptr \<Rightarrow> nptr option \<Rightarrow> node_heap \<Rightarrow> go_panic + node_heap" where
  "adoptKids 0 n k h = Inl OutOfFuel"
| "adoptKids (Suc fuel) n None h = Inr h"
| "adoptKids (Suc fuel) n (Some k) h =
     (let next = n_next (h k)
      in bindE (if k \<noteq> n then setParent k (Some n) h else Inr h) (\<lambda>h'. adoptKids fuel n next h'))"

text \<open>The loop of \<open>walkReadyInOrder\<close> that takes the kids off \<open>n\<close> before sorting them, and the one that
  puts them back; the second runs over the sorted slice from its end.\<close>

fun detachKids :: "nat \<Rightarrow> nptr \<Rightarrow> nptr list \<Rightarrow> node_heap \<Rightarrow> go_panic + nptr list \<times> node_heap" where
  "detachKids 0 n tmp h = Inl OutOfFuel"
| "detachKids (Suc fuel) n tmp h =
     (case n_kids (h n) of
        None \<Rightarrow> Inr (tmp, h)
      | Some k \<Rightarrow> bindE (setParent k None h) (\<lambda>h'. detachKids fuel n (tmp @ [k]) h'))"

fun attachKids :: "nptr \<Rightarrow> nptr list \<Rightarrow> node_heap \<Rightarrow> go_panic + node_heap" where
  "attachKids n [] h = Inr h"
| "attachKids n (k # ks) h = bindE (attachKids n ks h) (setParent k (Some n))"

text \<open>The loop of \<open>walkReadyInOrder\<close> that decides whether the kids need sorting.\<close>

fun differentWeight :: "nat \<Rightarrow> u8 \<Rightarrow> nptr option \<Rightarrow> node_heap \<Rightarrow> go_panic + bool" where
  "differentWeight 0 w k h = Inl OutOfFuel"
| "differentWeight (Suc fuel) w None h = Inr False"
| "differentWeight (Suc fuel) w (Some k) h =
     (if n_weight (h k) \<noteq> w then Inr True else differentWeight fuel w (n_next (h k)) h)"

subsection \<open>Sibling lists\<close>

text \<open>The neighbours of an element in a list.\<close>

fun after :: "'a list \<Rightarrow> 'a \<Rightarrow> 'a option" where
  "after (y # z # zs) x = (if x = y then Some z else after (z # zs) x)"
| "after _ x = None"

fun before :: "'a list \<Rightarrow> 'a \<Rightarrow> 'a option" where
  "before (y # z # zs) x = (if x = z then Some y else before (z # zs) x)"
| "before _ x = None"

fun hd_opt :: "'a list \<Rightarrow> 'a option" where
  "hd_opt [] = None"
| "hd_opt (x # _) = Some x"

definition last_opt :: "'a list \<Rightarrow> 'a option" where
  "last_opt xs = hd_opt (rev xs)"

definition parents :: "node_heap \<Rightarrow> nat \<Rightarrow> nptr \<Rightarrow> nptr option" where
  "parents h N x = (if x < N then n_parent (h x) else None)"

definition up :: "(nptr \<Rightarrow> nptr option) \<Rightarrow> (nptr \<times> nptr) set" where
  "up P = {(p, x). P x = Some p}"

definition siblings :: "node_heap \<Rightarrow> nptr \<Rightarrow> nptr list \<Rightarrow> bool" where
  "siblings h p L \<longleftrightarrow> distinct L \<and> n_kids (h p) = hd_opt L \<and>
     (\<forall>x \<in> set L. n_next (h x) = after L x \<and> n_prev (h x) = before L x)"

definition links :: "node_heap \<Rightarrow> (nptr \<Rightarrow> nptr list) \<Rightarrow> nat \<Rightarrow> bool" where
  "links h K N \<longleftrightarrow>
     (\<forall>p < N. siblings h p (K p)) \<and>
     (\<forall>p < N. \<forall>x. x \<in> set (K p) \<longleftrightarrow> x < N \<and> n_parent (h x) = Some p) \<and>
     (\<forall>x < N. \<forall>p. n_parent (h x) = Some p \<longrightarrow> p < N) \<and>
     (\<forall>x < N. n_parent (h x) = None \<longrightarrow> n_next (h x) = None \<and> n_prev (h x) = None)"

definition forest :: "node_heap \<Rightarrow> (nptr \<Rightarrow> nptr list) \<Rightarrow> nat \<Rightarrow> bool" where
  "forest h K N \<longleftrightarrow> links h K N \<and> wf (up (parents h N))"

text \<open>What \<open>setParent\<close> does to the lists of kids: the node leaves the list it is in and becomes the
  head of the list of its new parent.\<close>

definition move_kid :: "nptr \<Rightarrow> nptr option \<Rightarrow> (nptr \<Rightarrow> nptr list) \<Rightarrow> nptr \<Rightarrow> nptr list" where
  "move_kid n parent K p = (if parent = Some p then n # remove1 n (K p) else remove1 n (K p))"

text \<open>Everything of a node but its links.\<close>

definition payload :: "priorityNode \<Rightarrow> writeQueue \<times> u32 \<times> u8 \<times> priorityNodeState \<times> i64 \<times> i64" where
  "payload x = (n_q x, n_id x, n_weight x, n_state x, n_bytes x, n_subtreeBytes x)"

lemma last_opt_snoc [simp]: "last_opt (xs @ [x]) = Some x"
  by (simp add: last_opt_def)

lemma last_opt_Nil [simp]: "last_opt [] = None"
  by (simp add: last_opt_def)

lemma hd_opt_append [simp]: "hd_opt (xs @ ys) = (case hd_opt xs of None \<Rightarrow> hd_opt ys | Some x \<Rightarrow> Some x)"
  by (cases xs) auto

lemma hd_opt_None [simp]: "hd_opt xs = None \<longleftrightarrow> xs = []"
  by (cases xs) auto

lemma last_opt_None [simp]: "last_opt xs = None \<longleftrightarrow> xs = []"
  by (simp add: last_opt_def)

lemma hd_opt_in: "hd_opt xs = Some x \<Longrightarrow> x \<in> set xs"
  by (cases xs) auto

lemma last_opt_in: "last_opt xs = Some x \<Longrightarrow> x \<in> set xs"
  by (auto simp: last_opt_def dest: hd_opt_in)

lemma last_opt_Cons [simp]: "last_opt (x # y # zs) = last_opt (y # zs)"
  by (simp add: last_opt_def split: option.splits)

lemma last_opt_single [simp]: "last_opt [x] = Some x"
  by (simp add: last_opt_def)

lemma after_middle: "x \<notin> set xs \<Longrightarrow> after (xs @ x # ys) x = hd_opt ys"
  by (induction xs rule: induct_list012) (cases ys; auto)+

lemma before_notin: "x \<notin> set L \<Longrightarrow> before L x = None"
  by (induction L x rule: before.induct) auto

lemma before_hd: "x \<notin> set ys \<Longrightarrow> before (x # ys) x = None"
  by (cases ys) (auto simp: before_notin)

lemma before_middle: "x \<notin> set xs \<Longrightarrow> x \<notin> set ys \<Longrightarrow> before (xs @ x # ys) x = last_opt xs"
  by (induction xs rule: induct_list012) (auto simp: before_hd)

lemma after_remove:
  "distinct (xs @ n # ys) \<Longrightarrow> x \<in> set (xs @ ys) \<Longrightarrow>
     after (xs @ ys) x = (if last_opt xs = Some x then hd_opt ys else after (xs @ n # ys) x)"
proof (induction xs rule: induct_list012)
  case 1
  then show ?case by (cases ys) auto
next
  case (2 a)
  then show ?case by (cases ys) auto
next
  case (3 a b zs)
  then show ?case by (auto dest: last_opt_in)
qed

lemma before_remove:
  "distinct (xs @ n # ys) \<Longrightarrow> x \<in> set (xs @ ys) \<Longrightarrow>
     before (xs @ ys) x = (if hd_opt ys = Some x then last_opt xs else before (xs @ n # ys) x)"
proof (induction xs rule: induct_list012)
  case 1
  then show ?case by (cases ys) (auto simp: before_hd)
next
  case (2 a)
  then show ?case by (cases ys) auto
next
  case (3 a b zs)
  then show ?case by (auto simp: before_notin dest: hd_opt_in)
qed

lemma after_Cons: "x \<noteq> n \<Longrightarrow> after (n # L) x = after L x"
  by (cases L) auto

lemma after_Cons_self: "after (n # L) n = hd_opt L"
  by (cases L) auto

lemma before_Cons: "x \<noteq> n \<Longrightarrow> before (n # L) x = (if hd_opt L = Some x then Some n else before L x)"
  by (cases L) auto

subsection \<open>\<open>setParent\<close> on the lists of kids\<close>

lemmas set_link_defs = set_parent_def set_kids_def set_prev_def set_next_def

lemma set_link_fields [simp]:
  "n_parent (set_parent m v h x) = (if x = m then v else n_parent (h x))"
  "n_kids (set_parent m v h x) = n_kids (h x)"
  "n_prev (set_parent m v h x) = n_prev (h x)"
  "n_next (set_parent m v h x) = n_next (h x)"
  "payload (set_parent m v h x) = payload (h x)"
  "n_parent (set_kids m v h x) = n_parent (h x)"
  "n_kids (set_kids m v h x) = (if x = m then v else n_kids (h x))"
  "n_prev (set_kids m v h x) = n_prev (h x)"
  "n_next (set_kids m v h x) = n_next (h x)"
  "payload (set_kids m v h x) = payload (h x)"
  "n_parent (set_prev m v h x) = n_parent (h x)"
  "n_kids (set_prev m v h x) = n_kids (h x)"
  "n_prev (set_prev m v h x) = (if x = m then v else n_prev (h x))"
  "n_next (set_prev m v h x) = n_next (h x)"
  "payload (set_prev m v h x) = payload (h x)"
  "n_parent (set_next m v h x) = n_parent (h x)"
  "n_kids (set_next m v h x) = n_kids (h x)"
  "n_prev (set_next m v h x) = n_prev (h x)"
  "n_next (set_next m v h x) = (if x = m then v else n_next (h x))"
  "payload (set_next m v h x) = payload (h x)"
  by (simp_all add: set_link_defs payload_def)

lemma unlinkNode_fields:
  "n_parent (unlinkNode n h x) = n_parent (h x)"
  "payload (unlinkNode n h x) = payload (h x)"
  "n_kids (unlinkNode n h x) =
     (if n_parent (h n) = Some x \<and> n_prev (h n) = None then n_next (h n) else n_kids (h x))"
  "n_prev (h n) \<noteq> Some n \<Longrightarrow> n_next (unlinkNode n h x) =
     (if n_parent (h n) \<noteq> None \<and> n_prev (h n) = Some x then n_next (h n) else n_next (h x))"
  "n_prev (h n) \<noteq> Some n \<Longrightarrow> n_prev (unlinkNode n h x) =
     (if n_parent (h n) \<noteq> None \<and> n_next (h n) = Some x then n_prev (h n) else n_prev (h x))"
  by (simp_all add: unlinkNode_def Let_def split: option.splits)

lemma linkNode_fields:
  "n_parent (linkNode n parent h x) = (if x = n then parent else n_parent (h x))"
  "payload (linkNode n parent h x) = payload (h x)"
  "n_kids (linkNode n parent h x) = (if parent = Some x then Some n else n_kids (h x))"
  "n_next (linkNode n parent h x) =
     (if x = n then case parent of None \<Rightarrow> None | Some q \<Rightarrow> n_kids (h q) else n_next (h x))"
  "n_prev (linkNode n parent h x) =
     (case parent of None \<Rightarrow> if x = n then None else n_prev (h x)
      | Some q \<Rightarrow> if n_kids (h q) = Some x then Some n else if x = n then None else n_prev (h x))"
  by (simp_all add: linkNode_def Let_def split: option.splits)

lemma linkNode_unlinked: "linkNode n parent (linkNode n None h) = linkNode n parent h"
  by (auto simp: linkNode_def set_link_defs Let_def fun_eq_iff split: option.splits)

lemma siblings_neighbours:
  assumes "siblings h q (xs @ n # ys)"
  shows "n_prev (h n) = last_opt xs" "n_next (h n) = hd_opt ys" "last_opt xs \<noteq> Some n"
  using assms by (auto simp: siblings_def after_middle before_middle dest: last_opt_in)

lemma linksD:
  assumes "links h K N"
  shows "p < N \<Longrightarrow> siblings h p (K p)"
    and "p < N \<Longrightarrow> x \<in> set (K p) \<longleftrightarrow> x < N \<and> n_parent (h x) = Some p"
    and "x < N \<Longrightarrow> n_parent (h x) = Some p \<Longrightarrow> p < N"
    and "x < N \<Longrightarrow> n_parent (h x) = None \<Longrightarrow> n_next (h x) = None \<and> n_prev (h x) = None"
  using assms by (auto simp: links_def)

lemma siblings_unlink:
  assumes "siblings h q (xs @ n # ys)" "n_parent (h n) = Some q"
  shows "siblings (linkNode n None (unlinkNode n h)) q (xs @ ys)"
proof -
  note nb = siblings_neighbours [OF assms(1)]
  have d: "distinct (xs @ n # ys)" using assms(1) by (simp add: siblings_def)
  have kids: "n_kids (h q) = hd_opt (xs @ n # ys)" using assms(1) by (simp add: siblings_def)
  have "x \<in> set (xs @ ys) \<Longrightarrow> n_next (h x) = after (xs @ n # ys) x \<and> n_prev (h x) = before (xs @ n # ys) x
          \<and> x \<noteq> n" for x
    using assms(1) d by (auto simp: siblings_def)
  then show ?thesis
    unfolding siblings_def
    using assms(2) d nb kids after_remove [OF d] before_remove [OF d]
    by (simp add: linkNode_fields unlinkNode_fields split: option.splits)
qed

lemma siblings_unlink_other:
  assumes "siblings h q (xs @ n # ys)" "n_parent (h n) = Some q" "siblings h p L" "p \<noteq> q"
    and "set L \<inter> set (xs @ n # ys) = {}"
  shows "siblings (linkNode n None (unlinkNode n h)) p L"
proof -
  note nb = siblings_neighbours [OF assms(1)]
  have "x \<in> set L \<Longrightarrow> x \<noteq> n \<and> last_opt xs \<noteq> Some x \<and> hd_opt ys \<noteq> Some x" for x
    using assms(5) by (auto dest: last_opt_in hd_opt_in)
  then show ?thesis
    using assms nb by (auto simp: siblings_def linkNode_fields unlinkNode_fields)
qed

lemma unlink_orphan:
  assumes "n_parent (h n) = None" "n_next (h n) = None" "n_prev (h n) = None"
  shows "linkNode n None (unlinkNode n h) = h"
  using assms by (auto simp: unlinkNode_def linkNode_def Let_def set_link_defs fun_eq_iff)

lemma detach_links:
  assumes "links h K N" "n < N"
  shows "links (linkNode n None (unlinkNode n h)) (move_kid n None K) N" (is "links ?h ?K N")
proof (cases "n_parent (h n)")
  case None
  then have "n \<notin> set (K p)" if "p < N" for p
    using linksD(2) [OF assms(1) that] by simp
  then have "p < N \<Longrightarrow> ?K p = K p" for p by (simp add: move_kid_def remove1_idem)
  moreover have "?h = h"
    using linksD(4) [OF assms] None by (simp add: unlink_orphan)
  ultimately show ?thesis using assms(1) by (simp add: links_def)
next
  case (Some q)
  then have q: "q < N" "n \<in> set (K q)" using linksD(2,3) [OF assms(1)] assms(2) by auto
  then obtain xs ys where K: "K q = xs @ n # ys" by (meson split_list)
  have sib: "siblings h q (xs @ n # ys)" using linksD(1) [OF assms(1) q(1)] K by simp
  then have new: "remove1 n (K q) = xs @ ys" using K by (auto simp: siblings_def remove1_append)
  have disj: "set (K p) \<inter> set (xs @ n # ys) = {}" if "p < N" "p \<noteq> q" for p
  proof -
    have "x \<in> set (K p) \<Longrightarrow> x \<notin> set (K q)" for x
      using linksD(2) [OF assms(1) that(1), of x] linksD(2) [OF assms(1) q(1), of x] that(2) by simp
    then show ?thesis unfolding K by blast
  qed
  then have other: "n \<notin> set (K p)" if "p < N" "p \<noteq> q" for p using that by auto
  have in_q: "x \<in> set xs \<union> set ys \<Longrightarrow> n_parent (h x) = Some q" for x
    using linksD(2) [OF assms(1) q(1), of x] K by auto
  have "siblings ?h p (?K p)" if "p < N" for p
  proof (cases "p = q")
    case True
    then show ?thesis using siblings_unlink [OF sib Some] new by (simp add: move_kid_def)
  next
    case False
    then show ?thesis
      using siblings_unlink_other [OF sib Some linksD(1) [OF assms(1) that] False disj [OF that False]] other that
      by (simp add: move_kid_def remove1_idem)
  qed
  moreover have "x \<in> set (?K p) \<longleftrightarrow> x < N \<and> n_parent (?h x) = Some p" if "p < N" for p x
    using linksD(1,2) [OF assms(1) that] by (auto simp: move_kid_def linkNode_fields unlinkNode_fields siblings_def)
  moreover have "x < N \<Longrightarrow> n_parent (?h x) = None \<Longrightarrow> n_next (?h x) = None \<and> n_prev (?h x) = None" for x
    using linksD(4) [OF assms(1)] siblings_neighbours [OF sib] in_q Some
    by (auto simp: linkNode_fields unlinkNode_fields dest: last_opt_in hd_opt_in)
  ultimately show ?thesis
    using linksD(3) [OF assms(1)] by (auto simp: links_def linkNode_fields unlinkNode_fields split: if_splits)
qed

lemma siblings_link:
  assumes "siblings h q L" "n \<notin> set L"
  shows "siblings (linkNode n (Some q) h) q (n # L)"
  using assms by (auto simp: siblings_def linkNode_fields after_Cons after_Cons_self before_Cons before_hd
      dest: hd_opt_in)

lemma attach_links:
  assumes "links h K N" "n < N" "q < N" "n_parent (h n) = None"
  shows "links (linkNode n (Some q) h) (move_kid n (Some q) K) N" (is "links ?h ?K N")
proof -
  have n: "n \<notin> set (K p)" if "p < N" for p
    using linksD(2) [OF assms(1) that] assms(4) by auto
  then have K: "?K p = (if p = q then n # K p else K p)" if "p < N" for p
    using that by (simp add: move_kid_def remove1_idem)
  have sq: "siblings h q (K q)" using linksD(1) [OF assms(1,3)] .
  have hd: "n_kids (h q) = Some x \<Longrightarrow> n_parent (h x) = Some q \<and> x < N" for x
    using sq linksD(2) [OF assms(1,3), of x] hd_opt_in [of "K q" x] by (auto simp: siblings_def)
  have "siblings ?h p (?K p)" if "p < N" for p
  proof (cases "p = q")
    case True
    then show ?thesis using siblings_link [OF sq n] assms(3) K by simp
  next
    case False
    then have "x \<in> set (K p) \<Longrightarrow> n_kids (h q) \<noteq> Some x \<and> x \<noteq> n" for x
      using hd n [OF that] linksD(2) [OF assms(1) that, of x] by auto
    then show ?thesis
      using linksD(1) [OF assms(1) that] K [OF that] False by (auto simp: siblings_def linkNode_fields)
  qed
  moreover have "x \<in> set (?K p) \<longleftrightarrow> x < N \<and> n_parent (?h x) = Some p" if "p < N" for p x
    using linksD(2) [OF assms(1) that, of x] K [OF that] assms(2,4) by (auto simp: linkNode_fields)
  moreover have "x < N \<Longrightarrow> n_parent (?h x) = None \<Longrightarrow> n_next (?h x) = None \<and> n_prev (?h x) = None" for x
    using linksD(4) [OF assms(1)] hd by (auto simp: linkNode_fields split: if_splits)
  moreover have "x < N \<Longrightarrow> n_parent (?h x) = Some p \<Longrightarrow> p < N" for x p
    using linksD(3) [OF assms(1)] assms(3) by (auto simp: linkNode_fields split: if_splits)
  ultimately show ?thesis by (auto simp: links_def)
qed

lemma links_cong: "(\<And>p. p < N \<Longrightarrow> K p = K' p) \<Longrightarrow> links h K N \<longleftrightarrow> links h K' N"
  by (simp add: links_def)

lemma links_eqI: "links h K N \<Longrightarrow> (\<And>p. p < N \<Longrightarrow> K p = K' p) \<Longrightarrow> links h K' N"
  by (simp add: links_def)

definition same_payload :: "node_heap \<Rightarrow> node_heap \<Rightarrow> bool" where
  "same_payload h h' \<longleftrightarrow> (\<forall>x. payload (h' x) = payload (h x))"

lemma same_payloadD:
  assumes "same_payload h h'"
  shows "n_q (h' x) = n_q (h x)" "n_id (h' x) = n_id (h x)" "n_weight (h' x) = n_weight (h x)"
    "n_state (h' x) = n_state (h x)" "n_bytes (h' x) = n_bytes (h x)"
    "n_subtreeBytes (h' x) = n_subtreeBytes (h x)"
  using assms by (auto simp: same_payload_def payload_def)

lemma same_payload_refl [simp, intro]: "same_payload h h"
  by (simp add: same_payload_def)

lemma same_payload_trans [trans]: "same_payload h h' \<Longrightarrow> same_payload h' h'' \<Longrightarrow> same_payload h h''"
  by (simp add: same_payload_def)

lemma setParent_links:
  assumes "links h K N" "n < N" "parent \<noteq> Some n" "\<And>q. parent = Some q \<Longrightarrow> q < N"
  obtains h' where "setParent n parent h = Inr h'"
    and "links h' (if n_parent (h n) = parent then K else move_kid n parent K) N"
    and "\<And>x. n_parent (h' x) = (if x = n then parent else n_parent (h x))"
    and "same_payload h h'"
proof (cases "n_parent (h n) = parent")
  case True
  then show ?thesis using assms(1,3) by (intro that [of h]) (auto simp: setParent_def)
next
  case False
  define h1 where "h1 = linkNode n None (unlinkNode n h)"
  have h1: "links h1 (move_kid n None K) N" unfolding h1_def by (rule detach_links [OF assms(1,2)])
  have par1: "n_parent (h1 x) = (if x = n then None else n_parent (h x))" for x
    by (simp add: h1_def linkNode_fields unlinkNode_fields)
  have eq: "setParent n parent h = Inr (linkNode n parent h1)"
    using False assms(3) by (simp add: setParent_def h1_def linkNode_unlinked)
  have "links (linkNode n parent h1) (move_kid n parent K) N"
  proof (cases parent)
    case None
    then show ?thesis using h1 by (simp add: h1_def linkNode_unlinked)
  next
    case (Some q)
    have "distinct (K p)" if "p < N" for p
      using linksD(1) [OF assms(1) that] by (simp add: siblings_def)
    then have "p < N \<Longrightarrow> move_kid n (Some q) (move_kid n None K) p = move_kid n (Some q) K p" for p
      by (simp add: move_kid_def remove1_idem distinct_remove1)
    then show ?thesis
      using attach_links [OF h1 assms(2) assms(4) [OF Some]] par1 [of n] unfolding Some
      by (simp cong: links_cong)
  qed
  moreover have "same_payload h (linkNode n parent h1)"
    by (simp add: same_payload_def h1_def linkNode_fields unlinkNode_fields)
  ultimately show ?thesis
    using False by (intro that [OF eq]) (simp_all add: linkNode_fields par1)
qed

subsection \<open>Chains of parents end\<close>

lemma up_iff: "(p, x) \<in> up P \<longleftrightarrow> P x = Some p"
  by (simp add: up_def)

lemma wf_reparent:
  assumes wf: "wf (up P)"
    and P': "\<And>x. P' x = (if x = n then Some q else if x \<in> A then Some n else P x)"
    and above: "\<And>a. a = n \<or> a \<in> A \<Longrightarrow> (a, q) \<notin> (up P)\<^sup>*"
  shows "wf (up P')"
proof -
  have ind: "x \<in> Wellfounded.acc (up P')" if "\<And>p. P' x = Some p \<Longrightarrow> p \<in> Wellfounded.acc (up P')" for x
    by (rule accI) (use that in \<open>auto simp: up_def\<close>)
  have "(a, q) \<in> (up P)\<^sup>* \<longrightarrow> a \<in> Wellfounded.acc (up P')" for a
  proof (induction a rule: wf_induct [OF wf])
    case (1 a)
    show ?case
    proof
      assume a: "(a, q) \<in> (up P)\<^sup>*"
      show "a \<in> Wellfounded.acc (up P')"
      proof (rule ind)
        fix p assume "P' a = Some p"
        with a above have "(p, a) \<in> up P" by (auto simp: P' up_def split: if_splits)
        then show "p \<in> Wellfounded.acc (up P')"
          using 1 converse_rtrancl_into_rtrancl [OF _ a] by blast
      qed
    qed
  qed
  then have q: "q \<in> Wellfounded.acc (up P')" by simp
  have n: "n \<in> Wellfounded.acc (up P')" by (rule ind) (use q in \<open>simp add: P'\<close>)
  have "x \<in> Wellfounded.acc (up P')" for x
  proof (induction x rule: wf_induct [OF wf])
    case (1 x)
    show ?case by (rule ind) (use 1 n q P' [of x] in \<open>auto simp: up_iff split: if_splits\<close>)
  qed
  then show ?thesis by (simp add: wf_iff_acc)
qed

lemma wf_unparent: "wf (up P) \<Longrightarrow> wf (up (P(n := None)))"
  by (erule wf_subset) (auto simp: up_def split: if_splits)

lemma parents_set:
  assumes "n < N" "\<And>x. n_parent (h' x) = (if x = n then parent else n_parent (h x))"
  shows "parents h' N = (parents h N)(n := parent)"
  using assms by (auto simp: parents_def fun_eq_iff)

lemma forest_setParent:
  assumes "forest h K N" "n < N" "\<And>q. parent = Some q \<Longrightarrow> q < N \<and> (n, q) \<notin> (up (parents h N))\<^sup>*"
  obtains h' where "setParent n parent h = Inr h'"
    and "forest h' (if n_parent (h n) = parent then K else move_kid n parent K) N"
    and "\<And>x. n_parent (h' x) = (if x = n then parent else n_parent (h x))"
    and "same_payload h h'"
proof -
  have links: "links h K N" and wf: "wf (up (parents h N))" using assms(1) by (auto simp: forest_def)
  have self: "parent \<noteq> Some n" using assms(3) by blast
  obtain h' where h': "setParent n parent h = Inr h'"
      "links h' (if n_parent (h n) = parent then K else move_kid n parent K) N"
      "\<And>x. n_parent (h' x) = (if x = n then parent else n_parent (h x))" "same_payload h h'"
    using setParent_links [OF links assms(2) self] assms(3) by metis
  have "wf (up ((parents h N)(n := parent)))"
  proof (cases parent)
    case None
    then show ?thesis using wf_unparent [OF wf] by simp
  next
    case (Some q)
    then show ?thesis
      using assms(3) by (intro wf_reparent [OF wf, of _ n q "{}"]) auto
  qed
  then show ?thesis using that [OF h'(1)] h' parents_set [OF assms(2) h'(3)] by (simp add: forest_def)
qed

lemma forestD:
  assumes "forest h K N"
  shows "links h K N" "wf (up (parents h N))" "acyclic (up (parents h N))"
    "(x, y) \<in> up (parents h N) \<longleftrightarrow> y < N \<and> n_parent (h y) = Some x"
    "(x, y) \<in> (up (parents h N))\<^sup>+ \<Longrightarrow> x < N \<and> y < N"
proof -
  show l: "links h K N" and "wf (up (parents h N))" using assms by (auto simp: forest_def)
  then show "acyclic (up (parents h N))" by (simp add: wf_acyclic)
  show "(x, y) \<in> up (parents h N) \<longleftrightarrow> y < N \<and> n_parent (h y) = Some x"
    by (auto simp: up_def parents_def split: if_splits)
  show "(x, y) \<in> (up (parents h N))\<^sup>+ \<Longrightarrow> x < N \<and> y < N"
    by (induction rule: trancl_induct) (auto simp: up_def parents_def linksD(3) [OF l] split: if_splits)
qed

text \<open>The number of proper ancestors of a node bounds the length of a walk up the tree.\<close>

definition depth :: "(nptr \<Rightarrow> nptr option) \<Rightarrow> nptr \<Rightarrow> nat" where
  "depth P x = card {a. (a, x) \<in> (up P)\<^sup>+}"

lemma depth_parent:
  assumes "forest h K N" "x < N" "n_parent (h x) = Some p"
  shows "depth (parents h N) p < depth (parents h N) x"
  unfolding depth_def
proof (rule psubset_card_mono)
  have px: "(p, x) \<in> up (parents h N)" using assms forestD(4) by blast
  show "finite {a. (a, x) \<in> (up (parents h N))\<^sup>+}"
    by (rule finite_subset [of _ "{..<N}"]) (use forestD(5) [OF assms(1)] in auto)
  show "{a. (a, p) \<in> (up (parents h N))\<^sup>+} \<subset> {a. (a, x) \<in> (up (parents h N))\<^sup>+}"
    using px forestD(3) [OF assms(1)] by (auto simp: acyclic_def intro: trancl_into_trancl)
qed

lemma depth_less:
  assumes "forest h K N" "x < N"
  shows "depth (parents h N) x < N"
proof -
  have "{a. (a, x) \<in> (up (parents h N))\<^sup>+} \<subset> {..<N}"
    using forestD(3,5) [OF assms(1)] assms(2) by (auto simp: acyclic_def)
  then show ?thesis unfolding depth_def using psubset_card_mono [of "{..<N}"] by (metis card_lessThan finite_lessThan)
qed

subsection \<open>Walks up the tree\<close>

text \<open>An update that touches no link keeps a forest.\<close>

definition same_links :: "node_heap \<Rightarrow> node_heap \<Rightarrow> bool" where
  "same_links h h' \<longleftrightarrow> (\<forall>x. n_parent (h' x) = n_parent (h x) \<and> n_kids (h' x) = n_kids (h x) \<and>
     n_prev (h' x) = n_prev (h x) \<and> n_next (h' x) = n_next (h x))"

lemma same_links_parents: "same_links h h' \<Longrightarrow> parents h' N = parents h N"
  by (simp add: same_links_def parents_def fun_eq_iff)

lemma forest_same_links: "same_links h h' \<Longrightarrow> forest h' K N \<longleftrightarrow> forest h K N"
  using same_links_parents [of h h' N] by (simp add: same_links_def forest_def links_def siblings_def)

lemma same_links_trans: "same_links h h' \<Longrightarrow> same_links h' h'' \<Longrightarrow> same_links h h''"
  by (simp add: same_links_def)

lemma hasAncestor_correct:
  assumes "forest h K N" "x < N" "depth (parents h N) x < fuel"
  shows "hasAncestor (Suc fuel) n (Some x) h = Inr ((n, x) \<in> (up (parents h N))\<^sup>*)"
  using assms(2,3)
proof (induction fuel arbitrary: x)
  case (Suc fuel)
  show ?case
  proof (cases "x = n \<or> n_parent (h x) = None")
    case True
    have "(n, x) \<in> (up (parents h N))\<^sup>* \<Longrightarrow> n_parent (h x) = None \<Longrightarrow> n = x"
      by (erule rtranclE) (auto simp: forestD(4) [OF assms(1)])
    with True show ?thesis by auto
  next
    case False
    then obtain p where p: "n_parent (h x) = Some p" "x \<noteq> n" by auto
    have "p < N" using linksD(3) [OF forestD(1) [OF assms(1)] Suc.prems(1) p(1)] .
    then have "hasAncestor (Suc fuel) n (Some p) h = Inr ((n, p) \<in> (up (parents h N))\<^sup>*)"
      using Suc depth_parent [OF assms(1) Suc.prems(1) p(1)] by simp
    moreover have "(n, x) \<in> (up (parents h N))\<^sup>* \<longleftrightarrow> (n, p) \<in> (up (parents h N))\<^sup>*"
      using p Suc.prems(1) by (auto simp: forestD(4) [OF assms(1)] elim: rtranclE intro: rtrancl_into_rtrancl)
    ultimately show ?thesis using p by simp
  qed
qed simp

lemma addSubtreeBytes_correct:
  assumes "forest h K N" "x < N" "depth (parents h N) x < fuel"
  shows "addSubtreeBytes (Suc fuel) (Some x) b h =
    Inr (\<lambda>y. if (y, x) \<in> (up (parents h N))\<^sup>* then (h y)\<lparr>n_subtreeBytes := n_subtreeBytes (h y) + b\<rparr> else h y)"
  using assms
proof (induction fuel arbitrary: x h)
  case (Suc fuel)
  define h1 where "h1 = h(x := (h x)\<lparr>n_subtreeBytes := n_subtreeBytes (h x) + b\<rparr>)"
  have sl: "same_links h h1" by (simp add: same_links_def h1_def)
  have step: "addSubtreeBytes (Suc (Suc fuel)) (Some x) b h = addSubtreeBytes (Suc fuel) (n_parent (h x)) b h1"
    by (simp add: h1_def)
  have R: "(y, x) \<in> (up (parents h N))\<^sup>* \<longleftrightarrow> y = x \<or> (\<exists>p. n_parent (h x) = Some p \<and> (y, p) \<in> (up (parents h N))\<^sup>*)"
    for y using Suc.prems(2) by (auto simp: forestD(4) [OF Suc.prems(1)] elim: rtranclE intro: rtrancl_into_rtrancl)
  show ?case
  proof (cases "n_parent (h x)")
    case None
    then show ?thesis unfolding step using R by (simp add: fun_eq_iff h1_def)
  next
    case (Some p)
    have p: "p < N" using linksD(3) [OF forestD(1) [OF Suc.prems(1)] Suc.prems(2) Some] .
    have "(x, p) \<notin> (up (parents h N))\<^sup>*"
      using forestD(3) [OF Suc.prems(1)] Suc.prems(2) Some
      by (meson acyclic_def forestD(4) [OF Suc.prems(1)] rtrancl_into_trancl1)
    moreover have "addSubtreeBytes (Suc fuel) (Some p) b h1 = Inr (\<lambda>y. if (y, p) \<in> (up (parents h N))\<^sup>*
        then (h1 y)\<lparr>n_subtreeBytes := n_subtreeBytes (h1 y) + b\<rparr> else h1 y)"
      using Suc.IH [of h1 p] Suc.prems depth_parent [OF Suc.prems(1,2) Some] p
      unfolding forest_same_links [OF sl] same_links_parents [OF sl] by linarith
    ultimately show ?thesis
      unfolding step Some using R Some by (auto simp: fun_eq_iff h1_def simp del: addSubtreeBytes.simps)
  qed
qed simp

text \<open>The comment on \<open>subtreeBytes\<close>: the bytes of all nodes in the subtree (in \<open>int64\<close>).\<close>

definition bytes_counted :: "node_heap \<Rightarrow> nat \<Rightarrow> bool" where
  "bytes_counted h N \<longleftrightarrow>
     (\<forall>x < N. n_subtreeBytes (h x) = (\<Sum>y | y < N \<and> (x, y) \<in> (up (parents h N))\<^sup>*. n_bytes (h y)))"

lemma addBytes_correct:
  assumes "forest h K N" "n < N" "N < fuel"
  obtains h' where "addBytes fuel n b h = Inr h'" "same_links h h'"
    and "\<And>x. n_q (h' x) = n_q (h x) \<and> n_id (h' x) = n_id (h x) \<and> n_weight (h' x) = n_weight (h x) \<and>
           n_state (h' x) = n_state (h x) \<and> n_bytes (h' x) = n_bytes (h x) + (if x = n then b else 0) \<and>
           n_subtreeBytes (h' x) = n_subtreeBytes (h x) + (if (x, n) \<in> (up (parents h N))\<^sup>* then b else 0)"
proof -
  define h1 where "h1 = h(n := (h n)\<lparr>n_bytes := n_bytes (h n) + b\<rparr>)"
  have sl: "same_links h h1" by (simp add: same_links_def h1_def)
  obtain fuel' where f: "fuel = Suc fuel'" "depth (parents h N) n < fuel'"
    using assms(3) depth_less [OF assms(1,2)] by (cases fuel) auto
  have "addSubtreeBytes fuel (Some n) b h1 = Inr (\<lambda>y. if (y, n) \<in> (up (parents h N))\<^sup>*
      then (h1 y)\<lparr>n_subtreeBytes := n_subtreeBytes (h1 y) + b\<rparr> else h1 y)"
    using addSubtreeBytes_correct [of h1 K N n fuel' b] assms f
    unfolding forest_same_links [OF sl] same_links_parents [OF sl] by blast
  then show ?thesis
    by (intro that [of "\<lambda>y. if (y, n) \<in> (up (parents h N))\<^sup>*
          then (h1 y)\<lparr>n_subtreeBytes := n_subtreeBytes (h1 y) + b\<rparr> else h1 y"])
      (auto simp: addBytes_def same_links_def h1_def simp del: addSubtreeBytes.simps)
qed

lemma addBytes_counted:
  assumes "forest h K N" "n < N" "N < fuel" "bytes_counted h N" "addBytes fuel n b h = Inr h'"
  shows "bytes_counted h' N"
proof -
  let ?D = "\<lambda>x. {y. y < N \<and> (x, y) \<in> (up (parents h N))\<^sup>*}"
  obtain h'' where h'': "addBytes fuel n b h = Inr h''" "same_links h h''"
      "\<And>x. n_bytes (h'' x) = n_bytes (h x) + (if x = n then b else 0)"
      "\<And>x. n_subtreeBytes (h'' x) = n_subtreeBytes (h x) + (if (x, n) \<in> (up (parents h N))\<^sup>* then b else 0)"
    using addBytes_correct [OF assms(1-3), of b] by metis
  have "(\<Sum>y \<in> ?D x. n_bytes (h y) + (if y = n then b else 0)) =
      (\<Sum>y \<in> ?D x. n_bytes (h y)) + (if (x, n) \<in> (up (parents h N))\<^sup>* then b else 0)" for x
    using assms(2) by (simp add: sum.distrib)
  then show ?thesis
    using assms(4,5) h'' same_links_parents [OF h''(2)] by (simp add: bytes_counted_def)
qed

subsection \<open>Walks along the kids\<close>

lemma links_next:
  assumes "links h K N" "q < N" "K q = us @ x # vs"
  shows "n_next (h x) = hd_opt vs" "n_parent (h x) = Some q" "x < N" "x \<notin> set us"
  using siblings_neighbours(2) [of h q us x vs] linksD(1) [OF assms(1,2)] linksD(2) [OF assms(1,2), of x] assms(3)
  by (auto simp: siblings_def)

lemma links_kids: "links h K N \<Longrightarrow> q < N \<Longrightarrow> n_kids (h q) = hd_opt (K q)"
  by (simp add: links_def siblings_def)

lemma links_length:
  assumes "links h K N" "q < N"
  shows "length (K q) \<le> N"
proof -
  have "set (K q) \<subseteq> {..<N}" "distinct (K q)"
    using linksD(1,2) [OF assms] by (auto simp: siblings_def)
  then show ?thesis using card_mono [of "{..<N}" "set (K q)"] by (simp add: distinct_card)
qed

lemma differentWeight_correct:
  assumes "links h K N" "q < N" "K q = us @ vs" "length vs < fuel"
  shows "differentWeight fuel w (hd_opt vs) h = Inr (\<exists>k \<in> set vs. n_weight (h k) \<noteq> w)"
  using assms(3,4)
proof (induction vs arbitrary: us fuel)
  case Nil
  then show ?case by (cases fuel) auto
next
  case (Cons k vs)
  then obtain fuel' where "fuel = Suc fuel'" "length vs < fuel'" by (cases fuel) auto
  then show ?case
    using Cons.IH [of "us @ [k]" fuel'] Cons.prems(1) links_next(1) [OF assms(1,2) Cons.prems(1)] by auto
qed

lemma removeKids_same_parent:
  assumes "links h K N" "q < N" "n_parent (h n) = Some q" "K q = us @ vs" "length vs < fuel"
    and "n_parent (h q) \<noteq> Some q"
  shows "removeKids fuel n (hd_opt vs) h = Inr h"
  using assms(4,5)
proof (induction vs arbitrary: us fuel)
  case Nil
  then show ?case by (cases fuel) auto
next
  case (Cons k vs)
  then obtain fuel' where f: "fuel = Suc fuel'" "length vs < fuel'" by (cases fuel) auto
  note k = links_next [OF assms(1,2) Cons.prems(1)]
  have "setParent k (Some q) h = Inr h"
    using k(2) assms(6) by (auto simp: setParent_def)
  then show ?case
    using Cons.IH [of "us @ [k]" fuel'] Cons.prems(1) k(1) f assms(3) by (simp add: bindE_def)
qed

lemma forest_not_self: "forest h K N \<Longrightarrow> x < N \<Longrightarrow> n_parent (h x) \<noteq> Some x"
  using forestD(3,4) by (metis acyclic_def r_into_trancl')

lemma removeKids_correct:
  assumes "forest h K N" "n < N"
  obtains h' where "removeKids (N + 2) n (n_kids (h n)) h = Inr h'"
    and "forest h' (case K n of [] \<Rightarrow> K | k # ks \<Rightarrow> move_kid k (n_parent (h n)) K) N"
    and "\<And>x. n_parent (h' x) = (if hd_opt (K n) = Some x then n_parent (h n) else n_parent (h x))"
    and "same_payload h h'"
proof (cases "K n")
  case Nil
  then have "removeKids (N + 2) n (n_kids (h n)) h = Inr h"
    using links_kids [OF forestD(1) [OF assms(1)] assms(2)] by (simp add: numeral_2_eq_2)
  then show ?thesis using that [of h] Nil assms(1) by simp
next
  case (Cons k ks)
  note l = forestD(1) [OF assms(1)]
  have k: "k < N" "n_parent (h k) = Some n"
    using links_next(2,3) [OF l assms(2), of "[]"] Cons by auto
  have kn: "k \<noteq> n" using forest_not_self [OF assms(1) k(1)] k(2) by auto
  have up: "(n, k) \<in> up (parents h N)" using k forestD(4) [OF assms(1)] by blast
  have above: "q < N \<and> (k, q) \<notin> (up (parents h N))\<^sup>*" if "n_parent (h n) = Some q" for q
  proof
    show "q < N" using linksD(3) [OF l assms(2) that] .
    have "(q, n) \<in> up (parents h N)" using that assms(2) forestD(4) [OF assms(1)] by blast
    then have "(q, k) \<in> (up (parents h N))\<^sup>+" using up by auto
    then show "(k, q) \<notin> (up (parents h N))\<^sup>*"
      using forestD(3) [OF assms(1)] by (meson acyclic_def rtrancl_trancl_trancl)
  qed
  obtain h' where h': "setParent k (n_parent (h n)) h = Inr h'"
      "forest h' (if n_parent (h k) = n_parent (h n) then K else move_kid k (n_parent (h n)) K) N"
      "\<And>x. n_parent (h' x) = (if x = k then n_parent (h n) else n_parent (h x))" "same_payload h h'"
    using forest_setParent [OF assms(1) k(1)] above by metis
  have ne: "n_parent (h k) \<noteq> n_parent (h n)" using k(2) forest_not_self [OF assms] by simp
  then have f': "forest h' (move_kid k (n_parent (h n)) K) N" using h'(2) by simp
  have rest: "removeKids (Suc N) n (n_next (h' k)) h' = Inr h'"
  proof (cases "n_parent (h n)")
    case None
    then show ?thesis using linksD(4) [OF forestD(1) [OF f'] k(1)] h'(3) by simp
  next
    case (Some q)
    then have q: "q < N" "q \<noteq> n" using above forest_not_self [OF assms] by auto
    let ?L = "remove1 k (K q)"
    have Kq: "move_kid k (n_parent (h n)) K q = [k] @ ?L" by (simp add: move_kid_def Some)
    have "length (move_kid k (n_parent (h n)) K q) \<le> N" using links_length [OF forestD(1) [OF f'] q(1)] .
    then have "removeKids (Suc N) n (hd_opt ?L) h' = Inr h'"
      using removeKids_same_parent [OF forestD(1) [OF f'] q(1) _ Kq] h'(3) [of n] kn Kq Some
        forest_not_self [OF f' q(1)] by simp
    then show ?thesis using links_next(1) [OF forestD(1) [OF f'] q(1), of "[]" k ?L] Kq by simp
  qed
  have "removeKids (N + 2) n (n_kids (h n)) h = Inr h'"
    using links_kids [OF l assms(2)] Cons h'(1) rest by (simp add: bindE_def numeral_2_eq_2)
  then show ?thesis using that f' h'(3,4) Cons by auto
qed

lemma adoptKids_correct:
  assumes "n < N" "q < N" "n \<noteq> q"
  shows "links h K N \<Longrightarrow> K q = us @ vs \<Longrightarrow> length vs < fuel \<Longrightarrow>
    \<exists>h' K'. adoptKids fuel n (hd_opt vs) h = Inr h' \<and> links h' K' N \<and> same_payload h h' \<and>
      (\<forall>x. n_parent (h' x) = (if x \<in> set vs \<and> x \<noteq> n then Some n else n_parent (h x)))"
proof (induction vs arbitrary: us fuel h K)
  case Nil
  then show ?case by (cases fuel) auto
next
  case (Cons k vs)
  obtain fuel' where f: "fuel = Suc fuel'" "length vs < fuel'" using Cons.prems(3) by (cases fuel) auto
  note k = links_next [OF Cons.prems(1) assms(2) Cons.prems(2)]
  show ?case
  proof (cases "k = n")
    case True
    obtain h' K' where "adoptKids fuel' n (hd_opt vs) h = Inr h'" "links h' K' N" "same_payload h h'"
        "\<forall>x. n_parent (h' x) = (if x \<in> set vs \<and> x \<noteq> n then Some n else n_parent (h x))"
      using Cons.IH [OF Cons.prems(1), of "us @ [k]" fuel'] Cons.prems(2) f(2) by auto
    then show ?thesis using True k(1) f(1) by (auto simp: bindE_def)
  next
    case False
    obtain h1 where h1: "setParent k (Some n) h = Inr h1"
        "links h1 (if n_parent (h k) = Some n then K else move_kid k (Some n) K) N"
        "\<And>x. n_parent (h1 x) = (if x = k then Some n else n_parent (h x))" "same_payload h h1"
      using setParent_links [OF Cons.prems(1) k(3), of "Some n"] False assms(1) by (metis option.inject)
    then have l: "links h1 (move_kid k (Some n) K) N" using k(2) assms(3) by simp
    have "move_kid k (Some n) K q = us @ vs"
      using Cons.prems(2) k(4) assms(3) by (simp add: move_kid_def remove1_append)
    then obtain h' K' where h': "adoptKids fuel' n (hd_opt vs) h1 = Inr h'" "links h' K' N" "same_payload h1 h'"
        "\<forall>x. n_parent (h' x) = (if x \<in> set vs \<and> x \<noteq> n then Some n else n_parent (h1 x))"
      using Cons.IH [OF l _ f(2)] by auto
    have "adoptKids fuel n (hd_opt (k # vs)) h = Inr h'"
      using False k(1) f(1) h1(1) h'(1) by (simp add: bindE_def)
    then show ?thesis using h' h1(3,4) same_payload_trans False by (intro exI [of _ h'] exI [of _ K']) auto
  qed
qed

lemma detachKids_correct:
  assumes "n < N"
  shows "links h K N \<Longrightarrow> n_parent (h n) \<noteq> Some n \<Longrightarrow> length (K n) < fuel \<Longrightarrow>
    \<exists>h'. detachKids fuel n tmp h = Inr (tmp @ K n, h') \<and> same_payload h h' \<and>
      links h' (K(n := [])) N \<and>
      (\<forall>x. n_parent (h' x) = (if x \<in> set (K n) then None else n_parent (h x)))"
proof (induction fuel arbitrary: h K tmp)
  case (Suc fuel)
  show ?case
  proof (cases "K n")
    case Nil
    then have "K(n := []) = K" by auto
    then show ?thesis using Nil Suc.prems(1) links_kids [OF Suc.prems(1) assms] by simp
  next
    case (Cons k ks)
    have "K n = [] @ k # ks" using Cons by simp
    note k = links_next [OF Suc.prems(1) assms this]
    obtain h1 where h1: "setParent k None h = Inr h1"
        "links h1 (if n_parent (h k) = None then K else move_kid k None K) N"
        "\<And>x. n_parent (h1 x) = (if x = k then None else n_parent (h x))" "same_payload h h1"
      using setParent_links [OF Suc.prems(1) k(3), of None] by (metis option.distinct(1))
    have eq: "p < N \<Longrightarrow> move_kid k None K p = (K(n := ks)) p" for p
      using linksD(2) [OF Suc.prems(1), of p k] k Cons by (auto simp: move_kid_def remove1_idem)
    have l: "links h1 (K(n := ks)) N" by (rule links_eqI [OF _ eq]) (use h1(2) k(2) in simp)
    have "n_parent (h1 n) \<noteq> Some n" "length ((K(n := ks)) n) < fuel" using Suc.prems(2,3) h1(3) Cons by auto
    from Suc.IH [OF l this, of "tmp @ [k]"]
    obtain h' where "detachKids fuel n (tmp @ [k]) h1 = Inr (tmp @ [k] @ ks, h')" "same_payload h1 h'"
        "links h' (K(n := [])) N" "\<forall>x. n_parent (h' x) = (if x \<in> set ks then None else n_parent (h1 x))"
      unfolding fun_upd_upd fun_upd_same append_assoc by metis
    then show ?thesis
      using Cons h1 links_kids [OF Suc.prems(1) assms] same_payload_trans
      by (intro exI [of _ h'] conjI) (auto simp: bindE_def simp del: fun_upd_apply)
  qed
qed simp

lemma attachKids_correct:
  assumes "n < N"
  shows "links h K N \<Longrightarrow> distinct ks \<Longrightarrow> (\<forall>k \<in> set ks. k < N \<and> k \<noteq> n \<and> n_parent (h k) = None) \<Longrightarrow>
    \<exists>h'. attachKids n ks h = Inr h' \<and> same_payload h h' \<and> links h' (K(n := ks @ K n)) N \<and>
      (\<forall>x. n_parent (h' x) = (if x \<in> set ks then Some n else n_parent (h x)))"
proof (induction ks)
  case (Cons k ks)
  have "distinct ks" "\<forall>k \<in> set ks. k < N \<and> k \<noteq> n \<and> n_parent (h k) = None" using Cons.prems by auto
  then obtain h1 where h1: "attachKids n ks h = Inr h1" "same_payload h h1" "links h1 (K(n := ks @ K n)) N"
      "\<And>x. n_parent (h1 x) = (if x \<in> set ks then Some n else n_parent (h x))"
    using Cons.IH [OF Cons.prems(1)] by metis
  have k: "k < N" "k \<noteq> n" "n_parent (h1 k) = None" using Cons.prems h1(4) by auto
  obtain h' where h': "setParent k (Some n) h1 = Inr h'"
      "links h' (if n_parent (h1 k) = Some n then K(n := ks @ K n) else move_kid k (Some n) (K(n := ks @ K n))) N"
      "\<And>x. n_parent (h' x) = (if x = k then Some n else n_parent (h1 x))" "same_payload h1 h'"
    using setParent_links [OF h1(3) k(1), of "Some n"] k(2) assms by (metis option.inject)
  have eq: "p < N \<Longrightarrow> move_kid k (Some n) (K(n := ks @ K n)) p = (K(n := (k # ks) @ K n)) p" for p
    using linksD(2) [OF h1(3), of p k] k by (auto simp: move_kid_def remove1_idem)
  have "links h' (K(n := (k # ks) @ K n)) N" by (rule links_eqI [OF _ eq]) (use h'(2) k(3) in simp)
  moreover have "attachKids n (k # ks) h = Inr h'" using h1(1) h'(1) by (simp add: bindE_def)
  ultimately show ?case
    using h1(2,4) h'(3,4) same_payload_trans by (intro exI [of _ h'] conjI) (auto simp del: fun_upd_apply)
qed auto

lemma resort_correct:
  assumes "forest h K N" "n < N" "mset ks = mset (K n)" "N < fuel"
  obtains h1 h2 where "detachKids fuel n [] h = Inr (K n, h1)" "same_payload h h1"
    and "attachKids n ks h1 = Inr h2" "same_payload h h2"
    and "forest h2 (K(n := ks)) N" "\<And>x. n_parent (h2 x) = n_parent (h x)"
proof -
  note l = forestD(1) [OF assms(1)]
  have kids: "x \<in> set (K n) \<Longrightarrow> x < N \<and> n_parent (h x) = Some n \<and> x \<noteq> n" for x
    using linksD(2) [OF l assms(2), of x] forest_not_self [OF assms(1,2)] by auto
  obtain h1 where h1: "detachKids fuel n [] h = Inr (K n, h1)" "same_payload h h1" "links h1 (K(n := [])) N"
      "\<And>x. n_parent (h1 x) = (if x \<in> set (K n) then None else n_parent (h x))"
    using detachKids_correct [OF assms(2) l forest_not_self [OF assms(1,2)], of fuel "[]"]
      links_length [OF l assms(2)] assms(4) by auto
  have ks: "set ks = set (K n)" "distinct ks"
    using mset_eq_setD [OF assms(3)] mset_eq_imp_distinct_iff [OF assms(3)] linksD(1) [OF l assms(2)]
    by (auto simp: siblings_def)
  obtain h2 where h2: "attachKids n ks h1 = Inr h2" "same_payload h1 h2" "links h2 (K(n := ks)) N"
      "\<And>x. n_parent (h2 x) = (if x \<in> set ks then Some n else n_parent (h1 x))"
    using attachKids_correct [OF assms(2) h1(3) ks(2)] kids h1(4) ks(1) by auto
  have par: "n_parent (h2 x) = n_parent (h x)" for x using h1(4) h2(4) ks(1) kids by auto
  then have "parents h2 N = parents h N" by (simp add: parents_def fun_eq_iff)
  then show ?thesis
    using that [OF h1(1,2) h2(1)] h1(2) h2(2,3) same_payload_trans par forestD(2) [OF assms(1)]
    by (simp add: forest_def)
qed

end
