(* ===== verification/Float64.thy ===== *)
theory Float64
  imports Go_Prelude "HOL-Library.Log_Nat"
begin

text \<open>
  The \<open>float64\<close> arithmetic that \<open>sortPriorityNodeSiblings.Less\<close> uses (\<open>writesched_priority.go\<close>):
  conversion from integers, division and comparison. A finite \<open>float64\<close> is the rational number it
  stands for; conversion and division round to 53 significant bits, to nearest with ties to even.
  Overflow and subnormal results are left out: the operands are quotients of 64-bit integers.
  The sign of a zero is left out as well: no divisor here is a negative zero.
\<close>

datatype float64 = Fin rat | PosInf | NegInf | NaN

definition round_half_even :: "rat \<Rightarrow> int" where
  "round_half_even x =
     (let f = \<lfloor>x\<rfloor>; r = x - of_int f
      in if r < 1 / 2 then f else if r > 1 / 2 then f + 1 else if even f then f else f + 1)"

text \<open>For positive \<open>x\<close>, the \<open>k\<close> with \<open>2 powi k \<le> x < 2 powi (k + 1)\<close>.\<close>

definition ilog2 :: "rat \<Rightarrow> int" where
  "ilog2 x =
     (let (n, d) = quotient_of x;
          k = int (floorlog 2 (nat n)) - int (floorlog 2 (nat d))
      in if 2 powi k \<le> x then k else k - 1)"

definition round53 :: "rat \<Rightarrow> rat" where
  "round53 x =
     (if x = 0 then 0
      else let e = ilog2 \<bar>x\<bar> - 52
           in sgn x * of_int (round_half_even (\<bar>x\<bar> / 2 powi e)) * 2 powi e)"

definition float_of_int :: "int \<Rightarrow> float64" where
  "float_of_int i = Fin (round53 (of_int i))"

fun f_div :: "float64 \<Rightarrow> float64 \<Rightarrow> float64" where
  "f_div (Fin a) (Fin b) =
     (if b = 0 then (if a = 0 then NaN else if 0 < a then PosInf else NegInf) else Fin (round53 (a / b)))"
| "f_div (Fin a) PosInf = Fin 0"
| "f_div (Fin a) NegInf = Fin 0"
| "f_div PosInf (Fin b) = (if b < 0 then NegInf else PosInf)"
| "f_div NegInf (Fin b) = (if b < 0 then PosInf else NegInf)"
| "f_div _ _ = NaN"

fun f_le :: "float64 \<Rightarrow> float64 \<Rightarrow> bool" where
  "f_le (Fin a) (Fin b) = (a \<le> b)"
| "f_le NegInf (Fin _) = True"
| "f_le NegInf NegInf = True"
| "f_le NegInf PosInf = True"
| "f_le (Fin _) PosInf = True"
| "f_le PosInf PosInf = True"
| "f_le _ _ = False"

lemma round_half_even_ge: "1 \<le> x \<Longrightarrow> 1 \<le> round_half_even x"
  by (auto simp: round_half_even_def Let_def le_floor_iff)

lemma round_half_even_of_int [simp]: "round_half_even (of_int i) = i"
  by (simp add: round_half_even_def)

lemma round_half_even_mono:
  assumes "x \<le> y"
  shows "round_half_even x \<le> round_half_even y"
proof (cases "\<lfloor>x\<rfloor> = \<lfloor>y\<rfloor>")
  case True
  then show ?thesis using assms by (auto simp: round_half_even_def Let_def)
next
  case False
  then have "\<lfloor>x\<rfloor> + 1 \<le> \<lfloor>y\<rfloor>" using floor_mono [OF assms] by linarith
  then show ?thesis by (auto simp: round_half_even_def Let_def)
qed

lemma floorlog_rat:
  assumes "0 < m"
  shows "(of_int m :: rat) < 2 ^ floorlog 2 (nat m)" "(2 :: rat) ^ floorlog 2 (nat m) \<le> 2 * of_int m"
proof -
  have b: "2 ^ (floorlog 2 (nat m) - 1) \<le> nat m" "nat m < 2 ^ floorlog 2 (nat m)"
    using floorlog_bounds [of "nat m" 2] assms by auto
  have "0 < floorlog 2 (nat m)" using assms by (simp add: floorlog_eq_zero_iff flip: neq0_conv)
  then obtain k where k: "floorlog 2 (nat m) = Suc k" by (cases "floorlog 2 (nat m)") auto
  have "m < 2 ^ floorlog 2 (nat m)" "2 ^ k \<le> m"
    using b assms k by (simp_all add: nat_less_iff nat_le_eq_zle flip: nat_power_eq)
  then have "(of_int m :: rat) < of_int (2 ^ floorlog 2 (nat m))" "of_int (2 ^ k) \<le> (of_int m :: rat)"
    by (simp_all only: of_int_less_iff of_int_le_iff)
  then show "(of_int m :: rat) < 2 ^ floorlog 2 (nat m)" "(2 :: rat) ^ floorlog 2 (nat m) \<le> 2 * of_int m"
    by (simp_all add: k)
qed

lemma ilog2_correct:
  assumes "0 < x"
  shows "2 powi ilog2 x \<le> x" "x < 2 powi (ilog2 x + 1)"
proof -
  obtain n d where q: "quotient_of x = (n, d)" by fastforce
  then have d: "0 < d" and x: "x = of_int n / of_int d"
    using quotient_of_denom_pos quotient_of_div by blast+
  then have n: "0 < n" using assms by (simp add: zero_less_divide_iff)
  define a c where "a = floorlog 2 (nat n)" and "c = floorlog 2 (nat d)"
  note bn = floorlog_rat [OF n, folded a_def] and bd = floorlog_rat [OF d, folded c_def]
  have pk: "(2 :: rat) powi (int a - int c) = 2 ^ a / 2 ^ c" by (simp add: power_int_diff)
  have "of_int n * 2 ^ c \<le> of_int n * (2 * of_int d :: rat)" using bd(2) n by simp
  also have "\<dots> < 2 * 2 ^ a * of_int d" using bn(1) d by simp
  finally have hi: "x < 2 * (2 ^ a / 2 ^ c)" using d by (simp add: x field_simps)
  have "2 ^ a * of_int d \<le> 2 * of_int n * (of_int d :: rat)" using bn(2) d by simp
  also have "\<dots> \<le> 2 * of_int n * 2 ^ c" using bd(1) n by simp
  finally have lo: "2 ^ a / 2 ^ c \<le> 2 * x" using d by (simp add: x field_simps)
  have il: "ilog2 x = (if 2 ^ a / 2 ^ c \<le> x then int a - int c else int a - int c - 1)"
    unfolding ilog2_def q using pk by (simp add: a_def c_def Let_def)
  show "2 powi ilog2 x \<le> x" "x < 2 powi (ilog2 x + 1)"
    using hi lo pk by (auto simp: il power_int_diff power_int_add mult.commute)
qed

text \<open>The significand of a rounded positive number has 53 bits.\<close>

lemma round53_range:
  assumes "0 < x"
  shows "2 powi ilog2 x \<le> round53 x" "round53 x \<le> 2 powi (ilog2 x + 1)"
proof -
  let ?e = "ilog2 x - 52" and ?m = "round_half_even (x / 2 powi (ilog2 x - 52))"
  have p: "(0 :: rat) < 2 powi ?e" by simp
  have r: "round53 x = of_int ?m * 2 powi ?e" using assms by (simp add: round53_def Let_def)
  have pw: "(2 :: rat) powi ilog2 x = 2 ^ 52 * 2 powi ?e" "(2 :: rat) powi (ilog2 x + 1) = 2 ^ 53 * 2 powi ?e"
    by (simp_all add: power_int_diff power_int_add)
  have "of_int (2 ^ 52) \<le> x / 2 powi ?e" "x / 2 powi ?e \<le> of_int (2 ^ 53)"
    using ilog2_correct [OF assms] pw p by (simp_all add: pos_le_divide_eq pos_divide_le_eq)
  then have "2 ^ 52 \<le> ?m" "?m \<le> 2 ^ 53"
    by (metis round_half_even_mono round_half_even_of_int)+
  then have m: "of_int (2 ^ 52) \<le> (of_int ?m :: rat)" "(of_int ?m :: rat) \<le> of_int (2 ^ 53)"
    by (simp_all only: of_int_le_iff)
  show "2 powi ilog2 x \<le> round53 x" "round53 x \<le> 2 powi (ilog2 x + 1)"
    unfolding r pw using m p by (auto intro!: mult_right_mono)
qed

lemma powi_less: "(2 :: rat) powi a < 2 powi b \<Longrightarrow> a < b"
  using power_int_increasing [of b a "2 :: rat"] by (cases "a < b") auto

lemma ilog2_mono:
  assumes "0 < x" "x \<le> y"
  shows "ilog2 x \<le> ilog2 y"
proof -
  have "(2 :: rat) powi ilog2 x < 2 powi (ilog2 y + 1)"
    using ilog2_correct(1) [OF assms(1)] ilog2_correct(2) [of y] assms by linarith
  from powi_less [OF this] show ?thesis by simp
qed

lemma round53_mono:
  assumes "0 < x" "x \<le> y"
  shows "round53 x \<le> round53 y"
proof (cases "ilog2 x = ilog2 y")
  case True
  have "x / 2 powi (ilog2 y - 52) \<le> y / 2 powi (ilog2 y - 52)"
    using assms by (simp add: divide_right_mono)
  then have "(of_int (round_half_even (x / 2 powi (ilog2 y - 52))) :: rat)
      \<le> of_int (round_half_even (y / 2 powi (ilog2 y - 52)))"
    by (simp add: round_half_even_mono)
  then show ?thesis using assms True by (simp add: round53_def Let_def mult_right_mono)
next
  case False
  then have "ilog2 x + 1 \<le> ilog2 y" using ilog2_mono [OF assms] by simp
  then have "(2 :: rat) powi (ilog2 x + 1) \<le> 2 powi ilog2 y" by (simp add: power_int_increasing)
  then show ?thesis using round53_range [of x] round53_range [of y] assms by linarith
qed

lemma round53_pos: "0 < x \<Longrightarrow> 0 < round53 x"
  using round53_range(1) [of x] zero_less_power_int [of 2 "ilog2 x"] by (meson less_le_trans zero_less_numeral)

lemma round53_0 [simp]: "round53 0 = 0"
  by (simp add: round53_def)

text \<open>Integers of at most 53 bits are exact.\<close>

lemma round53_of_int:
  assumes "0 \<le> i" "i < 2 ^ 53"
  shows "round53 (of_int i) = of_int i"
proof (cases "i = 0")
  case False
  then have pos: "(0 :: rat) < of_int i" using assms(1) by simp
  have "(2 :: rat) powi ilog2 (of_int i) < 2 powi 53"
    using ilog2_correct(1) [OF pos] assms(2)
    by simp
  from powi_less [OF this] have "ilog2 (of_int i) \<le> 52" by simp
  then obtain k where k: "ilog2 (of_int i) - 52 = - int k" by (metis diff_le_0_iff_le minus_minus neg_0_le_iff_le zero_le_imp_eq_int)
  have "(of_int i :: rat) / 2 powi (- int k) = of_int (i * 2 ^ k)" by (simp add: power_int_minus field_simps)
  then show ?thesis
    using pos by (simp only: round53_def k Let_def abs_of_pos round_half_even_of_int) (simp add: power_int_minus field_simps)
qed simp

lemma float_of_int_exact: "0 \<le> i \<Longrightarrow> i < 2 ^ 53 \<Longrightarrow> float_of_int i = Fin (of_int i)"
  by (simp add: float_of_int_def round53_of_int)

end
