(* ===== verification/PrioritySched.thy ===== *)
theory PrioritySched
  imports PriorityTree Float64
begin

text \<open>
  The priority write scheduler of \<open>writesched_priority.go\<close> over the tree of \<open>PriorityTree\<close>. Nodes are
  allocated at the addresses below \<open>ws_fresh\<close>, and \<open>ws.root\<close> is the node at address 0. A loop over
  pointers gets the number of allocated nodes plus two as fuel (a walk down the tree twice that),
  which the lemmas show to be enough whenever the tree is well formed. \<open>sort.Sort\<close> is the
  parameter \<open>srt\<close>, of which only that it permutes its slice is used. The scratch slice \<open>tmp\<close> is
  empty before and after every use and is not part of the state.
\<close>

definition priorityDefaultWeight :: u8 where
  "priorityDefaultWeight = 15"

record PriorityWriteSchedulerConfig =
  cfg_MaxClosedNodesInTree :: int
  cfg_MaxIdleNodesInTree :: int
  cfg_ThrottleOutOfOrderWrites :: bool

record priorityWriteScheduler =
  ws_heap :: node_heap
  ws_fresh :: nat
  ws_nodes :: "u32 \<Rightarrow> nptr option"
  ws_maxID :: u32
  ws_closedNodes :: "nptr list"
  ws_idleNodes :: "nptr list"
  ws_maxClosedNodesInTree :: int
  ws_maxIdleNodesInTree :: int
  ws_writeThrottleLimit :: i32
  ws_enableWriteThrottle :: bool
  ws_queuePool :: writeQueuePool

record PriorityParam =
  StreamDep :: u32
  Exclusive :: bool
  Weight :: u8

abbreviation (input) wsRoot :: nptr where "wsRoot \<equiv> 0"

definition zeroNode :: priorityNode where
  "zeroNode = \<lparr>n_q = [], n_id = 0, n_weight = 0, n_state = PriorityNodeOpen, n_bytes = 0, n_subtreeBytes = 0,
     n_parent = None, n_kids = None, n_prev = None, n_next = None\<rparr>"

definition NewPriorityWriteScheduler :: "PriorityWriteSchedulerConfig option \<Rightarrow> priorityWriteScheduler" where
  "NewPriorityWriteScheduler cfg0 =
     (let cfg = (case cfg0 of
                   None \<Rightarrow> \<lparr>cfg_MaxClosedNodesInTree = 10, cfg_MaxIdleNodesInTree = 10,
                            cfg_ThrottleOutOfOrderWrites = False\<rparr>
                 | Some c \<Rightarrow> c)
      in \<lparr>ws_heap = (\<lambda>_. zeroNode), ws_fresh = 1, ws_nodes = [0 \<mapsto> wsRoot], ws_maxID = 0,
          ws_closedNodes = [], ws_idleNodes = [],
          ws_maxClosedNodesInTree = cfg_MaxClosedNodesInTree cfg,
          ws_maxIdleNodesInTree = cfg_MaxIdleNodesInTree cfg,
          ws_writeThrottleLimit = (if cfg_ThrottleOutOfOrderWrites cfg then 1024 else max_int32),
          ws_enableWriteThrottle = cfg_ThrottleOutOfOrderWrites cfg,
          ws_queuePool = []\<rparr>)"

text \<open>\<open>&priorityNode{q: *ws.queuePool.get(), id: id, weight: priorityDefaultWeight, state: st}\<close>.\<close>

definition allocNode :: "u32 \<Rightarrow> priorityNodeState \<Rightarrow> priorityWriteScheduler \<Rightarrow> nptr \<times> priorityWriteScheduler" where
  "allocNode sid st ws =
     (let (q, pool) = pool_get (ws_queuePool ws);
          n = ws_fresh ws
      in (n, ws\<lparr>ws_heap := (ws_heap ws)(n := zeroNode\<lparr>n_q := q, n_id := sid, n_weight := priorityDefaultWeight,
                                                        n_state := st\<rparr>),
               ws_fresh := n + 1, ws_queuePool := pool\<rparr>))"

definition ws_setParent :: "nptr \<Rightarrow> nptr option \<Rightarrow> priorityWriteScheduler \<Rightarrow> go_panic + priorityWriteScheduler" where
  "ws_setParent n parent ws = bindE (setParent n parent (ws_heap ws)) (\<lambda>h. Inr (ws\<lparr>ws_heap := h\<rparr>))"

definition update_node :: "nptr \<Rightarrow> (priorityNode \<Rightarrow> priorityNode) \<Rightarrow> priorityWriteScheduler \<Rightarrow> priorityWriteScheduler" where
  "update_node n f ws = ws\<lparr>ws_heap := (ws_heap ws)(n := f (ws_heap ws n))\<rparr>"

definition OpenStream :: "u32 \<Rightarrow> u32 \<Rightarrow> priorityWriteScheduler \<Rightarrow> go_panic + priorityWriteScheduler" where
  "OpenStream streamID pusherID ws =
     (case ws_nodes ws streamID of
        Some cur \<Rightarrow>
          if n_state (ws_heap ws cur) \<noteq> PriorityNodeIdle
          then Inl (Panic (''stream '' @ Itoa (uint streamID) @ '' already opened''))
          else Inr (update_node cur (n_state_update (\<lambda>_. PriorityNodeOpen)) ws)
      | None \<Rightarrow>
          let parent = (case ws_nodes ws pusherID of None \<Rightarrow> wsRoot | Some p \<Rightarrow> p);
              (n, ws1) = allocNode streamID PriorityNodeOpen ws
          in bindE (ws_setParent n (Some parent) ws1) (\<lambda>ws2.
               let ws3 = ws2\<lparr>ws_nodes := (ws_nodes ws2)(streamID \<mapsto> n)\<rparr>
               in Inr (if ws_maxID ws3 < streamID then ws3\<lparr>ws_maxID := streamID\<rparr> else ws3)))"

definition removeNode :: "nptr \<Rightarrow> priorityWriteScheduler \<Rightarrow> go_panic + priorityWriteScheduler" where
  "removeNode n ws =
     bindE (removeKids (ws_fresh ws + 2) n (n_kids (ws_heap ws n)) (ws_heap ws)) (\<lambda>h.
     bindE (setParent n None h) (\<lambda>h'.
       Inr (ws\<lparr>ws_heap := h', ws_nodes := (ws_nodes ws)(n_id (h' n) := None)\<rparr>)))"

text \<open>\<open>addClosedOrIdleNode\<close> on a given list: the scheduler afterwards and the new list.\<close>

definition addClosedOrIdleNode ::
    "nptr list \<Rightarrow> int \<Rightarrow> nptr \<Rightarrow> priorityWriteScheduler \<Rightarrow> go_panic + nptr list \<times> priorityWriteScheduler" where
  "addClosedOrIdleNode list maxSize n ws =
     (if maxSize = 0 then Inr (list, ws)
      else if int (length list) = maxSize
      then bindE (go_index list 0) (\<lambda>oldest.
           bindE (removeNode oldest ws) (\<lambda>ws1.
           bindE (go_slice list 1 (length list)) (\<lambda>x.
           bindE (go_slice (go_copy list x) 0 (length x)) (\<lambda>list1.
             Inr (list1 @ [n], ws1)))))
      else Inr (list @ [n], ws))"

definition CloseStream :: "u32 \<Rightarrow> priorityWriteScheduler \<Rightarrow> go_panic + priorityWriteScheduler" where
  "CloseStream streamID ws =
     (if streamID = 0 then Inl (Panic ''violation of WriteScheduler interface: cannot close stream 0'')
      else case ws_nodes ws streamID of
        None \<Rightarrow> Inl (Panic (''violation of WriteScheduler interface: unknown stream '' @ Itoa (uint streamID)))
      | Some n \<Rightarrow>
          if n_state (ws_heap ws n) \<noteq> PriorityNodeOpen
          then Inl (Panic (''violation of WriteScheduler interface: stream '' @ Itoa (uint streamID) @
                           '' already closed''))
          else
            let ws1 = update_node n (n_state_update (\<lambda>_. PriorityNodeClosed)) ws
            in bindE (addBytes (ws_fresh ws1 + 2) n (- n_bytes (ws_heap ws1 n)) (ws_heap ws1)) (\<lambda>h2.
                 let ws2 = ws1\<lparr>ws_heap := h2, ws_queuePool := pool_put (n_q (h2 n)) (ws_queuePool ws1)\<rparr>;
                     ws3 = update_node n (n_q_update (\<lambda>_. [])) ws2
                 in if 0 < ws_maxClosedNodesInTree ws3
                    then bindE (addClosedOrIdleNode (ws_closedNodes ws3) (ws_maxClosedNodesInTree ws3) n ws3)
                           (\<lambda>(list, ws4). Inr (ws4\<lparr>ws_closedNodes := list\<rparr>))
                    else removeNode n ws3))"

text \<open>The part of \<open>AdjustStream\<close> that creates an idle node for an unknown stream; \<open>None\<close> is the early
  return.\<close>

definition adjustNode :: "u32 \<Rightarrow> priorityWriteScheduler \<Rightarrow> go_panic + nptr option \<times> priorityWriteScheduler" where
  "adjustNode streamID ws =
     (case ws_nodes ws streamID of
        Some n \<Rightarrow> Inr (Some n, ws)
      | None \<Rightarrow>
          if streamID \<le> ws_maxID ws \<or> ws_maxIdleNodesInTree ws = 0 then Inr (None, ws)
          else
            let ws1 = ws\<lparr>ws_maxID := streamID\<rparr>;
                (n, ws2) = allocNode streamID PriorityNodeIdle ws1
            in bindE (ws_setParent n (Some wsRoot) ws2) (\<lambda>ws3.
                 let ws4 = ws3\<lparr>ws_nodes := (ws_nodes ws3)(streamID \<mapsto> n)\<rparr>
                 in bindE (addClosedOrIdleNode (ws_idleNodes ws4) (ws_maxIdleNodesInTree ws4) n ws4)
                      (\<lambda>(list, ws5). Inr (Some n, ws5\<lparr>ws_idleNodes := list\<rparr>))))"

text \<open>The part that moves a node that exists under one that exists.\<close>

definition reparent :: "nat \<Rightarrow> nptr \<Rightarrow> nptr \<Rightarrow> bool \<Rightarrow> node_heap \<Rightarrow> go_panic + node_heap" where
  "reparent fuel n parent excl h =
     bindE (hasAncestor fuel n (n_parent (h parent)) h) (\<lambda>below.
     bindE (if below then setParent parent (n_parent (h n)) h else Inr h) (\<lambda>h1.
     bindE (if excl then adoptKids fuel n (n_kids (h1 parent)) h1 else Inr h1) (\<lambda>h2.
       setParent n (Some parent) h2)))"

definition AdjustStream :: "u32 \<Rightarrow> PriorityParam \<Rightarrow> priorityWriteScheduler \<Rightarrow> go_panic + priorityWriteScheduler" where
  "AdjustStream streamID priority ws =
     (if streamID = 0 then Inl (Panic ''adjustPriority on wsRoot'')
      else bindE (adjustNode streamID ws) (\<lambda>(found, ws1).
        case found of
          None \<Rightarrow> Inr ws1
        | Some n \<Rightarrow>
            (case ws_nodes ws1 (StreamDep priority) of
               None \<Rightarrow> bindE (ws_setParent n (Some wsRoot) ws1) (\<lambda>ws2.
                         Inr (update_node n (n_weight_update (\<lambda>_. priorityDefaultWeight)) ws2))
             | Some parent \<Rightarrow>
                 if n = parent then Inr ws1
                 else bindE (reparent (ws_fresh ws1 + 2) n parent (Exclusive priority) (ws_heap ws1)) (\<lambda>h.
                        Inr (update_node n (n_weight_update (\<lambda>_. Weight priority)) (ws1\<lparr>ws_heap := h\<rparr>))))))"

definition Push :: "FrameWriteRequest \<Rightarrow> priorityWriteScheduler \<Rightarrow> go_panic + priorityWriteScheduler" where
  "Push wr ws =
     bindE (if StreamID wr = 0 then Inr wsRoot
            else case ws_nodes ws (StreamID wr) of
              Some n \<Rightarrow> Inr n
            | None \<Rightarrow> if 0 < DataSize wr then Inl (Panic ''add DATA on non-open stream'') else Inr wsRoot)
       (\<lambda>n. Inr (update_node n (n_q_update (wq_push wr)) ws))"

subsection \<open>\<open>Less\<close> and the walk\<close>

definition Less :: "node_heap \<Rightarrow> nptr \<Rightarrow> nptr \<Rightarrow> bool" where
  "Less h i k =
     (let wi = float_of_int (uint (n_weight (h i) + 1)); bi = float_of_int (sint (n_subtreeBytes (h i)));
          wk = float_of_int (uint (n_weight (h k) + 1)); bk = float_of_int (sint (n_subtreeBytes (h k)))
      in if bi = Fin 0 \<and> bk = Fin 0 then f_le wk wi
         else if bk = Fin 0 then False
         else f_le (f_div bi bk) (f_div wi wk))"

text \<open>What the closure that \<open>Pop\<close> passes to the walk captures: the tree, the throttle limit, the flow
  windows and the results.\<close>

record pop_state =
  ps_heap :: node_heap
  ps_limit :: i32
  ps_flow :: flow_store
  ps_wr :: FrameWriteRequest
  ps_ok :: bool

type_synonym visitor = "nptr \<Rightarrow> bool \<Rightarrow> pop_state \<Rightarrow> go_panic + bool \<times> pop_state"
type_synonym sorting = "(nptr \<Rightarrow> nptr \<Rightarrow> bool) \<Rightarrow> nptr list \<Rightarrow> nptr list"

fun walkReadyInOrder :: "sorting \<Rightarrow> nat \<Rightarrow> visitor \<Rightarrow> nat \<Rightarrow> nptr \<Rightarrow> bool \<Rightarrow> pop_state \<Rightarrow> go_panic + bool \<times> pop_state"
  and walkKids :: "sorting \<Rightarrow> nat \<Rightarrow> visitor \<Rightarrow> nat \<Rightarrow> nptr option \<Rightarrow> bool \<Rightarrow> pop_state \<Rightarrow> go_panic + bool \<times> pop_state" where
  "walkReadyInOrder srt lf f 0 n openParent s = Inl OutOfFuel"
| "walkReadyInOrder srt lf f (Suc fuel) n openParent s =
     bindE (if wq_empty (n_q (ps_heap s n)) then Inr (False, s) else f n openParent s) (\<lambda>(stop, s).
       if stop then Inr (True, s)
       else case n_kids (ps_heap s n) of
         None \<Rightarrow> Inr (False, s)
       | Some k \<Rightarrow>
           let op = (if n_id (ps_heap s n) \<noteq> 0
                     then openParent \<or> n_state (ps_heap s n) = PriorityNodeOpen else openParent)
           in bindE (differentWeight lf (n_weight (ps_heap s k)) (n_next (ps_heap s k)) (ps_heap s)) (\<lambda>needSort.
                if \<not> needSort then walkKids srt lf f fuel (n_kids (ps_heap s n)) op s
                else bindE (detachKids lf n [] (ps_heap s)) (\<lambda>(tmp, h1).
                     bindE (attachKids n (srt (Less h1) tmp) h1) (\<lambda>h2.
                       walkKids srt lf f fuel (n_kids (h2 n)) op (s\<lparr>ps_heap := h2\<rparr>)))))"
| "walkKids srt lf f 0 k openParent s = Inl OutOfFuel"
| "walkKids srt lf f (Suc fuel) None openParent s = Inr (False, s)"
| "walkKids srt lf f (Suc fuel) (Some k) openParent s =
     bindE (walkReadyInOrder srt lf f fuel k openParent s) (\<lambda>(stop, s).
       if stop then Inr (True, s)
       else walkKids srt lf f fuel (n_next (ps_heap s k)) openParent s)"

definition popVisit :: "i32 \<Rightarrow> nat \<Rightarrow> bool \<Rightarrow> visitor" where
  "popVisit maxFrameSize lf enableWriteThrottle n openParent s =
     (let lim = (if openParent then ps_limit s else max_int32)
      in bindE (wq_consume maxFrameSize lim (n_q (ps_heap s n)) (ps_flow s)) (\<lambda>((wr, ok), q', fs').
           let s1 = s\<lparr>ps_heap := (ps_heap s)(n := (ps_heap s n)\<lparr>n_q := q'\<rparr>), ps_flow := fs', ps_wr := wr, ps_ok := ok\<rparr>
           in if \<not> ok then Inr (False, s1)
              else bindE (addBytes lf n (of_nat (DataSize wr)) (ps_heap s1)) (\<lambda>h2.
                let s2 = s1\<lparr>ps_heap := h2\<rparr>
                in Inr (True,
                     if openParent
                     then let l = ps_limit s2 + 1024 in s2\<lparr>ps_limit := if l <s 0 then max_int32 else l\<rparr>
                     else if enableWriteThrottle then s2\<lparr>ps_limit := 1024\<rparr>
                     else s2))))"

definition Pop ::
    "sorting \<Rightarrow> i32 \<Rightarrow> priorityWriteScheduler \<Rightarrow> flow_store \<Rightarrow>
      go_panic + (FrameWriteRequest \<times> bool) \<times> priorityWriteScheduler \<times> flow_store" where
  "Pop srt maxFrameSize ws fs =
     (let lf = ws_fresh ws + 2;
          s0 = \<lparr>ps_heap = ws_heap ws, ps_limit = ws_writeThrottleLimit ws, ps_flow = fs,
                ps_wr = emptyRequest, ps_ok = False\<rparr>
      in bindE (walkReadyInOrder srt lf (popVisit maxFrameSize lf (ws_enableWriteThrottle ws)) (2 * lf) wsRoot False s0)
           (\<lambda>(_, s). Inr ((ps_wr s, ps_ok s),
                          ws\<lparr>ws_heap := ps_heap s, ws_writeThrottleLimit := ps_limit s\<rparr>, ps_flow s)))"

subsection \<open>The invariant\<close>

text \<open>DATA is only queued on the node of its stream, and never on the root.\<close>

definition queue_ok :: "priorityNode \<Rightarrow> bool" where
  "queue_ok x \<longleftrightarrow> (\<forall>wr \<in> set (n_q x). 0 < DataSize wr \<longrightarrow> wr_stream wr = Some (n_id x) \<and> n_id x \<noteq> 0)"

definition heap_ok :: "node_heap \<Rightarrow> nat \<Rightarrow> bool" where
  "heap_ok h N \<longleftrightarrow> (\<exists>K. forest h K N) \<and> 0 < N \<and> n_parent (h wsRoot) = None \<and>
     (\<forall>a < N. n_id (h a) = 0 \<longleftrightarrow> a = wsRoot) \<and> (\<forall>a < N. queue_ok (h a))"

definition refs_ok :: "priorityWriteScheduler \<Rightarrow> bool" where
  "refs_ok ws \<longleftrightarrow> ws_nodes ws 0 = Some wsRoot \<and>
     (\<forall>i a. ws_nodes ws i = Some a \<longrightarrow> a < ws_fresh ws \<and> n_id (ws_heap ws a) = i) \<and>
     (\<forall>a \<in> set (ws_closedNodes ws) \<union> set (ws_idleNodes ws). a \<noteq> wsRoot \<and> a < ws_fresh ws) \<and>
     (\<forall>q \<in> set (ws_queuePool ws). q = [])"

definition ws_inv :: "priorityWriteScheduler \<Rightarrow> bool" where
  "ws_inv ws \<longleftrightarrow> heap_ok (ws_heap ws) (ws_fresh ws) \<and> refs_ok ws"

abbreviation tree :: "node_heap \<Rightarrow> nat \<Rightarrow> (nptr \<times> nptr) set" where
  "tree h N \<equiv> up (parents h N)"

lemma heap_okD:
  assumes "heap_ok h N"
  shows "0 < N" "n_parent (h wsRoot) = None" "a < N \<Longrightarrow> n_id (h a) = 0 \<longleftrightarrow> a = wsRoot" "a < N \<Longrightarrow> queue_ok (h a)"
  using assms by (auto simp: heap_ok_def)

lemma heap_okE:
  assumes "heap_ok h N"
  obtains K where "forest h K N"
  using assms by (auto simp: heap_ok_def)

lemma refs_okD:
  assumes "refs_ok ws"
  shows "ws_nodes ws 0 = Some wsRoot" "ws_nodes ws i = Some a \<Longrightarrow> a < ws_fresh ws"
    "ws_nodes ws i = Some a \<Longrightarrow> n_id (ws_heap ws a) = i"
    "a \<in> set (ws_closedNodes ws) \<union> set (ws_idleNodes ws) \<Longrightarrow> a \<noteq> wsRoot \<and> a < ws_fresh ws"
    "q \<in> set (ws_queuePool ws) \<Longrightarrow> q = []"
  using assms by (auto simp: refs_ok_def)

lemma queue_ok_payload: "payload x = payload y \<Longrightarrow> queue_ok x \<longleftrightarrow> queue_ok y"
  by (simp add: queue_ok_def payload_def)

text \<open>Rearranging the links of a heap below a root that stays on top.\<close>

lemma heap_ok_relink:
  assumes "heap_ok h N" "forest h' K' N" "same_payload h h'" "n_parent (h' wsRoot) = None"
  shows "heap_ok h' N"
  using assms by (auto simp: heap_ok_def same_payload_def payload_def queue_ok_def)

lemma root_on_top:
  assumes "heap_ok h N"
  shows "(x, wsRoot) \<in> (tree h N)\<^sup>* \<longleftrightarrow> x = wsRoot"
  using heap_okD(2) [OF assms] by (auto simp: up_def parents_def elim: rtranclE)

lemma heap_ok_setParent:
  assumes "heap_ok h N" "n < N" "n \<noteq> wsRoot" "\<And>q. parent = Some q \<Longrightarrow> q < N \<and> (n, q) \<notin> (tree h N)\<^sup>*"
  obtains h' where "setParent n parent h = Inr h'" "heap_ok h' N" "same_payload h h'"
    "\<And>x. n_parent (h' x) = (if x = n then parent else n_parent (h x))"
proof -
  obtain K where K: "forest h K N" using heap_okE [OF assms(1)] .
  obtain h' where h': "setParent n parent h = Inr h'"
      "forest h' (if n_parent (h n) = parent then K else move_kid n parent K) N"
      "\<And>x. n_parent (h' x) = (if x = n then parent else n_parent (h x))" "same_payload h h'"
    using forest_setParent [OF K assms(2,4)] by metis
  have "heap_ok h' N"
    using heap_ok_relink [OF assms(1) h'(2,4)] h'(3) assms(3) heap_okD(2) [OF assms(1)] by simp
  then show ?thesis using that h' by blast
qed

text \<open>The shape of a tree in terms of its parents only.\<close>

lemma tree_cong: "(\<And>x. x < N \<Longrightarrow> n_parent (h' x) = n_parent (h x)) \<Longrightarrow> tree h' N = tree h N"
  by (auto simp: up_def parents_def split: if_splits)

lemma heap_ok_update:
  assumes "heap_ok h N" "same_links h h'" "\<And>x. x < N \<Longrightarrow> n_id (h' x) = n_id (h x) \<and> queue_ok (h' x)"
  shows "heap_ok h' N"
  using assms forest_same_links [OF assms(2)] by (auto simp: heap_ok_def same_links_def)

lemma heap_ok_removeKids:
  assumes "heap_ok h N" "n < N"
  obtains h' where "removeKids (N + 2) n (n_kids (h n)) h = Inr h'" "heap_ok h' N" "same_payload h h'"
    "n_parent (h' n) = n_parent (h n)"
proof -
  obtain K where K: "forest h K N" using heap_okE [OF assms(1)] .
  obtain h' where h': "removeKids (N + 2) n (n_kids (h n)) h = Inr h'"
      "forest h' (case K n of [] \<Rightarrow> K | k # ks \<Rightarrow> move_kid k (n_parent (h n)) K) N"
      "\<And>x. n_parent (h' x) = (if hd_opt (K n) = Some x then n_parent (h n) else n_parent (h x))"
      "same_payload h h'"
    using removeKids_correct [OF K assms(2)] by metis
  have kid: "hd_opt (K n) = Some x \<Longrightarrow> n_parent (h x) = Some n" for x
    using linksD(2) [OF forestD(1) [OF K] assms(2), of x] hd_opt_in by fastforce
  then have "n_parent (h' wsRoot) = None" using h'(3) [of wsRoot] heap_okD(2) [OF assms(1)] by auto
  then show ?thesis
    using that [OF h'(1) heap_ok_relink [OF assms(1) h'(2,4)] h'(4)] h'(3) [of n] kid [of n] by auto
qed

lemma removeNode_ok:
  assumes "ws_inv ws" "n < ws_fresh ws" "n \<noteq> wsRoot"
  obtains ws' where "removeNode n ws = Inr ws'" "ws_inv ws'"
    "same_payload (ws_heap ws) (ws_heap ws')" "ws_fresh ws' = ws_fresh ws"
    "ws_nodes ws' = (ws_nodes ws)(n_id (ws_heap ws n) := None)"
    "ws_closedNodes ws' = ws_closedNodes ws" "ws_idleNodes ws' = ws_idleNodes ws"
    "ws_maxID ws' = ws_maxID ws"
proof -
  have ok: "heap_ok (ws_heap ws) (ws_fresh ws)" and refs: "refs_ok ws" using assms(1) by (auto simp: ws_inv_def)
  obtain h where h: "removeKids (ws_fresh ws + 2) n (n_kids (ws_heap ws n)) (ws_heap ws) = Inr h"
      "heap_ok h (ws_fresh ws)" "same_payload (ws_heap ws) h"
    using heap_ok_removeKids [OF ok assms(2)] by metis
  obtain h' where h': "setParent n None h = Inr h'" "heap_ok h' (ws_fresh ws)" "same_payload h h'"
    using heap_ok_setParent [OF h(2) assms(2,3), of None] by blast
  have pay: "same_payload (ws_heap ws) h'" using h(3) h'(3) by (rule same_payload_trans)
  note id = same_payloadD(2) [OF pay]
  have "n_id (ws_heap ws n) \<noteq> 0" using heap_okD(3) [OF ok assms(2)] assms(3) by simp
  then show ?thesis
    using h h' refs pay id
    by (intro that [of "ws\<lparr>ws_heap := h', ws_nodes := (ws_nodes ws)(n_id (ws_heap ws n) := None)\<rparr>"])
      (auto simp: removeNode_def bindE_def ws_inv_def refs_ok_def)
qed

lemma forest_alloc:
  assumes "forest h K N" "n_parent x = None" "n_kids x = None" "n_prev x = None" "n_next x = None"
  shows "forest (h(N := x)) (K(N := [])) (Suc N)" "tree (h(N := x)) (Suc N) = tree h N"
    "q < N \<Longrightarrow> (N, q) \<notin> (tree h N)\<^sup>*"
proof -
  note l = linksD [OF forestD(1) [OF assms(1)]]
  have par: "parents (h(N := x)) (Suc N) = parents h N" using assms(2) by (auto simp: parents_def fun_eq_iff)
  then show "tree (h(N := x)) (Suc N) = tree h N" by simp
  have "siblings (h(N := x)) p ((K(N := [])) p)" if "p < Suc N" for p
  proof (cases "p = N")
    case True
    then show ?thesis using assms(3) by (simp add: siblings_def)
  next
    case False
    then have "y \<in> set (K p) \<Longrightarrow> y \<noteq> N" for y using l(2) [of p y] that by auto
    then show ?thesis using l(1) [of p] False that by (auto simp: siblings_def)
  qed
  moreover have "y \<in> set ((K(N := [])) p) \<longleftrightarrow> y < Suc N \<and> n_parent ((h(N := x)) y) = Some p" if "p < Suc N" for p y
    using l(2) [of p y] l(3) [of y N] that assms(2) by (auto simp: less_Suc_eq)
  moreover have "y < Suc N \<Longrightarrow> n_parent ((h(N := x)) y) = Some p \<Longrightarrow> p < Suc N" for y p
    using l(3) [of y p] assms(2) by (auto simp: less_Suc_eq split: if_splits)
  ultimately have "links (h(N := x)) (K(N := [])) (Suc N)"
    using l(4) assms by (auto simp: links_def less_Suc_eq)
  then show "forest (h(N := x)) (K(N := [])) (Suc N)"
    using forestD(2) [OF assms(1)] par by (simp add: forest_def)
  show "q < N \<Longrightarrow> (N, q) \<notin> (tree h N)\<^sup>*"
    using forestD(5) [OF assms(1), of N q] by (auto simp: rtrancl_eq_or_trancl)
qed

text \<open>Allocating a node and linking it below one that exists.\<close>

lemma allocNode_ok:
  assumes "ws_inv ws" "sid \<noteq> 0" "q < ws_fresh ws" "ws_nodes ws sid = None"
  obtains ws1 ws2 where "allocNode sid st ws = (ws_fresh ws, ws1)"
    "ws_setParent (ws_fresh ws) (Some q) ws1 = Inr ws2" "ws_inv (ws2\<lparr>ws_nodes := (ws_nodes ws2)(sid \<mapsto> ws_fresh ws)\<rparr>)"
    "ws_fresh ws2 = Suc (ws_fresh ws)" "ws_nodes ws2 = ws_nodes ws" "ws_maxID ws2 = ws_maxID ws"
    "ws_closedNodes ws2 = ws_closedNodes ws" "ws_idleNodes ws2 = ws_idleNodes ws"
    "n_parent (ws_heap ws2 (ws_fresh ws)) = Some q"
proof -
  let ?N = "ws_fresh ws"
  have ok: "heap_ok (ws_heap ws) ?N" and refs: "refs_ok ws" using assms(1) by (auto simp: ws_inv_def)
  obtain K where K: "forest (ws_heap ws) K ?N" using heap_okE [OF ok] .
  obtain qu pool where pg: "pool_get (ws_queuePool ws) = (qu, pool)" by fastforce
  have pool: "qu = []" "\<forall>q \<in> set pool. q = []"
    using pg refs_okD(5) [OF refs]
    by (auto simp: pool_get_def Let_def split: if_splits dest: in_set_takeD)
  let ?x = "zeroNode\<lparr>n_q := qu, n_id := sid, n_weight := priorityDefaultWeight, n_state := st\<rparr>"
  let ?h = "(ws_heap ws)(?N := ?x)"
  have x: "n_parent ?x = None" "n_kids ?x = None" "n_prev ?x = None" "n_next ?x = None"
    by (simp_all add: zeroNode_def)
  note f = forest_alloc [OF K x]
  have ok1: "heap_ok ?h (Suc ?N)"
    using f(1) ok assms(2) pool(1) by (auto simp: heap_ok_def less_Suc_eq queue_ok_def zeroNode_def)
  obtain h' where h': "setParent ?N (Some q) ?h = Inr h'" "heap_ok h' (Suc ?N)" "same_payload ?h h'"
      "\<And>y. n_parent (h' y) = (if y = ?N then Some q else n_parent (?h y))"
    using heap_ok_setParent [OF ok1, of ?N "Some q"] f(2,3) assms(3) heap_okD(1) [OF ok] by auto
  define ws1 where "ws1 = ws\<lparr>ws_heap := ?h, ws_fresh := Suc ?N, ws_queuePool := pool\<rparr>"
  have "allocNode sid st ws = (?N, ws1)" by (simp add: allocNode_def pg ws1_def Let_def)
  moreover have "ws_setParent ?N (Some q) ws1 = Inr (ws1\<lparr>ws_heap := h'\<rparr>)"
    using h'(1) by (simp add: ws_setParent_def ws1_def bindE_def)
  moreover have "ws_inv (ws1\<lparr>ws_heap := h', ws_nodes := (ws_nodes ws)(sid \<mapsto> ?N)\<rparr>)"
  proof -
    have "n_id (h' a) = (if a = ?N then sid else n_id (ws_heap ws a))" for a
      using same_payloadD(2) [OF h'(3), of a] by simp
    then show ?thesis
      using h'(2) refs pool(2) assms(2)
      by (auto simp: ws_inv_def refs_ok_def ws1_def less_Suc_eq)
  qed
  ultimately show ?thesis using that [of ws1 "ws1\<lparr>ws_heap := h'\<rparr>"] h'(4) [of ?N] by (simp add: ws1_def)
qed

lemma ws_inv_update_fields [simp]:
  "ws_inv (ws\<lparr>ws_maxID := i\<rparr>) \<longleftrightarrow> ws_inv ws"
  "ws_inv (ws\<lparr>ws_writeThrottleLimit := l\<rparr>) \<longleftrightarrow> ws_inv ws"
  by (simp_all add: ws_inv_def refs_ok_def)

lemma ws_inv_update_node:
  assumes "ws_inv ws" "\<And>x. n_parent (f x) = n_parent x \<and> n_kids (f x) = n_kids x \<and> n_prev (f x) = n_prev x \<and>
      n_next (f x) = n_next x \<and> n_id (f x) = n_id x"
    and "n < ws_fresh ws" "queue_ok (f (ws_heap ws n))"
  shows "ws_inv (update_node n f ws)"
proof -
  let ?h = "(ws_heap ws)(n := f (ws_heap ws n))"
  have ok: "heap_ok (ws_heap ws) (ws_fresh ws)" using assms(1) by (simp add: ws_inv_def)
  have "same_links (ws_heap ws) ?h" using assms(2) by (simp add: same_links_def)
  moreover have "n_id (?h x) = n_id (ws_heap ws x) \<and> queue_ok (?h x)" if "x < ws_fresh ws" for x
    using assms(2,4) heap_okD(4) [OF ok that] by simp
  ultimately have "heap_ok ?h (ws_fresh ws)" by (rule heap_ok_update [OF ok])
  then show ?thesis using assms(1,2) by (auto simp: ws_inv_def refs_ok_def update_node_def)
qed

subsection \<open>Moving a node\<close>

text \<open>The tree that RFC 7540 section 5.3.3 asks for when \<open>n\<close> is made dependent on \<open>q\<close>, as a function from
  nodes to parents: first, if \<open>q\<close> depends on \<open>n\<close>, \<open>q\<close> takes the place of \<open>n\<close>; then, for an exclusive
  dependency, the other dependents of \<open>q\<close> move to \<open>n\<close>; then \<open>n\<close> moves to \<open>q\<close>.\<close>

definition rfc_place :: "nptr \<Rightarrow> nptr \<Rightarrow> (nptr \<Rightarrow> nptr option) \<Rightarrow> nptr \<Rightarrow> nptr option" where
  "rfc_place n q P = (if (n, q) \<in> (up P)\<^sup>+ then P(q := P n) else P)"

definition rfc_reparent :: "nptr \<Rightarrow> nptr \<Rightarrow> bool \<Rightarrow> (nptr \<Rightarrow> nptr option) \<Rightarrow> nptr \<Rightarrow> nptr option" where
  "rfc_reparent n q excl P x =
     (if x = n then Some q else if excl \<and> rfc_place n q P x = Some q then Some n else rfc_place n q P x)"

lemma hasAncestor_tree:
  assumes "forest h K N" "q < N"
  shows "hasAncestor (N + 2) n (n_parent (h q)) h = Inr ((n, q) \<in> (tree h N)\<^sup>+)"
proof (cases "n_parent (h q)")
  case None
  then have "(n, q) \<notin> (tree h N)\<^sup>+" by (auto simp: forestD(4) [OF assms(1)] elim: tranclE)
  then show ?thesis using None by (simp add: numeral_2_eq_2)
next
  case (Some x)
  have x: "x < N" using linksD(3) [OF forestD(1) [OF assms(1)] assms(2) Some] .
  have "(n, x) \<in> (tree h N)\<^sup>* \<longleftrightarrow> (n, q) \<in> (tree h N)\<^sup>+"
    using Some assms(2) forestD(4) [OF assms(1)]
    by (metis option.inject rtrancl_into_trancl1 tranclD2)
  then show ?thesis
    using hasAncestor_correct [OF assms(1) x, of "N + 1" n] depth_less [OF assms(1) x] Some
    by (simp del: hasAncestor.simps)
qed

lemma place_ok:
  assumes "heap_ok h N" "n < N" "q < N" "n \<noteq> wsRoot" "n \<noteq> q"
  obtains h1 where "(if (n, q) \<in> (tree h N)\<^sup>+ then setParent q (n_parent (h n)) h else Inr h) = Inr h1"
    "heap_ok h1 N" "same_payload h h1" "parents h1 N = rfc_place n q (parents h N)" "(n, q) \<notin> (tree h1 N)\<^sup>*"
proof (cases "(n, q) \<in> (tree h N)\<^sup>+")
  case False
  then show ?thesis
    using assms by (intro that [of h]) (auto simp: rfc_place_def rtrancl_eq_or_trancl)
next
  case True
  obtain K where K: "forest h K N" using heap_okE [OF assms(1)] .
  have q: "q \<noteq> wsRoot" using True root_on_top [OF assms(1), of n] assms(4) by (metis trancl_into_rtrancl)
  have "r < N \<and> (q, r) \<notin> (tree h N)\<^sup>*" if "n_parent (h n) = Some r" for r
  proof -
    have r: "(r, n) \<in> tree h N" using that assms(2) forestD(4) [OF K] by blast
    then have "(r, q) \<in> (tree h N)\<^sup>+" using True by (rule trancl_into_trancl2)
    then show ?thesis
      using forestD(3) [OF K] linksD(3) [OF forestD(1) [OF K] assms(2) that]
      by (meson acyclic_def rtrancl_trancl_trancl)
  qed
  then obtain h1 where h1: "setParent q (n_parent (h n)) h = Inr h1" "heap_ok h1 N" "same_payload h h1"
      "\<And>x. n_parent (h1 x) = (if x = q then n_parent (h n) else n_parent (h x))"
    using heap_ok_setParent [OF assms(1,3) q] by metis
  have par: "parents h1 N = (parents h N)(q := n_parent (h n))" by (rule parents_set [OF assms(3) h1(4)])
  obtain K1 where K1: "forest h1 K1 N" using heap_okE [OF h1(2)] .
  have "(n, q) \<notin> (tree h1 N)\<^sup>*"
  proof
    assume "(n, q) \<in> (tree h1 N)\<^sup>*"
    then obtain r where r: "(n, r) \<in> (tree h1 N)\<^sup>*" "(r, q) \<in> tree h1 N" using assms(5) by (metis rtranclE)
    then have "n_parent (h1 n) = Some r" using h1(4) assms(5) forestD(4) [OF K1] by auto
    then have "(r, n) \<in> tree h1 N" using forestD(4) [OF K1] assms(2) by blast
    then show False using r(1) forestD(3) [OF K1] by (meson acyclic_def rtrancl_into_trancl1)
  qed
  then show ?thesis
    using True h1 par assms(2) by (intro that [of h1]) (auto simp: rfc_place_def parents_def)
qed

lemma adopt_ok:
  assumes "forest h K N" "n < N" "q < N" "n \<noteq> q"
  obtains h' K' where "(if excl then adoptKids (N + 2) n (n_kids (h q)) h else Inr h) = Inr h'" "links h' K' N"
    "same_payload h h'"
    "\<And>x. n_parent (h' x) = (if excl \<and> x \<noteq> n \<and> x < N \<and> n_parent (h x) = Some q then Some n else n_parent (h x))"
proof (cases excl)
  case True
  note l = forestD(1) [OF assms(1)]
  obtain h' K' where h': "adoptKids (N + 2) n (hd_opt (K q)) h = Inr h'" "links h' K' N" "same_payload h h'"
      "\<And>x. n_parent (h' x) = (if x \<in> set (K q) \<and> x \<noteq> n then Some n else n_parent (h x))"
    using adoptKids_correct [OF assms(2-4) l, of "[]" "K q" "N + 2"] links_length [OF l assms(3)] by auto
  show ?thesis
    by (rule that [of h' K']) (use True h' linksD(2) [OF l assms(3)] links_kids [OF l assms(3)] in auto)
qed (use forestD(1) [OF assms(1)] that in auto)

lemma reparent_ok:
  assumes "heap_ok h N" "n < N" "q < N" "n \<noteq> wsRoot" "n \<noteq> q"
  obtains h' where "reparent (N + 2) n q excl h = Inr h'" "heap_ok h' N" "same_payload h h'"
    "parents h' N = rfc_reparent n q excl (parents h N)"
proof -
  obtain K where K: "forest h K N" using heap_okE [OF assms(1)] .
  obtain h1 where h1: "(if (n, q) \<in> (tree h N)\<^sup>+ then setParent q (n_parent (h n)) h else Inr h) = Inr h1"
      "heap_ok h1 N" "same_payload h h1" "parents h1 N = rfc_place n q (parents h N)" "(n, q) \<notin> (tree h1 N)\<^sup>*"
    using place_ok [OF assms] .
  obtain K1 where K1: "forest h1 K1 N" using heap_okE [OF h1(2)] .
  obtain h2 K2 where h2: "(if excl then adoptKids (N + 2) n (n_kids (h1 q)) h1 else Inr h1) = Inr h2"
      "links h2 K2 N" "same_payload h1 h2"
      "\<And>x. n_parent (h2 x) = (if excl \<and> x \<noteq> n \<and> x < N \<and> n_parent (h1 x) = Some q then Some n else n_parent (h1 x))"
    using adopt_ok [OF K1 assms(2,3,5)] by metis
  obtain h3 where h3: "setParent n (Some q) h2 = Inr h3"
      "links h3 (if n_parent (h2 n) = Some q then K2 else move_kid n (Some q) K2) N"
      "\<And>x. n_parent (h3 x) = (if x = n then Some q else n_parent (h2 x))" "same_payload h2 h3"
    using setParent_links [OF h2(2) assms(2), of "Some q"] assms(3,5) by (metis option.inject)
  let ?A = "{x. excl \<and> x < N \<and> n_parent (h1 x) = Some q}"
  have par: "parents h3 N x = (if x = n then Some q else if x \<in> ?A then Some n else parents h1 N x)" for x
    using h3(3) h2(4) assms(2) by (simp add: parents_def)
  have above: "(a, q) \<notin> (tree h1 N)\<^sup>*" if "a = n \<or> a \<in> ?A" for a
  proof (cases "a = n")
    case False
    then have "(q, a) \<in> tree h1 N" using that forestD(4) [OF K1] by blast
    then show ?thesis using forestD(3) [OF K1] by (meson acyclic_def rtrancl_into_trancl2)
  qed (use h1(5) in simp)
  have "wf (tree h3 N)" by (rule wf_reparent [OF forestD(2) [OF K1] par above])
  then have "forest h3 (if n_parent (h2 n) = Some q then K2 else move_kid n (Some q) K2) N"
    using h3(2) by (simp add: forest_def)
  moreover have pay: "same_payload h h3" using h1(3) h2(3) h3(4) by (blast intro: same_payload_trans)
  moreover have "n_parent (h3 wsRoot) = None" using h3(3) h2(4) assms(4) heap_okD(2) [OF h1(2)] by simp
  ultimately have "heap_ok h3 N" by (rule heap_ok_relink [OF assms(1)])
  moreover have "reparent (N + 2) n q excl h = Inr h3"
    using hasAncestor_tree [OF K assms(3), of n] h1(1) h2(1) h3(1)
    by (simp add: reparent_def bindE_def del: hasAncestor.simps adoptKids.simps split: if_splits)
  moreover have "parents h3 N = rfc_reparent n q excl (parents h N)"
    by (auto simp: fun_eq_iff par rfc_reparent_def simp flip: h1(4)) (auto simp: parents_def split: if_splits)
  ultimately show ?thesis using that pay by blast
qed

subsection \<open>The operations keep the invariant\<close>

lemma addClosedOrIdleNode_ok:
  assumes "ws_inv ws" "n < ws_fresh ws" "n \<noteq> wsRoot" "\<forall>a \<in> set list. a \<noteq> wsRoot \<and> a < ws_fresh ws"
  obtains list' ws' where "addClosedOrIdleNode list maxSize n ws = Inr (list', ws')" "ws_inv ws'"
    "same_payload (ws_heap ws) (ws_heap ws')" "ws_fresh ws' = ws_fresh ws" "set list' \<subseteq> insert n (set list)"
    "ws_closedNodes ws' = ws_closedNodes ws" "ws_idleNodes ws' = ws_idleNodes ws"
proof (cases "maxSize \<noteq> 0 \<and> int (length list) = maxSize")
  case True
  then obtain x xs where l: "list = x # xs" by (cases list) auto
  obtain ws' where ws': "removeNode x ws = Inr ws'" "ws_inv ws'" "same_payload (ws_heap ws) (ws_heap ws')"
      "ws_fresh ws' = ws_fresh ws" "ws_closedNodes ws' = ws_closedNodes ws" "ws_idleNodes ws' = ws_idleNodes ws"
    using removeNode_ok [OF assms(1), of x] assms(4) l by auto
  have "addClosedOrIdleNode list maxSize n ws = Inr (xs @ [n], ws')"
    using True l ws'(1) by (auto simp: addClosedOrIdleNode_def go_index_def go_slice_def go_copy_def bindE_def)
  then show ?thesis using that ws' l by auto
next
  case False
  then show ?thesis
    using assms(1) by (intro that [of "if maxSize = 0 then list else list @ [n]" ws])
      (auto simp: addClosedOrIdleNode_def)
qed

lemma ws_inv_lists:
  assumes "ws_inv ws" "\<forall>a \<in> set list. a \<noteq> wsRoot \<and> a < ws_fresh ws"
  shows "ws_inv (ws\<lparr>ws_closedNodes := list\<rparr>)" "ws_inv (ws\<lparr>ws_idleNodes := list\<rparr>)"
  using assms by (auto simp: ws_inv_def refs_ok_def)

lemma OpenStream_ok:
  assumes "ws_inv ws" "\<And>a. ws_nodes ws i = Some a \<Longrightarrow> n_state (ws_heap ws a) = PriorityNodeIdle"
  obtains ws' where "OpenStream i p ws = Inr ws'" "ws_inv ws'"
proof (cases "ws_nodes ws i")
  case None
  have refs: "refs_ok ws" using assms(1) by (simp add: ws_inv_def)
  let ?q = "case ws_nodes ws p of None \<Rightarrow> wsRoot | Some q \<Rightarrow> q"
  have "?q < ws_fresh ws"
    using refs_okD(2) [OF refs] heap_okD(1) assms(1) by (auto simp: ws_inv_def split: option.splits)
  moreover have "i \<noteq> 0" using None refs_okD(1) [OF refs] by auto
  ultimately obtain ws1 ws2 where "allocNode i PriorityNodeOpen ws = (ws_fresh ws, ws1)"
      "ws_setParent (ws_fresh ws) (Some ?q) ws1 = Inr ws2" "ws_inv (ws2\<lparr>ws_nodes := (ws_nodes ws2)(i \<mapsto> ws_fresh ws)\<rparr>)"
    using allocNode_ok [OF assms(1) _ _ None, of ?q PriorityNodeOpen] by metis
  then show ?thesis using None that by (auto simp: OpenStream_def bindE_def Let_def)
next
  case (Some a)
  have "ws_inv (update_node a (n_state_update (\<lambda>_. PriorityNodeOpen)) ws)"
    using assms(1) Some refs_okD(2) heap_okD(4)
    by (intro ws_inv_update_node) (auto simp: ws_inv_def queue_ok_def)
  then show ?thesis using that assms(2) Some by (simp add: OpenStream_def)
qed

lemma CloseStream_ok:
  assumes "ws_inv ws" "i \<noteq> 0" "ws_nodes ws i = Some n" "n_state (ws_heap ws n) = PriorityNodeOpen"
  obtains ws' where "CloseStream i ws = Inr ws'" "ws_inv ws'" "ws_fresh ws' = ws_fresh ws"
    "\<And>x. n_q (ws_heap ws' x) = (if x = n then [] else n_q (ws_heap ws x))"
proof -
  let ?N = "ws_fresh ws"
  let ?ws1 = "update_node n (n_state_update (\<lambda>_. PriorityNodeClosed)) ws"
  have n: "n < ?N" "n \<noteq> wsRoot"
    using assms refs_okD(2,3) heap_okD(3) unfolding ws_inv_def by blast+
  have inv1: "ws_inv ?ws1"
    using assms(1) n heap_okD(4) by (intro ws_inv_update_node) (auto simp: ws_inv_def queue_ok_def)
  then have ok1: "heap_ok (ws_heap ?ws1) ?N" by (simp add: ws_inv_def update_node_def)
  obtain K where K: "forest (ws_heap ?ws1) K ?N" using heap_okE [OF ok1] .
  obtain h2 where h2: "addBytes (?N + 2) n (- n_bytes (ws_heap ?ws1 n)) (ws_heap ?ws1) = Inr h2"
      "same_links (ws_heap ?ws1) h2" "\<And>x. n_q (h2 x) = n_q (ws_heap ?ws1 x) \<and> n_id (h2 x) = n_id (ws_heap ?ws1 x)"
    using addBytes_correct [OF K n(1), of "?N + 2" "- n_bytes (ws_heap ?ws1 n)"] by (metis less_add_same_cancel1 zero_less_numeral)
  have ok2: "heap_ok h2 ?N"
    using heap_ok_update [OF ok1 h2(2)] h2(3) heap_okD(4) [OF ok1] by (auto simp: queue_ok_def)
  define ws2 where "ws2 = ?ws1\<lparr>ws_heap := h2, ws_queuePool := pool_put (n_q (h2 n)) (ws_queuePool ?ws1)\<rparr>"
  have inv2: "ws_inv ws2"
    using ok2 inv1 h2(3) by (auto simp: ws2_def ws_inv_def refs_ok_def pool_put_def update_node_def)
  define ws3 where "ws3 = update_node n (n_q_update (\<lambda>_. [])) ws2"
  have inv3: "ws_inv ws3" unfolding ws3_def
    using inv2 n by (intro ws_inv_update_node) (auto simp: queue_ok_def ws2_def update_node_def)
  have N3: "ws_fresh ws3 = ?N" by (simp add: ws3_def ws2_def update_node_def)
  have q3: "n_q (ws_heap ws3 x) = (if x = n then [] else n_q (ws_heap ws x))" for x
    using h2(3) by (simp add: ws3_def ws2_def update_node_def)
  have step: "CloseStream i ws =
      (if 0 < ws_maxClosedNodesInTree ws3
       then bindE (addClosedOrIdleNode (ws_closedNodes ws3) (ws_maxClosedNodesInTree ws3) n ws3)
              (\<lambda>(list, ws4). Inr (ws4\<lparr>ws_closedNodes := list\<rparr>))
       else removeNode n ws3)"
    using assms h2(1) by (simp add: CloseStream_def Let_def bindE_def ws3_def ws2_def update_node_def)
  show ?thesis
  proof (cases "0 < ws_maxClosedNodesInTree ws3")
    case True
    obtain list ws4 where 4: "addClosedOrIdleNode (ws_closedNodes ws3) (ws_maxClosedNodesInTree ws3) n ws3 = Inr (list, ws4)"
        "ws_inv ws4" "ws_fresh ws4 = ws_fresh ws3" "set list \<subseteq> insert n (set (ws_closedNodes ws3))"
        "same_payload (ws_heap ws3) (ws_heap ws4)"
      using addClosedOrIdleNode_ok [OF inv3, of n "ws_closedNodes ws3"] n N3 refs_okD(4) inv3
      unfolding ws_inv_def by (metis Un_iff)
    have "\<forall>a \<in> set list. a \<noteq> wsRoot \<and> a < ws_fresh ws4"
      using 4(3,4) n N3 refs_okD(4) [of ws3] inv3 by (auto simp: ws_inv_def)
    then show ?thesis
      using that 4 True step ws_inv_lists(1) N3 q3 same_payloadD(1) [OF 4(5)] by (simp add: bindE_def)
  next
    case False
    obtain ws4 where "removeNode n ws3 = Inr ws4" "ws_inv ws4" "same_payload (ws_heap ws3) (ws_heap ws4)"
        "ws_fresh ws4 = ws_fresh ws3"
      using removeNode_ok [OF inv3, of n] n N3 by metis
    then show ?thesis using that False step N3 q3 same_payloadD(1) [of "ws_heap ws3" "ws_heap ws4"] by simp
  qed
qed

lemma adjustNode_ok:
  assumes "ws_inv ws" "i \<noteq> 0"
  obtains found ws1 where "adjustNode i ws = Inr (found, ws1)" "ws_inv ws1"
    "\<And>n. found = Some n \<Longrightarrow> n < ws_fresh ws1 \<and> n \<noteq> wsRoot"
proof (cases "ws_nodes ws i")
  case (Some n)
  then have "n < ws_fresh ws" "n \<noteq> wsRoot"
    using assms refs_okD(2,3) heap_okD(3) unfolding ws_inv_def by blast+
  then show ?thesis using that Some assms(1) by (simp add: adjustNode_def)
next
  case None
  show ?thesis
  proof (cases "i \<le> ws_maxID ws \<or> ws_maxIdleNodesInTree ws = 0")
    case True
    then show ?thesis using that None assms(1) by (auto simp: adjustNode_def)
  next
    case False
    let ?ws = "ws\<lparr>ws_maxID := i\<rparr>" and ?N = "ws_fresh ws"
    have pos: "0 < ?N" using assms(1) heap_okD(1) by (auto simp: ws_inv_def)
    obtain ws2 ws3 where a: "allocNode i PriorityNodeIdle ?ws = (?N, ws2)"
        "ws_setParent ?N (Some wsRoot) ws2 = Inr ws3" "ws_inv (ws3\<lparr>ws_nodes := (ws_nodes ws3)(i \<mapsto> ?N)\<rparr>)"
        "ws_fresh ws3 = Suc ?N"
      using allocNode_ok [of ?ws i wsRoot PriorityNodeIdle] assms None pos by simp metis
    define ws4 where "ws4 = ws3\<lparr>ws_nodes := (ws_nodes ws3)(i \<mapsto> ?N)\<rparr>"
    have inv4: "ws_inv ws4" and N4: "ws_fresh ws4 = Suc ?N" using a by (simp_all add: ws4_def)
    have idle4: "\<forall>a \<in> set (ws_idleNodes ws4). a \<noteq> wsRoot \<and> a < ws_fresh ws4"
      using inv4 refs_okD(4) [of ws4] by (auto simp: ws_inv_def)
    obtain list ws5 where 5: "addClosedOrIdleNode (ws_idleNodes ws4) (ws_maxIdleNodesInTree ws4) ?N ws4 = Inr (list, ws5)"
        "ws_inv ws5" "ws_fresh ws5 = ws_fresh ws4" "set list \<subseteq> insert ?N (set (ws_idleNodes ws4))"
      using addClosedOrIdleNode_ok [OF inv4, of ?N "ws_idleNodes ws4"] N4 pos idle4
      by (metis lessI less_numeral_extra(3))
    have "\<forall>a \<in> set list. a \<noteq> wsRoot \<and> a < ws_fresh ws5"
      using 5(3,4) idle4 N4 pos by auto
    then have "ws_inv (ws5\<lparr>ws_idleNodes := list\<rparr>)" by (rule ws_inv_lists(2) [OF 5(2)])
    moreover have "adjustNode i ws = Inr (Some ?N, ws5\<lparr>ws_idleNodes := list\<rparr>)"
      using None False a(1,2) 5(1) by (simp add: adjustNode_def Let_def bindE_def ws4_def)
    ultimately show ?thesis using that 5(3) N4 pos by simp
  qed
qed

lemma ws_inv_heap:
  assumes "ws_inv ws" "heap_ok h (ws_fresh ws)" "same_payload (ws_heap ws) h"
  shows "ws_inv (ws\<lparr>ws_heap := h\<rparr>)"
  using assms same_payloadD(2) [OF assms(3)] by (auto simp: ws_inv_def refs_ok_def)

lemma ws_inv_weight:
  assumes "ws_inv ws" "n < ws_fresh ws"
  shows "ws_inv (update_node n (n_weight_update (\<lambda>_. w)) ws)"
  using assms heap_okD(4) by (intro ws_inv_update_node) (auto simp: ws_inv_def queue_ok_def)

lemma not_above_root:
  assumes "heap_ok h N" "n \<noteq> wsRoot"
  shows "(n, wsRoot) \<notin> (tree h N)\<^sup>*"
  using root_on_top [OF assms(1)] assms(2) by simp

lemma AdjustStream_ok:
  assumes "ws_inv ws" "i \<noteq> 0"
  obtains ws' where "AdjustStream i pr ws = Inr ws'" "ws_inv ws'"
proof -
  obtain found ws1 where 1: "adjustNode i ws = Inr (found, ws1)" "ws_inv ws1"
      "\<And>n. found = Some n \<Longrightarrow> n < ws_fresh ws1 \<and> n \<noteq> wsRoot"
    using adjustNode_ok [OF assms] by metis
  have ok: "heap_ok (ws_heap ws1) (ws_fresh ws1)" using 1(2) by (simp add: ws_inv_def)
  show ?thesis
  proof (cases found)
    case None
    then show ?thesis using that 1(1,2) assms(2) by (simp add: AdjustStream_def bindE_def)
  next
    case (Some n)
    then have n: "n < ws_fresh ws1" "n \<noteq> wsRoot" using 1(3) by auto
    show ?thesis
    proof (cases "ws_nodes ws1 (StreamDep pr)")
      case None
      obtain h where h: "setParent n (Some wsRoot) (ws_heap ws1) = Inr h" "heap_ok h (ws_fresh ws1)"
          "same_payload (ws_heap ws1) h"
        using heap_ok_setParent [OF ok n, of "Some wsRoot"] heap_okD(1) [OF ok] not_above_root [OF ok n(2)] by blast
      then have "AdjustStream i pr ws = Inr (update_node n (n_weight_update (\<lambda>_. priorityDefaultWeight)) (ws1\<lparr>ws_heap := h\<rparr>))"
        using 1(1) assms(2) Some None by (simp add: AdjustStream_def bindE_def ws_setParent_def)
      then show ?thesis
        using that ws_inv_weight [OF ws_inv_heap [OF 1(2) h(2,3)]] n by simp
    next
      case (Some q)
      show ?thesis
      proof (cases "n = q")
        case True
        then show ?thesis
          using that 1(1,2) assms(2) Some \<open>found = Some n\<close> by (simp add: AdjustStream_def bindE_def)
      next
        case False
        have "q < ws_fresh ws1" using Some 1(2) refs_okD(2) by (auto simp: ws_inv_def)
        then obtain h where h: "reparent (ws_fresh ws1 + 2) n q (Exclusive pr) (ws_heap ws1) = Inr h"
            "heap_ok h (ws_fresh ws1)" "same_payload (ws_heap ws1) h"
          using reparent_ok [OF ok n(1) _ n(2) False] by metis
        then have "AdjustStream i pr ws = Inr (update_node n (n_weight_update (\<lambda>_. Weight pr)) (ws1\<lparr>ws_heap := h\<rparr>))"
          using 1(1) assms(2) Some \<open>found = Some n\<close> False by (simp add: AdjustStream_def bindE_def)
        then show ?thesis
          using that ws_inv_weight [OF ws_inv_heap [OF 1(2) h(2,3)]] n by simp
      qed
    qed
  qed
qed

text \<open>A request as the session makes it: DATA belongs to a stream.\<close>

definition request_ok :: "FrameWriteRequest \<Rightarrow> bool" where
  "request_ok wr \<longleftrightarrow> (0 < DataSize wr \<longrightarrow> wr_stream wr \<noteq> None \<and> StreamID wr \<noteq> 0)"

lemma Push_ok:
  assumes "ws_inv ws" "request_ok wr" "StreamID wr = 0 \<or> ws_nodes ws (StreamID wr) \<noteq> None \<or> DataSize wr = 0"
  obtains ws' where "Push wr ws = Inr ws'" "ws_inv ws'"
proof -
  let ?n = "if StreamID wr = 0 then wsRoot else case ws_nodes ws (StreamID wr) of Some n \<Rightarrow> n | None \<Rightarrow> wsRoot"
  have ok: "heap_ok (ws_heap ws) (ws_fresh ws)" "refs_ok ws" using assms(1) by (auto simp: ws_inv_def)
  have n: "?n < ws_fresh ws"
    using heap_okD(1) [OF ok(1)] refs_okD(2) [OF ok(2)] by (auto split: option.splits)
  have "queue_ok (ws_heap ws ?n)" using heap_okD(4) [OF ok(1) n] .
  moreover have "0 < DataSize wr \<Longrightarrow> wr_stream wr = Some (n_id (ws_heap ws ?n)) \<and> n_id (ws_heap ws ?n) \<noteq> 0"
    using assms(2,3) refs_okD(3) [OF ok(2)] by (auto simp: request_ok_def StreamID_def split: option.splits)
  ultimately have "queue_ok (n_q_update (wq_push wr) (ws_heap ws ?n))"
    by (auto simp: queue_ok_def wq_push_def)
  then have "ws_inv (update_node ?n (n_q_update (wq_push wr)) ws)"
    using assms(1) n by (intro ws_inv_update_node) auto
  moreover have "Push wr ws = Inr (update_node ?n (n_q_update (wq_push wr)) ws)"
    using assms(3) by (auto simp: Push_def bindE_def split: option.splits)
  ultimately show ?thesis using that by blast
qed

end
