(* ===== verification/PriorityPop.thy ===== *)
theory PriorityPop
  imports PrioritySched
begin

text \<open>
  \<open>Pop\<close> of the priority scheduler (\<open>writesched_priority.go\<close>): the walk over the tree ends, does not
  panic, leaves the tree as it was up to the order of siblings, and finds a frame that may be sent
  whenever a node below the root has one.
\<close>

lemmas walk_loops = detachKids.simps attachKids.simps differentWeight.simps

declare walk_loops [simp del]

subsection \<open>One node\<close>

text \<open>The first frame of the node's queue may be sent: it is no DATA, or there is credit.\<close>

definition node_ready :: "flow_store \<Rightarrow> priorityNode \<Rightarrow> bool" where
  "node_ready fs x \<longleftrightarrow> n_q x \<noteq> [] \<and> (DataSize (hd (n_q x)) = 0 \<or> 0 < sint (available fs (StreamFlow (n_id x))))"

definition flows_ok :: "flow_store \<Rightarrow> node_heap \<Rightarrow> nat \<Rightarrow> bool" where
  "flows_ok fs h N \<longleftrightarrow> (\<forall>a < N. n_id (h a) \<noteq> 0 \<longrightarrow> linked fs (n_id (h a)))"

lemma flow_take_conn: "flow_take p n fs = Inr fs' \<Longrightarrow> flow_conn (fs' r) = flow_conn (fs r)"
  by (auto simp: flow_take_def sub_n_def Let_def split: if_splits option.splits)

lemma Consume_conn: "Consume mfs n wr fs = Inr (x, fs') \<Longrightarrow> flow_conn (fs' r) = flow_conn (fs r)"
  by (auto simp: Consume_def bindE_def Let_def dest: flow_take_conn
      split: option.splits writeFramer.splits if_splits sum.splits)

lemma wq_consume_linked:
  assumes "wq_consume mfs n q fs = Inr (x, q', fs')"
  shows "linked fs' i \<longleftrightarrow> linked fs i"
proof -
  have "flow_conn (fs' r) = flow_conn (fs r)" for r
    using assms Consume_conn [of mfs n _ fs _ fs' r]
    by (auto simp: wq_consume_def wq_shift_def bindE_def split: list.splits sum.splits if_splits)
  then show ?thesis by (simp add: linked_def)
qed

lemma allowance_pos:
  "0 < sint mfs \<Longrightarrow> 0 < sint n \<Longrightarrow> 0 < allowance mfs n i fs \<longleftrightarrow> 0 < sint (available fs (StreamFlow i))"
  by (auto simp: allowance_def)

lemma wq_consume_head:
  assumes "q \<noteq> []" "DataSize (hd q) = 0"
  shows "wq_consume mfs n q fs = Inr ((hd q, True), tl q, fs)"
  using assms by (cases q) (simp_all add: wq_consume_def Consume_nondata wq_shift_def bindE_def)

lemma wq_consume_blocked:
  assumes "q \<noteq> []" "0 < DataSize (hd q)" "wr_stream (hd q) = Some i" "allowance mfs n i fs \<le> 0"
  shows "wq_consume mfs n q fs = Inr ((emptyRequest, False), q, fs)"
proof -
  obtain wr rest where q: "q = wr # rest" using assms(1) by (cases q) auto
  obtain sid p es where "wr_write wr = Some (WriteData sid p es)" "p \<noteq> []"
    using assms(2) q by (auto elim: DataSize_pos)
  then have "Consume mfs n wr fs = Inr ((emptyRequest, emptyRequest, 0), fs)"
    using Consume_blocked assms(3,4) q by auto
  then show ?thesis by (simp add: wq_consume_def q bindE_def)
qed

text \<open>What \<open>consume\<close> does to the queue of a node.\<close>

lemma consume_node:
  assumes "queue_ok x" "n_id x \<noteq> 0 \<longrightarrow> linked fs (n_id x)" "0 < sint mfs" "0 < sint l"
  obtains wr ok q' fs' where "wq_consume mfs l (n_q x) fs = Inr ((wr, ok), q', fs')"
    "ok \<longleftrightarrow> node_ready fs x" "\<not> ok \<longrightarrow> wr = emptyRequest \<and> q' = n_q x \<and> fs' = fs"
    "queue_atoms (n_q x) = (if ok then atoms wr else []) @ queue_atoms q'"
    "queue_ok (x\<lparr>n_q := q'\<rparr>)" "\<And>i. linked fs' i \<longleftrightarrow> linked fs i"
    "ok \<longrightarrow> int (DataSize wr) \<le> max 0 (min (sint mfs) (sint l))"
proof (cases "n_q x = [] \<or> DataSize (hd (n_q x)) = 0")
  case True
  then consider "n_q x = []" | "n_q x \<noteq> []" "DataSize (hd (n_q x)) = 0" by auto
  then show ?thesis
  proof cases
    case 1
    then show ?thesis
      by (intro that [of emptyRequest False "[]" fs]) (simp_all add: wq_consume_def node_ready_def queue_ok_def)
  next
    case 2
    have "set (tl (n_q x)) \<subseteq> set (n_q x)" by (cases "n_q x") auto
    moreover have "queue_atoms (n_q x) = atoms (hd (n_q x)) @ queue_atoms (tl (n_q x))"
      using 2(1) by (cases "n_q x") auto
    ultimately show ?thesis
      using 2 assms(1) wq_consume_head [OF 2]
      by (intro that [of "hd (n_q x)" True "tl (n_q x)" fs]) (auto simp: node_ready_def queue_ok_def)
  qed
next
  case False
  then have hd: "hd (n_q x) \<in> set (n_q x)" "0 < DataSize (hd (n_q x))" by auto
  then have id: "n_id x \<noteq> 0" using assms(1) by (auto simp: queue_ok_def)
  have sq: "stream_queue (n_id x) (n_q x)" using assms(1) by (auto simp: stream_queue_def queue_ok_def)
  obtain wr ok q' fs' where c: "wq_consume mfs l (n_q x) fs = Inr ((wr, ok), q', fs')" "stream_queue (n_id x) q'"
      "queue_atoms (n_q x) = (if ok then atoms wr else []) @ queue_atoms q'"
      "ok \<longrightarrow> DataSize wr = 0 \<or> (int (DataSize wr) \<le> sint mfs \<and> int (DataSize wr) \<le> sint l)"
      "\<not> ok \<longrightarrow> q' = n_q x \<and> fs' = fs \<and> (n_q x = [] \<or> 0 < DataSize (hd (n_q x)) \<and> allowance mfs l (n_id x) fs \<le> 0)"
    using wq_consume_step [OF sq, of fs mfs l] assms(2) id by metis
  have st: "wr_stream (hd (n_q x)) = Some (n_id x)" using hd assms(1) by (auto simp: queue_ok_def)
  have a: "0 < allowance mfs l (n_id x) fs \<longleftrightarrow> node_ready fs x"
    using False allowance_pos [OF assms(3,4)] by (simp add: node_ready_def)
  have "ok \<longleftrightarrow> node_ready fs x" "\<not> ok \<longrightarrow> wr = emptyRequest"
    using c(1,5) a wq_consume_blocked [OF _ hd(2) st, of mfs l fs] False by fastforce+
  moreover have "queue_ok (x\<lparr>n_q := q'\<rparr>)" using c(2) id by (simp add: queue_ok_def stream_queue_def)
  ultimately show ?thesis using c wq_consume_linked [OF c(1)] by (intro that [OF c(1)]) auto
qed

subsection \<open>Subtrees\<close>

definition below :: "(nptr \<times> nptr) set \<Rightarrow> nptr set \<Rightarrow> nptr set" where
  "below R A = R\<^sup>* `` A"

lemma below_simps: "y \<in> below R A \<longleftrightarrow> (\<exists>x \<in> A. (x, y) \<in> R\<^sup>*)"
  by (auto simp: below_def)

lemma tree_below:
  assumes "forest h K N" "A \<subseteq> {..<N}"
  shows "below (tree h N) A \<subseteq> {..<N}" "finite (below (tree h N) A)"
proof -
  show "below (tree h N) A \<subseteq> {..<N}"
    using forestD(5) [OF assms(1)] assms(2) by (auto simp: below_simps rtrancl_eq_or_trancl)
  then show "finite (below (tree h N) A)" by (rule finite_subset) simp
qed

lemma kids_tree:
  assumes "forest h K N" "n < N"
  shows "k \<in> set (K n) \<longleftrightarrow> (n, k) \<in> tree h N"
  using linksD(2) [OF forestD(1) [OF assms(1)] assms(2)] forestD(4) [OF assms(1)] by blast

lemma below_kids:
  assumes "forest h K N" "n < N"
  shows "below (tree h N) (set (K n)) = below (tree h N) {n} - {n}"
proof -
  have "(n, y) \<in> (tree h N)\<^sup>+ \<longleftrightarrow> (\<exists>k \<in> set (K n). (k, y) \<in> (tree h N)\<^sup>*)" for y
    using kids_tree [OF assms] by (metis rtrancl_into_trancl2 tranclD)
  then have "y \<in> below (tree h N) (set (K n)) \<longleftrightarrow> (n, y) \<in> (tree h N)\<^sup>+" for y by (simp add: below_simps)
  moreover have "y \<in> below (tree h N) {n} - {n} \<longleftrightarrow> (n, y) \<in> (tree h N)\<^sup>+" for y
    using forestD(3) [OF assms(1)] by (auto simp: below_simps acyclic_def rtrancl_eq_or_trancl)
  ultimately show ?thesis by blast
qed

lemma sibling_not_below:
  assumes "forest h K N" "n < N" "j \<in> set (K n)" "k \<in> set (K n)" "(j, k) \<in> (tree h N)\<^sup>*"
  shows "j = k"
proof (rule ccontr)
  assume "j \<noteq> k"
  then obtain p where p: "(j, p) \<in> (tree h N)\<^sup>*" "(p, k) \<in> tree h N" using assms(5) by (metis rtranclE)
  then have "p = n" using assms(4) kids_tree [OF assms(1,2)] by (auto simp: up_iff)
  then have "(n, n) \<in> (tree h N)\<^sup>+" using p(1) assms(3) kids_tree [OF assms(1,2)] by (metis rtrancl_into_trancl2)
  then show False using forestD(3) [OF assms(1)] by (simp add: acyclic_def)
qed

lemma below_rest:
  assumes "forest h K N" "n < N" "K n = us @ k # vs"
  shows "below (tree h N) (set vs) \<subseteq> below (tree h N) (set (k # vs)) - {k}"
proof -
  have "distinct (K n)" using linksD(1) [OF forestD(1) [OF assms(1)] assms(2)] by (simp add: siblings_def)
  then have "k \<notin> set vs" using assms(3) by auto
  then have "k \<notin> below (tree h N) (set vs)"
    using sibling_not_below [OF assms(1,2), of _ k] assms(3) by (auto simp: below_simps)
  then show ?thesis by (auto simp: below_simps)
qed

text \<open>The ancestors of a node are a chain.\<close>

lemma ancestors_chain:
  assumes "(a, y) \<in> (up P)\<^sup>*" "(b, y) \<in> (up P)\<^sup>*"
  shows "(a, b) \<in> (up P)\<^sup>* \<or> (b, a) \<in> (up P)\<^sup>*"
proof -
  have "single_valued ((up P)\<inverse>)" by (auto simp: single_valued_def up_def)
  from single_valued_confluent [OF this, of y a b] assms show ?thesis
    by (auto simp: rtrancl_converse)
qed

subsection \<open>The walk\<close>

text \<open>A state the walk may be in, with the lists of kids; and what a visit that finds nothing keeps.\<close>

definition walk_inv :: "nat \<Rightarrow> (nptr \<Rightarrow> nptr list) \<Rightarrow> pop_state \<Rightarrow> bool" where
  "walk_inv N K s \<longleftrightarrow> heap_ok (ps_heap s) N \<and> forest (ps_heap s) K N \<and> flows_ok (ps_flow s) (ps_heap s) N \<and>
     0 < sint (ps_limit s) \<and> \<not> ps_ok s \<and> ps_wr s = emptyRequest"

definition quiet :: "pop_state \<Rightarrow> pop_state \<Rightarrow> bool" where
  "quiet s s' \<longleftrightarrow> same_payload (ps_heap s) (ps_heap s') \<and> (\<forall>x. n_parent (ps_heap s' x) = n_parent (ps_heap s x)) \<and>
     ps_flow s' = ps_flow s \<and> ps_limit s' = ps_limit s"

lemma quiet_refl [simp]: "quiet s s"
  by (simp add: quiet_def)

lemma quiet_trans [trans]: "quiet s s' \<Longrightarrow> quiet s' s'' \<Longrightarrow> quiet s s''"
  by (auto simp: quiet_def intro: same_payload_trans)

lemma quiet_tree: "quiet s s' \<Longrightarrow> tree (ps_heap s') N = tree (ps_heap s) N"
  by (simp add: quiet_def parents_def fun_eq_iff up_def)

lemma quiet_ready: "quiet s s' \<Longrightarrow> node_ready (ps_flow s') (ps_heap s' x) = node_ready (ps_flow s) (ps_heap s x)"
  using same_payloadD [of "ps_heap s" "ps_heap s'" x] by (simp add: quiet_def node_ready_def)

text \<open>A visit that sends: the frame comes off the node's queue, its bytes are counted, and nothing else
  about the nodes changes.\<close>

definition sent :: "i32 \<Rightarrow> nat \<Rightarrow> nptr \<Rightarrow> pop_state \<Rightarrow> pop_state \<Rightarrow> bool" where
  "sent mfs N n s s' \<longleftrightarrow> node_ready (ps_flow s) (ps_heap s n) \<and>
     (\<exists>q'. (\<exists>l. 0 < sint l \<and> wq_consume mfs l (n_q (ps_heap s n)) (ps_flow s) = Inr ((ps_wr s', True), q', ps_flow s')) \<and>
       queue_atoms (n_q (ps_heap s n)) = atoms (ps_wr s') @ queue_atoms q' \<and>
       (\<forall>x. n_q (ps_heap s' x) = (if x = n then q' else n_q (ps_heap s x)))) \<and>
     (\<forall>x. n_id (ps_heap s' x) = n_id (ps_heap s x)) \<and>
     same_links (ps_heap s) (ps_heap s') \<and> heap_ok (ps_heap s') N \<and> flows_ok (ps_flow s') (ps_heap s') N \<and>
     int (DataSize (ps_wr s')) \<le> sint mfs \<and> ps_ok s' \<and> 0 < sint (ps_limit s')"

lemma throttle_pos:
  assumes "0 < sint (a :: i32)"
  shows "0 < sint (if a + 1024 <s 0 then max_int32 else a + 1024)"
proof (cases "a + 1024 <s 0")
  case False
  have "a + 1024 \<noteq> 0"
  proof
    assume "a + 1024 = 0"
    then have "a = - 1024" by (simp add: eq_neg_iff_add_eq_0)
    then show False using assms by simp
  qed
  then have "sint (a + 1024) \<noteq> 0" using signed_word_eqI [of "a + 1024" 0] by auto
  moreover have "0 \<le> sint (a + 1024)" using False by (simp add: word_sless_alt)
  ultimately show ?thesis using False by simp
qed (simp add: max_int32_def)

lemma popVisit_step:
  assumes "walk_inv N K s" "n < N" "0 < sint mfs"
  shows "\<not> node_ready (ps_flow s) (ps_heap s n) \<Longrightarrow> popVisit mfs (N + 2) thr n op s = Inr (False, s)"
    and "node_ready (ps_flow s) (ps_heap s n) \<Longrightarrow> \<exists>s'. popVisit mfs (N + 2) thr n op s = Inr (True, s') \<and> sent mfs N n s s'"
proof -
  let ?h = "ps_heap s" and ?l = "if op then ps_limit s else max_int32"
  note inv = assms(1) [unfolded walk_inv_def]
  have l: "0 < sint ?l" using inv by (simp add: max_int32_def)
  have q: "queue_ok (?h n)" using inv heap_okD(4) assms(2) by blast
  have fl: "n_id (?h n) \<noteq> 0 \<longrightarrow> linked (ps_flow s) (n_id (?h n))" using inv assms(2) by (simp add: flows_ok_def)
  obtain wr ok q' fs' where c: "wq_consume mfs ?l (n_q (?h n)) (ps_flow s) = Inr ((wr, ok), q', fs')"
      "ok \<longleftrightarrow> node_ready (ps_flow s) (?h n)" "\<not> ok \<longrightarrow> wr = emptyRequest \<and> q' = n_q (?h n) \<and> fs' = ps_flow s"
      "queue_atoms (n_q (?h n)) = (if ok then atoms wr else []) @ queue_atoms q'"
      "queue_ok ((?h n)\<lparr>n_q := q'\<rparr>)" "\<And>i. linked fs' i \<longleftrightarrow> linked (ps_flow s) i"
      "ok \<longrightarrow> int (DataSize wr) \<le> max 0 (min (sint mfs) (sint ?l))"
    using consume_node [OF q fl assms(3) l] by metis
  show "popVisit mfs (N + 2) thr n op s = Inr (False, s)" if "\<not> node_ready (ps_flow s) (?h n)"
    using that c(1-3) inv by (simp add: popVisit_def bindE_def Let_def)
  assume ready: "node_ready (ps_flow s) (?h n)"
  then have ok: ok using c(2) by simp
  define h1 where "h1 = ?h(n := (?h n)\<lparr>n_q := q'\<rparr>)"
  have sl: "same_links ?h h1" by (simp add: same_links_def h1_def)
  have f1: "forest h1 K N" using inv forest_same_links [OF sl] by simp
  obtain h2 where h2: "addBytes (N + 2) n (of_nat (DataSize wr)) h1 = Inr h2" "same_links h1 h2"
      "\<And>x. n_q (h2 x) = n_q (h1 x) \<and> n_id (h2 x) = n_id (h1 x)"
    using addBytes_correct [OF f1 assms(2), of "N + 2" "of_nat (DataSize wr)"]
    by (metis less_add_same_cancel1 zero_less_numeral)
  define s2 where "s2 = s\<lparr>ps_heap := h2, ps_flow := fs', ps_wr := wr, ps_ok := ok\<rparr>"
  define s3 where "s3 = (if op
      then s2\<lparr>ps_limit := if ps_limit s + 1024 <s 0 then max_int32 else ps_limit s + 1024\<rparr>
      else if thr then s2\<lparr>ps_limit := 1024\<rparr> else s2)"
  have "popVisit mfs (N + 2) thr n op s = Inr (True, s3)"
    using c(1) ok h2(1) by (simp add: popVisit_def bindE_def Let_def s3_def s2_def h1_def)
  moreover have links: "same_links ?h h2" using same_links_trans [OF sl h2(2)] .
  moreover have ids: "n_id (h2 x) = n_id (?h x)" for x using h2(3) by (simp add: h1_def)
  moreover have qs: "n_q (h2 x) = (if x = n then q' else n_q (?h x))" for x using h2(3) by (simp add: h1_def)
  moreover have "queue_ok (h2 x)" if "x < N" for x
    using c(5) qs ids heap_okD(4) [of ?h N x] inv that by (auto simp: queue_ok_def)
  then have "heap_ok h2 N" using heap_ok_update [OF _ links] inv ids by blast
  moreover have "flows_ok fs' h2 N" using inv c(6) ids by (simp add: flows_ok_def)
  moreover have "ps_heap s3 = h2" "ps_flow s3 = fs'" "ps_wr s3 = wr" "ps_ok s3" "0 < sint (ps_limit s3)"
    using ok inv throttle_pos by (auto simp: s3_def s2_def)
  ultimately show "\<exists>s'. popVisit mfs (N + 2) thr n op s = Inr (True, s') \<and> sent mfs N n s s'"
    using ready c(1,4,7) ok l assms(3) unfolding sent_def by (intro exI [of _ s3]) (simp, blast)
qed

text \<open>The outcome of a walk over the nodes below \<open>A\<close>, from the state \<open>s\<close>: it finds nothing to send and
  changes nothing but the order of siblings, or it sends from a ready node none of whose ancestors
  below \<open>A\<close> is ready.\<close>

definition walked :: "i32 \<Rightarrow> nat \<Rightarrow> nptr set \<Rightarrow> (nptr \<Rightarrow> nptr list) \<Rightarrow> pop_state \<Rightarrow> bool \<Rightarrow> pop_state \<Rightarrow> bool" where
  "walked mfs N A K s stop s' \<longleftrightarrow>
     (if stop
      then \<exists>k \<in> A. \<exists>y s1. (k, y) \<in> (tree (ps_heap s) N)\<^sup>* \<and> quiet s s1 \<and> sent mfs N y s1 s' \<and>
             (\<forall>a. (k, a) \<in> (tree (ps_heap s) N)\<^sup>* \<and> (a, y) \<in> (tree (ps_heap s) N)\<^sup>+ \<longrightarrow>
                \<not> node_ready (ps_flow s) (ps_heap s a))
      else quiet s s' \<and> (\<exists>K'. walk_inv N K' s' \<and> (\<forall>x. x \<notin> below (tree (ps_heap s) N) A \<longrightarrow> K' x = K x)) \<and>
             (\<forall>y \<in> below (tree (ps_heap s) N) A. \<not> node_ready (ps_flow s) (ps_heap s y)))"

lemma walked_node:
  assumes "forest (ps_heap s) K N" "n < N" "\<not> node_ready (ps_flow s) (ps_heap s n)"
    and "walked mfs N (set (K n)) K' s stop s'" "\<And>x. x \<noteq> n \<Longrightarrow> K' x = K x"
  shows "walked mfs N {n} K s stop s'"
proof (cases stop)
  case True
  let ?R = "tree (ps_heap s) N"
  obtain k y s1 where k: "k \<in> set (K n)" "(k, y) \<in> ?R\<^sup>*" "quiet s s1" "sent mfs N y s1 s'"
      "\<And>a. (k, a) \<in> ?R\<^sup>* \<Longrightarrow> (a, y) \<in> ?R\<^sup>+ \<Longrightarrow> \<not> node_ready (ps_flow s) (ps_heap s a)"
    using assms(4) True unfolding walked_def by (simp only: if_True) blast
  have nk: "(n, k) \<in> ?R" using k(1) kids_tree [OF assms(1,2)] by simp
  have "\<not> node_ready (ps_flow s) (ps_heap s a)" if a: "(n, a) \<in> ?R\<^sup>*" "(a, y) \<in> ?R\<^sup>+" for a
  proof (cases "a = n \<or> (k, a) \<in> ?R\<^sup>*")
    case False
    then have ak: "(a, k) \<in> ?R\<^sup>*" "a \<noteq> k"
      using ancestors_chain [of a y _ k] a(2) k(2) by (auto dest: trancl_into_rtrancl)
    then obtain p where "(a, p) \<in> ?R\<^sup>*" "(p, k) \<in> ?R" by (metis rtranclE)
    then have "(a, n) \<in> ?R\<^sup>*" using nk by (auto simp: up_iff)
    then have "(n, n) \<in> ?R\<^sup>+" using False a(1) by (metis rtrancl_eq_or_trancl rtrancl_trancl_trancl)
    then show ?thesis using forestD(3) [OF assms(1)] by (simp add: acyclic_def)
  qed (use assms(3) k(5) a in auto)
  then show ?thesis
    using True k(3,4) converse_rtrancl_into_rtrancl [OF nk k(2)] unfolding walked_def by (simp only: if_True) blast
next
  case False
  let ?R = "tree (ps_heap s) N"
  note D = below_kids [OF assms(1,2)]
  obtain K2 where K2: "quiet s s'" "walk_inv N K2 s'" "\<And>x. x \<notin> below ?R (set (K n)) \<Longrightarrow> K2 x = K' x"
      "\<And>y. y \<in> below ?R (set (K n)) \<Longrightarrow> \<not> node_ready (ps_flow s) (ps_heap s y)"
    using assms(4) False unfolding walked_def by (simp only: if_False) blast
  have n: "n \<in> below ?R {n}" by (simp add: below_simps)
  have "K2 x = K x" if "x \<notin> below ?R {n}" for x
    using that n K2(3) [of x] assms(5) [of x] by (auto simp: D)
  moreover have "\<not> node_ready (ps_flow s) (ps_heap s y)" if "y \<in> below ?R {n}" for y
    using that K2(4) [of y] assms(3) by (auto simp: D)
  ultimately show ?thesis using K2(1,2) False by (auto simp: walked_def)
qed

lemma walked_kids:
  assumes "walked mfs N {k} K s False s1" "walk_inv N K1 s1" "walked mfs N (set vs) K1 s1 stop s'"
    and "\<And>x. x \<notin> below (tree (ps_heap s) N) {k} \<Longrightarrow> K1 x = K x"
  shows "walked mfs N (set (k # vs)) K s stop s'"
proof -
  have q: "quiet s s1" using assms(1) by (simp add: walked_def)
  note R = quiet_tree [OF q, of N] and rd = quiet_ready [OF q]
  show ?thesis
  proof (cases stop)
    case True
    then show ?thesis
      using assms(3) quiet_trans [OF q] unfolding walked_def R rd by (simp only: if_True) (metis list.set_intros(2))
  next
    case False
    let ?R = "tree (ps_heap s) N"
    have D: "below ?R (set (k # vs)) = below ?R {k} \<union> below ?R (set vs)" by (auto simp: below_simps)
    obtain K2 where K2: "quiet s1 s'" "walk_inv N K2 s'" "\<And>x. x \<notin> below ?R (set vs) \<Longrightarrow> K2 x = K1 x"
        "\<And>y. y \<in> below ?R (set vs) \<Longrightarrow> \<not> node_ready (ps_flow s) (ps_heap s y)"
      using assms(3) False unfolding walked_def R rd by (simp only: if_False) blast
    have "\<forall>y \<in> below ?R {k}. \<not> node_ready (ps_flow s) (ps_heap s y)" using assms(1) by (simp add: walked_def)
    moreover have "K2 x = K x" if "x \<notin> below ?R (set (k # vs))" for x
      using that K2(3) [of x] assms(4) [of x] unfolding D by simp
    ultimately show ?thesis
      using K2(2,4) quiet_trans [OF q K2(1)] False unfolding walked_def D by (simp only: if_False) blast
  qed
qed

text \<open>What is used of \<open>sort.Sort\<close>: it rearranges its slice, by calls of \<open>Swap\<close>.\<close>

definition sort_ok :: "sorting \<Rightarrow> bool" where
  "sort_ok srt \<longleftrightarrow> (\<forall>less xs. mset (srt less xs) = mset xs)"

text \<open>Sorting the kids of a node is no more than a change of their order.\<close>

lemma resort_quiet:
  assumes "walk_inv N K s" "n < N" "sort_ok srt"
  obtains h1 h2 ks where "detachKids (N + 2) n [] (ps_heap s) = Inr (K n, h1)"
    "attachKids n (srt (Less h1) (K n)) h1 = Inr h2" "set ks = set (K n)" "n_kids (h2 n) = hd_opt ks"
    "walk_inv N (K(n := ks)) (s\<lparr>ps_heap := h2\<rparr>)" "quiet s (s\<lparr>ps_heap := h2\<rparr>)"
proof -
  have f: "forest (ps_heap s) K N" using assms(1) by (simp add: walk_inv_def)
  obtain h0 where h0: "detachKids (N + 2) n [] (ps_heap s) = Inr (K n, h0)"
    using resort_correct [OF f assms(2) refl, of "N + 2"] by auto
  let ?ks = "srt (Less h0) (K n)"
  have perm: "mset ?ks = mset (K n)" using assms(3) by (simp add: sort_ok_def)
  obtain h1 h2 where h: "detachKids (N + 2) n [] (ps_heap s) = Inr (K n, h1)" "attachKids n ?ks h1 = Inr h2"
      "same_payload (ps_heap s) h2" "forest h2 (K(n := ?ks)) N" "\<And>x. n_parent (h2 x) = n_parent (ps_heap s x)"
    using resort_correct [OF f assms(2) perm, of "N + 2"] by (metis less_add_same_cancel1 zero_less_numeral)
  have q: "quiet s (s\<lparr>ps_heap := h2\<rparr>)" using h(3,5) by (simp add: quiet_def)
  have "heap_ok h2 N"
    using heap_ok_relink [OF _ h(4,3)] assms(1) h(5) heap_okD(2) by (simp add: walk_inv_def)
  moreover have "flows_ok (ps_flow s) h2 N"
    using assms(1) same_payloadD(2) [OF h(3)] by (simp add: walk_inv_def flows_ok_def)
  ultimately have "walk_inv N (K(n := ?ks)) (s\<lparr>ps_heap := h2\<rparr>)" using assms(1) h(4) by (simp add: walk_inv_def)
  moreover have "h1 = h0" using h(1) h0 by simp
  moreover have "n_kids (h2 n) = hd_opt ?ks" using links_kids [OF forestD(1) [OF h(4)] assms(2)] by simp
  ultimately show ?thesis using that [OF h(1) _ _ _ _ q] h(2) mset_eq_setD [OF perm] by blast
qed

lemma walked_Nil: "walk_inv N K s \<Longrightarrow> walked mfs N {} K s False s"
  by (auto simp: walked_def below_simps)

lemma walked_quiet:
  assumes "quiet s s1" "walked mfs N A K s1 stop s'"
  shows "walked mfs N A K s stop s'"
  using assms(2) quiet_trans [OF assms(1)] unfolding walked_def quiet_tree [OF assms(1)] quiet_ready [OF assms(1)]
  by (cases stop) (simp_all only: if_True if_False, blast+)

lemma walked_stop_mono: "walked mfs N {k} K s True s' \<Longrightarrow> k \<in> A \<Longrightarrow> walked mfs N A K s True s'"
  unfolding walked_def by (simp only: if_True) blast

lemma walked_here:
  assumes "forest (ps_heap s) K N" "sent mfs N n s s'"
  shows "walked mfs N {n} K s True s'"
proof -
  have "\<not> ((n, a) \<in> (tree (ps_heap s) N)\<^sup>* \<and> (a, n) \<in> (tree (ps_heap s) N)\<^sup>+)" for a
    using forestD(3) [OF assms(1)] by (meson acyclic_def rtrancl_trancl_trancl)
  then show ?thesis using assms(2) quiet_refl unfolding walked_def by (simp only: if_True) blast
qed

lemma walk_node_step:
  assumes srt: "sort_ok srt" and mfs: "0 < sint mfs"
    and inv: "walk_inv N K s" and n: "n < N" and fuel: "2 * card (below (tree (ps_heap s) N) {n}) \<le> Suc fuel"
    and IH: "\<And>K s op vs. walk_inv N K s \<Longrightarrow> K n = vs \<Longrightarrow> 2 * card (below (tree (ps_heap s) N) (set vs)) < fuel \<Longrightarrow>
      \<exists>stop s'. walkKids srt (N + 2) (popVisit mfs (N + 2) thr) fuel (hd_opt vs) op s = Inr (stop, s') \<and>
        walked mfs N (set vs) K s stop s'"
  shows "\<exists>stop s'. walkReadyInOrder srt (N + 2) (popVisit mfs (N + 2) thr) (Suc fuel) n op s = Inr (stop, s') \<and>
    walked mfs N {n} K s stop s'"
proof (cases "node_ready (ps_flow s) (ps_heap s n)")
  case True
  then obtain s' where "popVisit mfs (N + 2) thr n op s = Inr (True, s')" "sent mfs N n s s'"
    using popVisit_step(2) [OF inv n mfs] by blast
  moreover have "\<not> wq_empty (n_q (ps_heap s n))" using True by (simp add: node_ready_def wq_empty_def)
  ultimately show ?thesis using walked_here inv by (auto simp: walk_inv_def)
next
  case False
  let ?h = "ps_heap s"
  have f: "forest ?h K N" using inv by (simp add: walk_inv_def)
  have visit: "(if wq_empty (n_q (?h n)) then Inr (False, s) else popVisit mfs (N + 2) thr n op s) = Inr (False, s)"
    using popVisit_step(1) [OF inv n mfs False] by simp
  have "n \<in> below (tree ?h N) {n}" "finite (below (tree ?h N) {n})"
    using tree_below(2) [OF f, of "{n}"] n by (simp_all add: below_simps)
  then have "card (below (tree ?h N) (set (K n))) = card (below (tree ?h N) {n}) - 1"
      "0 < card (below (tree ?h N) {n})"
    unfolding below_kids [OF f n] by (simp_all add: card_Diff_singleton card_gt_0_iff) blast
  then have card: "2 * card (below (tree ?h N) (set (K n))) < fuel" using fuel by linarith
  show ?thesis
  proof (cases "K n")
    case Nil
    then have "walkReadyInOrder srt (N + 2) (popVisit mfs (N + 2) thr) (Suc fuel) n op s = Inr (False, s)"
      unfolding walkReadyInOrder.simps(2) visit using links_kids [OF forestD(1) [OF f] n] Nil by simp
    moreover have "walked mfs N {n} K s False s"
      using walked_node [OF f n False, of mfs K False s] walked_Nil [OF inv] Nil by simp
    ultimately show ?thesis by blast
  next
    case (Cons k ks)
    note l = forestD(1) [OF f]
    have k: "n_kids (?h n) = Some k" "n_next (?h k) = hd_opt ks"
      using links_kids [OF l n] links_next(1) [OF l n, of "[]" k ks] Cons by auto
    obtain b where b: "differentWeight (N + 2) (n_weight (?h k)) (hd_opt ks) ?h = Inr b"
      using differentWeight_correct [OF l n, of "[k]" ks "N + 2"] links_length [OF l n] Cons by auto
    let ?op = "if n_id (?h n) \<noteq> 0 then op \<or> n_state (?h n) = PriorityNodeOpen else op"
    show ?thesis
    proof (cases b)
      case False
      then obtain stop s' where w: "walkKids srt (N + 2) (popVisit mfs (N + 2) thr) fuel (Some k) ?op s = Inr (stop, s')"
          "walked mfs N (set (K n)) K s stop s'"
        using IH [OF inv refl card, of ?op] Cons by auto
      have "walkReadyInOrder srt (N + 2) (popVisit mfs (N + 2) thr) (Suc fuel) n op s = Inr (stop, s')"
        unfolding walkReadyInOrder.simps(2) visit using k b False w(1) by (simp add: Let_def)
      then show ?thesis
        using walked_node [OF f n \<open>\<not> node_ready (ps_flow s) (?h n)\<close> w(2)] by blast
    next
      case True
      obtain h1 h2 ks' where r: "detachKids (N + 2) n [] ?h = Inr (K n, h1)"
          "attachKids n (srt (Less h1) (K n)) h1 = Inr h2" "set ks' = set (K n)" "n_kids (h2 n) = hd_opt ks'"
          "walk_inv N (K(n := ks')) (s\<lparr>ps_heap := h2\<rparr>)" "quiet s (s\<lparr>ps_heap := h2\<rparr>)"
        using resort_quiet [OF inv n srt] by metis
      have "(K(n := ks')) n = ks'" "2 * card (below (tree (ps_heap (s\<lparr>ps_heap := h2\<rparr>)) N) (set ks')) < fuel"
        using card quiet_tree [OF r(6), of N] r(3) by auto
      from IH [OF r(5) this, of ?op] obtain stop s' where
          w: "walkKids srt (N + 2) (popVisit mfs (N + 2) thr) fuel (hd_opt ks') ?op (s\<lparr>ps_heap := h2\<rparr>) = Inr (stop, s')"
          "walked mfs N (set ks') (K(n := ks')) (s\<lparr>ps_heap := h2\<rparr>) stop s'"
        by blast
      have "walkReadyInOrder srt (N + 2) (popVisit mfs (N + 2) thr) (Suc fuel) n op s = Inr (stop, s')"
        unfolding walkReadyInOrder.simps(2) visit using k b True w(1) r(1,2,4) by (simp add: Let_def)
      then show ?thesis
        using walked_node [OF f n \<open>\<not> node_ready (ps_flow s) (?h n)\<close> walked_quiet [OF r(6) w(2) [unfolded r(3)]]]
        by (metis fun_upd_other)
    qed
  qed
qed

lemma walk_kids_step:
  assumes inv: "walk_inv N K s" and q: "q < N" "K q = us @ vs"
    and fuel: "2 * card (below (tree (ps_heap s) N) (set vs)) < Suc fuel"
    and IH1: "\<And>K s n. walk_inv N K s \<Longrightarrow> n < N \<Longrightarrow> 2 * card (below (tree (ps_heap s) N) {n}) \<le> fuel \<Longrightarrow>
      \<exists>stop s'. walkReadyInOrder srt (N + 2) f fuel n op s = Inr (stop, s') \<and> walked mfs N {n} K s stop s'"
    and IH2: "\<And>K s us vs. walk_inv N K s \<Longrightarrow> K q = us @ vs \<Longrightarrow> 2 * card (below (tree (ps_heap s) N) (set vs)) < fuel \<Longrightarrow>
      \<exists>stop s'. walkKids srt (N + 2) f fuel (hd_opt vs) op s = Inr (stop, s') \<and> walked mfs N (set vs) K s stop s'"
  shows "\<exists>stop s'. walkKids srt (N + 2) f (Suc fuel) (hd_opt vs) op s = Inr (stop, s') \<and>
    walked mfs N (set vs) K s stop s'"
proof (cases vs)
  case Nil
  then show ?thesis using walked_Nil [OF inv] by auto
next
  case (Cons k vs')
  let ?R = "tree (ps_heap s) N"
  have fo: "forest (ps_heap s) K N" using inv by (simp add: walk_inv_def)
  have Kq: "K q = us @ k # vs'" using q(2) Cons by simp
  have kN: "k < N" and kq: "(q, k) \<in> ?R"
    using links_next(3) [OF forestD(1) [OF fo] q(1) Kq] kids_tree [OF fo q(1), of k] Kq by auto
  have vsN: "set vs \<subseteq> {..<N}" using linksD(2) [OF forestD(1) [OF fo] q(1)] q(2) by auto
  note fin = tree_below(2) [OF fo vsN]
  have "below ?R {k} \<subseteq> below ?R (set vs)" "k \<in> below ?R (set vs)" using Cons by (auto simp: below_simps)
  then have "card (below ?R {k}) \<le> card (below ?R (set vs))" and pos: "0 < card (below ?R (set vs))"
    using card_mono [OF fin] card_gt_0_iff fin by auto
  then obtain stop s1 where w: "walkReadyInOrder srt (N + 2) f fuel k op s = Inr (stop, s1)" "walked mfs N {k} K s stop s1"
    using IH1 [OF inv kN] fuel by auto
  show ?thesis
  proof (cases stop)
    case True
    then show ?thesis using w walked_stop_mono [of mfs N k K s s1 "set vs"] Cons by auto
  next
    case False
    then obtain K1 where K1: "quiet s s1" "walk_inv N K1 s1" "\<And>x. x \<notin> below ?R {k} \<Longrightarrow> K1 x = K x"
      using w(2) by (auto simp: walked_def)
    have "q \<notin> below ?R {k}"
      using kq forestD(3) [OF fo] by (auto simp: below_simps acyclic_def dest: rtrancl_into_trancl1)
    then have K1q: "K1 q = us @ k # vs'" using K1(3) Kq by simp
    have f1: "links (ps_heap s1) K1 N" using K1(2) by (simp add: walk_inv_def forestD(1))
    have nx: "n_next (ps_heap s1 k) = hd_opt vs'" using links_next(1) [OF f1 q(1) K1q] .
    have "card (below ?R (set vs')) \<le> card (below ?R (set vs) - {k})"
      using below_rest [OF fo q(1) Kq] fin Cons by (intro card_mono) auto
    then have "2 * card (below (tree (ps_heap s1) N) (set vs')) < fuel"
      using fuel pos \<open>k \<in> below ?R (set vs)\<close> unfolding quiet_tree [OF K1(1)] by (simp add: card_Diff_singleton)
    then obtain stop' s' where "walkKids srt (N + 2) f fuel (hd_opt vs') op s1 = Inr (stop', s')"
        "walked mfs N (set vs') K1 s1 stop' s'"
      using IH2 [OF K1(2), of "us @ [k]" vs'] K1q by auto
    then show ?thesis
      using w False Cons nx walked_kids [OF _ K1(2), of mfs k K s vs' stop' s'] K1(3) by auto
  qed
qed

lemma walk_correct:
  assumes "sort_ok srt" "0 < sint mfs"
  shows "walk_inv N K s \<Longrightarrow> n < N \<Longrightarrow> 2 * card (below (tree (ps_heap s) N) {n}) \<le> fuel \<Longrightarrow>
      \<exists>stop s'. walkReadyInOrder srt (N + 2) (popVisit mfs (N + 2) thr) fuel n op s = Inr (stop, s') \<and>
        walked mfs N {n} K s stop s'"
    and "walk_inv N K s \<Longrightarrow> q < N \<Longrightarrow> K q = us @ vs \<Longrightarrow>
      2 * card (below (tree (ps_heap s) N) (set vs)) < fuel \<Longrightarrow>
      \<exists>stop s'. walkKids srt (N + 2) (popVisit mfs (N + 2) thr) fuel (hd_opt vs) op s = Inr (stop, s') \<and>
        walked mfs N (set vs) K s stop s'"
proof (induction fuel arbitrary: K s n op q us vs)
  case 0
  {
    case 1
    have "n \<in> below (tree (ps_heap s) N) {n}" by (simp add: below_simps)
    then have "0 < card (below (tree (ps_heap s) N) {n})"
      using tree_below(2) [of "ps_heap s" K N "{n}"] 1 by (auto simp: walk_inv_def card_gt_0_iff)
    then show ?case using 1 by simp
  next
    case 2
    then show ?case by simp
  }
next
  case (Suc fuel)
  {
    case 1
    show ?case
      by (rule walk_node_step [OF assms 1]) (use Suc.IH(2) [of _ _ n "[]"] 1(2) in auto)
  next
    case 2
    show ?case
      by (rule walk_kids_step [OF 2]) (use Suc.IH 2(2) in blast)+
  }
qed

subsection \<open>\<open>Pop\<close>\<close>

definition pop_inv :: "priorityWriteScheduler \<Rightarrow> flow_store \<Rightarrow> bool" where
  "pop_inv ws fs \<longleftrightarrow> ws_inv ws \<and> flows_ok fs (ws_heap ws) (ws_fresh ws) \<and> 0 < sint (ws_writeThrottleLimit ws)"

text \<open>The nodes that the walk can reach.\<close>

definition in_tree :: "priorityWriteScheduler \<Rightarrow> nptr \<Rightarrow> bool" where
  "in_tree ws y \<longleftrightarrow> (wsRoot, y) \<in> (tree (ws_heap ws) (ws_fresh ws))\<^sup>*"

definition ancestor :: "priorityWriteScheduler \<Rightarrow> nptr \<Rightarrow> nptr \<Rightarrow> bool" where
  "ancestor ws a y \<longleftrightarrow> (a, y) \<in> (tree (ws_heap ws) (ws_fresh ws))\<^sup>+"

lemma Pop_walked:
  assumes "pop_inv ws fs" "sort_ok srt" "0 < sint mfs"
  obtains stop s K s' where "walk_inv (ws_fresh ws) K s" "walked mfs (ws_fresh ws) {wsRoot} K s stop s'"
    "ps_heap s = ws_heap ws" "ps_flow s = fs" "ps_limit s = ws_writeThrottleLimit ws"
    "Pop srt mfs ws fs = Inr ((ps_wr s', ps_ok s'),
      ws\<lparr>ws_heap := ps_heap s', ws_writeThrottleLimit := ps_limit s'\<rparr>, ps_flow s')"
proof -
  let ?N = "ws_fresh ws"
  define s where "s = \<lparr>ps_heap = ws_heap ws, ps_limit = ws_writeThrottleLimit ws, ps_flow = fs,
    ps_wr = emptyRequest, ps_ok = False\<rparr>"
  have ok: "heap_ok (ws_heap ws) ?N" using assms(1) by (simp add: pop_inv_def ws_inv_def)
  obtain K where K: "forest (ws_heap ws) K ?N" using heap_okE [OF ok] .
  have inv: "walk_inv ?N K s" using assms(1) ok K by (simp add: walk_inv_def pop_inv_def s_def)
  have root: "wsRoot < ?N" using heap_okD(1) [OF ok] .
  have "card (below (tree (ws_heap ws) ?N) {wsRoot}) \<le> card {..<?N}"
    using tree_below(1) [OF K, of "{wsRoot}"] root by (intro card_mono) auto
  then obtain stop s' where
      w: "walkReadyInOrder srt (?N + 2) (popVisit mfs (?N + 2) (ws_enableWriteThrottle ws)) (2 * (?N + 2)) wsRoot False s = Inr (stop, s')"
      "walked mfs ?N {wsRoot} K s stop s'"
    using walk_correct(1) [OF assms(2,3) inv root, of "2 * (?N + 2)" "ws_enableWriteThrottle ws" False] by (auto simp: s_def)
  have "Pop srt mfs ws fs = Inr ((ps_wr s', ps_ok s'),
      ws\<lparr>ws_heap := ps_heap s', ws_writeThrottleLimit := ps_limit s'\<rparr>, ps_flow s')"
    using w(1) by (simp only: Pop_def Let_def s_def [symmetric] bindE_Inr prod.case)
  then show ?thesis using that [OF inv w(2)] by (simp add: s_def)
qed

lemma Pop_ok:
  assumes "pop_inv ws fs" "sort_ok srt" "0 < sint mfs"
  obtains wr ok ws' fs' where "Pop srt mfs ws fs = Inr ((wr, ok), ws', fs')" "pop_inv ws' fs'"
    "ok \<longleftrightarrow> (\<exists>y. in_tree ws y \<and> node_ready fs (ws_heap ws y))"
    "\<And>x. n_parent (ws_heap ws' x) = n_parent (ws_heap ws x)"
    "ws_fresh ws' = ws_fresh ws" "ws_nodes ws' = ws_nodes ws" "\<And>i. linked fs' i \<longleftrightarrow> linked fs i"
    "\<not> ok \<Longrightarrow> fs' = fs \<and> (\<forall>x. n_q (ws_heap ws' x) = n_q (ws_heap ws x))"
    "ok \<Longrightarrow> \<exists>y. in_tree ws y \<and> node_ready fs (ws_heap ws y) \<and>
       (\<forall>a. ancestor ws a y \<longrightarrow> in_tree ws a \<longrightarrow> \<not> node_ready fs (ws_heap ws a)) \<and>
       queue_atoms (n_q (ws_heap ws y)) = atoms wr @ queue_atoms (n_q (ws_heap ws' y)) \<and>
       (\<forall>x. x \<noteq> y \<longrightarrow> n_q (ws_heap ws' x) = n_q (ws_heap ws x)) \<and> int (DataSize wr) \<le> sint mfs"
proof -
  obtain stop s K s' where w: "walk_inv (ws_fresh ws) K s" "walked mfs (ws_fresh ws) {wsRoot} K s stop s'"
      "ps_heap s = ws_heap ws" "ps_flow s = fs" "ps_limit s = ws_writeThrottleLimit ws"
      "Pop srt mfs ws fs = Inr ((ps_wr s', ps_ok s'),
        ws\<lparr>ws_heap := ps_heap s', ws_writeThrottleLimit := ps_limit s'\<rparr>, ps_flow s')"
    using Pop_walked [OF assms] .
  show ?thesis
  proof (cases stop)
    case True
    let ?R = "tree (ps_heap s) (ws_fresh ws)"
    obtain y s1 where y: "(wsRoot, y) \<in> ?R\<^sup>*" "quiet s s1" "sent mfs (ws_fresh ws) y s1 s'"
        "\<And>a. (wsRoot, a) \<in> ?R\<^sup>* \<Longrightarrow> (a, y) \<in> ?R\<^sup>+ \<Longrightarrow> \<not> node_ready fs (ws_heap ws a)"
      using w(2) True w(3,4) unfolding walked_def by (simp only: if_True) blast
    have q: "n_q (ps_heap s1 x) = n_q (ws_heap ws x)" "n_id (ps_heap s1 x) = n_id (ws_heap ws x)"
        "n_parent (ps_heap s1 x) = n_parent (ws_heap ws x)" for x
      using y(2) same_payloadD [of "ps_heap s" "ps_heap s1" x] w(3) by (auto simp: quiet_def)
    have rd: "node_ready fs (ws_heap ws y)"
      using y(3) quiet_ready [OF y(2), of y] w(3,4) by (simp add: sent_def)
    have "ws_inv (ws\<lparr>ws_heap := ps_heap s', ws_writeThrottleLimit := ps_limit s'\<rparr>)"
      using assms(1) y(3) q(2) by (auto simp: pop_inv_def ws_inv_def refs_ok_def sent_def)
    then have "pop_inv (ws\<lparr>ws_heap := ps_heap s', ws_writeThrottleLimit := ps_limit s'\<rparr>) (ps_flow s')"
      using y(3) by (auto simp: pop_inv_def sent_def)
    moreover have "linked (ps_flow s') i \<longleftrightarrow> linked fs i" for i
      using y(2,3) w(4) wq_consume_linked by (auto simp: sent_def quiet_def)
    ultimately show ?thesis
      using y rd q w(3) by (intro that [OF w(6)]) (auto simp: sent_def in_tree_def ancestor_def same_links_def)
  next
    case False
    then have nr: "\<not> (\<exists>y. in_tree ws y \<and> node_ready fs (ws_heap ws y))" and q: "quiet s s'"
        and inv: "\<exists>K'. walk_inv (ws_fresh ws) K' s'"
      using w(2-4) by (auto simp: walked_def below_simps in_tree_def)
    have p: "same_payload (ws_heap ws) (ps_heap s')" using q w(3) by (simp add: quiet_def)
    have "pop_inv (ws\<lparr>ws_heap := ps_heap s', ws_writeThrottleLimit := ps_limit s'\<rparr>) (ps_flow s')"
      using assms(1) inv same_payloadD(2) [OF p] by (auto simp: pop_inv_def ws_inv_def refs_ok_def walk_inv_def)
    then show ?thesis
      using nr inv q w(3,4) same_payloadD(1) [OF p]
      by (intro that [OF w(6)]) (auto simp: walk_inv_def quiet_def)
  qed
qed

text \<open>When \<open>Pop\<close> has returned nothing, there is still nothing to return.\<close>

lemma Pop_none:
  assumes "pop_inv ws fs" "sort_ok srt" "0 < sint mfs" "Pop srt mfs ws fs = Inr ((wr, False), ws', fs')"
  shows "\<not> (\<exists>y. in_tree ws' y \<and> node_ready fs' (ws_heap ws' y))"
proof -
  obtain stop s K s' where w: "walked mfs (ws_fresh ws) {wsRoot} K s stop s'" "ps_heap s = ws_heap ws" "ps_flow s = fs"
      "Pop srt mfs ws fs = Inr ((ps_wr s', ps_ok s'),
        ws\<lparr>ws_heap := ps_heap s', ws_writeThrottleLimit := ps_limit s'\<rparr>, ps_flow s')"
    using Pop_walked [OF assms(1-3)] by metis
  have "\<not> stop" using w(1,4) assms(4) by (auto simp: walked_def sent_def)
  then have nr: "\<not> (\<exists>y. in_tree ws y \<and> node_ready fs (ws_heap ws y))" and q: "quiet s s'"
    using w(1-3) by (auto simp: walked_def below_simps in_tree_def)
  have "in_tree ws' y = in_tree ws y" "node_ready fs' (ws_heap ws' y) = node_ready fs (ws_heap ws y)" for y
    using w(2-4) assms(4) quiet_tree [OF q] quiet_ready [OF q] by (auto simp: in_tree_def)
  then show ?thesis using nr by simp
qed

end
