(* ===== verification/PriorityProps.thy ===== *)
theory PriorityProps
  imports PriorityPop
begin

text \<open>
  What the priority write scheduler promises (\<open>WriteScheduler\<close> in \<open>writesched.go\<close>, implemented in
  \<open>writesched_priority.go\<close>), as properties of its operations and of runs of calls.
\<close>

subsection \<open>Calls\<close>

datatype ws_call =
    CallOpen u32 u32
  | CallClose u32
  | CallAdjust u32 PriorityParam
  | CallPush FrameWriteRequest
  | CallPop i32

type_synonym ws_state = "priorityWriteScheduler \<times> flow_store"

fun ws_step :: "sorting \<Rightarrow> ws_call \<Rightarrow> ws_state \<Rightarrow> go_panic + ws_state" where
  "ws_step srt (CallOpen i p) (ws, fs) = bindE (OpenStream i p ws) (\<lambda>ws'. Inr (ws', fs))"
| "ws_step srt (CallClose i) (ws, fs) = bindE (CloseStream i ws) (\<lambda>ws'. Inr (ws', fs))"
| "ws_step srt (CallAdjust i pr) (ws, fs) = bindE (AdjustStream i pr ws) (\<lambda>ws'. Inr (ws', fs))"
| "ws_step srt (CallPush wr) (ws, fs) = bindE (Push wr ws) (\<lambda>ws'. Inr (ws', fs))"
| "ws_step srt (CallPop mfs) (ws, fs) = bindE (Pop srt mfs ws fs) (\<lambda>(_, ws', fs'). Inr (ws', fs'))"

fun ws_run :: "sorting \<Rightarrow> ws_call list \<Rightarrow> ws_state \<Rightarrow> go_panic + ws_state" where
  "ws_run srt [] s = Inr s"
| "ws_run srt (c # cs) s = bindE (ws_step srt c s) (ws_run srt cs)"

text \<open>The calls that the interface forbids, with the state that makes them so.\<close>

fun call_refused :: "ws_call \<Rightarrow> priorityWriteScheduler \<Rightarrow> bool" where
  "call_refused (CallOpen i p) ws \<longleftrightarrow>
     (case ws_nodes ws i of None \<Rightarrow> False | Some n \<Rightarrow> n_state (ws_heap ws n) \<noteq> PriorityNodeIdle)"
| "call_refused (CallClose i) ws \<longleftrightarrow> i = 0 \<or>
     (case ws_nodes ws i of None \<Rightarrow> True | Some n \<Rightarrow> n_state (ws_heap ws n) \<noteq> PriorityNodeOpen)"
| "call_refused (CallAdjust i pr) ws \<longleftrightarrow> i = 0"
| "call_refused (CallPush wr) ws \<longleftrightarrow> StreamID wr \<noteq> 0 \<and> ws_nodes ws (StreamID wr) = None \<and> 0 < DataSize wr"
| "call_refused (CallPop mfs) ws \<longleftrightarrow> False"

definition call_ok :: "ws_call \<Rightarrow> bool" where
  "call_ok c \<longleftrightarrow> (case c of CallPush wr \<Rightarrow> request_ok wr | CallPop mfs \<Rightarrow> 0 < sint mfs | _ \<Rightarrow> True)"

definition run_inv :: "ws_state \<Rightarrow> bool" where
  "run_inv s \<longleftrightarrow> pop_inv (fst s) (snd s) \<and> (\<forall>i. linked (snd s) i)"

lemma New_inv: "ws_inv (NewPriorityWriteScheduler cfg)"
proof -
  have "parents (\<lambda>_. zeroNode) 1 = (\<lambda>_. None)" by (simp add: parents_def zeroNode_def fun_eq_iff)
  then have "forest (\<lambda>_. zeroNode) (\<lambda>_. []) 1"
    by (simp add: forest_def links_def siblings_def zeroNode_def up_def)
  then show ?thesis
    by (auto simp: NewPriorityWriteScheduler_def ws_inv_def heap_ok_def refs_ok_def Let_def zeroNode_def queue_ok_def
        split: if_splits)
qed

lemma New_run_inv: "(\<And>i. linked fs i) \<Longrightarrow> run_inv (NewPriorityWriteScheduler cfg, fs)"
  using New_inv [of cfg]
  by (simp add: run_inv_def pop_inv_def flows_ok_def) (simp add: NewPriorityWriteScheduler_def Let_def max_int32_def)

lemma throttle_unchanged:
  "OpenStream i p ws = Inr ws' \<Longrightarrow> ws_writeThrottleLimit ws' = ws_writeThrottleLimit ws"
  "removeNode n ws = Inr ws' \<Longrightarrow> ws_writeThrottleLimit ws' = ws_writeThrottleLimit ws"
  "Push wr ws = Inr ws' \<Longrightarrow> ws_writeThrottleLimit ws' = ws_writeThrottleLimit ws"
  by (auto simp: OpenStream_def ws_setParent_def removeNode_def Push_def update_node_def allocNode_def Let_def
      split: option.splits if_splits prod.splits)

lemma throttle_unchanged_list:
  "addClosedOrIdleNode l m n ws = Inr (l', ws') \<Longrightarrow> ws_writeThrottleLimit ws' = ws_writeThrottleLimit ws"
  by (auto simp: addClosedOrIdleNode_def dest: throttle_unchanged split: if_splits)

lemma throttle_unchanged_Close:
  "CloseStream i ws = Inr ws' \<Longrightarrow> ws_writeThrottleLimit ws' = ws_writeThrottleLimit ws"
  by (auto simp: CloseStream_def update_node_def Let_def
      dest!: throttle_unchanged throttle_unchanged_list split: option.splits if_splits)

lemma throttle_unchanged_Adjust:
  "adjustNode i ws = Inr (r, ws') \<Longrightarrow> ws_writeThrottleLimit ws' = ws_writeThrottleLimit ws"
  "AdjustStream i pr ws = Inr ws'' \<Longrightarrow> ws_writeThrottleLimit ws'' = ws_writeThrottleLimit ws"
proof -
  show a: "ws_writeThrottleLimit ws' = ws_writeThrottleLimit ws" if "adjustNode i ws = Inr (r, ws')" for ws' r
    using that by (auto simp: adjustNode_def ws_setParent_def allocNode_def Let_def
        dest!: throttle_unchanged_list split: option.splits if_splits prod.splits)
  assume r: "AdjustStream i pr ws = Inr ws''"
  then obtain found ws1 where 1: "adjustNode i ws = Inr (found, ws1)" and "i \<noteq> 0"
    by (auto simp: AdjustStream_def split: if_split_asm)
  then have "ws_writeThrottleLimit ws'' = ws_writeThrottleLimit ws1"
    using r by (cases found; cases "ws_nodes ws1 (StreamDep pr)")
      (auto simp: AdjustStream_def ws_setParent_def update_node_def split: if_split_asm)
  then show "ws_writeThrottleLimit ws'' = ws_writeThrottleLimit ws" using a [OF 1] by simp
qed

lemma run_inv_ops:
  assumes "run_inv (ws, fs)" "ws_inv ws'" "ws_writeThrottleLimit ws' = ws_writeThrottleLimit ws"
  shows "run_inv (ws', fs)"
  using assms by (auto simp: run_inv_def pop_inv_def flows_ok_def)

lemma ws_step_ok:
  assumes inv: "run_inv (ws, fs)" and "sort_ok srt" "call_ok c" "\<not> call_refused c ws"
  shows "\<exists>s'. ws_step srt c (ws, fs) = Inr s' \<and> run_inv s'"
proof -
  have ws: "ws_inv ws" using inv by (simp add: run_inv_def pop_inv_def)
  show ?thesis
  proof (cases c)
    case (CallOpen i p)
    then have "\<And>a. ws_nodes ws i = Some a \<Longrightarrow> n_state (ws_heap ws a) = PriorityNodeIdle"
      using assms(4) by (auto split: option.splits)
    then obtain ws' where "OpenStream i p ws = Inr ws'" "ws_inv ws'" using OpenStream_ok [OF ws] by metis
    then show ?thesis using CallOpen run_inv_ops [OF inv] throttle_unchanged(1) by auto
  next
    case (CallClose i)
    then obtain n where "i \<noteq> 0" "ws_nodes ws i = Some n" "n_state (ws_heap ws n) = PriorityNodeOpen"
      using assms(4) by (auto split: option.splits)
    then obtain ws' where "CloseStream i ws = Inr ws'" "ws_inv ws'" using CloseStream_ok [OF ws] by metis
    then show ?thesis using CallClose run_inv_ops [OF inv] throttle_unchanged_Close by auto
  next
    case (CallAdjust i pr)
    then obtain ws' where "AdjustStream i pr ws = Inr ws'" "ws_inv ws'"
      using AdjustStream_ok [OF ws] assms(4) by (metis call_refused.simps(3))
    then show ?thesis using CallAdjust run_inv_ops [OF inv] throttle_unchanged_Adjust(2) by auto
  next
    case (CallPush wr)
    then have "request_ok wr" "StreamID wr = 0 \<or> ws_nodes ws (StreamID wr) \<noteq> None \<or> DataSize wr = 0"
      using assms(3,4) by (auto simp: call_ok_def)
    then obtain ws' where "Push wr ws = Inr ws'" "ws_inv ws'" using Push_ok [OF ws] by metis
    then show ?thesis using CallPush run_inv_ops [OF inv] throttle_unchanged(3) by auto
  next
    case (CallPop mfs)
    then have "pop_inv ws fs" "0 < sint mfs" using inv assms(3) by (auto simp: run_inv_def call_ok_def)
    then obtain x ws' fs' where "Pop srt mfs ws fs = Inr (x, ws', fs')" "pop_inv ws' fs'" "\<And>i. linked fs' i \<longleftrightarrow> linked fs i"
      using Pop_ok [OF _ assms(2), of ws fs mfs] by metis
    then show ?thesis using CallPop inv by (auto simp: run_inv_def)
  qed
qed

lemma ws_step_refused: "call_refused c ws \<Longrightarrow> \<exists>m. ws_step srt c (ws, fs) = Inl (Panic m)"
  by (cases c) (auto simp: OpenStream_def CloseStream_def AdjustStream_def Push_def split: option.splits)

lemma ws_run_inv:
  assumes "run_inv s" "sort_ok srt" "\<forall>c \<in> set cs. call_ok c" "ws_run srt cs s = Inr s'"
  shows "run_inv s'"
  using assms
proof (induction cs arbitrary: s)
  case (Cons c cs)
  obtain ws fs where s: "s = (ws, fs)" by fastforce
  have "\<not> call_refused c ws" using ws_step_refused [of c ws srt fs] Cons.prems(4) s by auto
  then obtain s1 where "ws_step srt c s = Inr s1" "run_inv s1"
    using ws_step_ok [of ws fs srt c] Cons.prems s by auto
  then show ?case using Cons by auto
qed simp

subsection \<open>A sort and a flow store to run with\<close>

text \<open>\<open>sort.Sort\<close> of the Go library on a slice of up to six elements: an insertion sort, each element moving
  to the left while it is less than its neighbour. The sorted prefix is kept reversed.\<close>

fun insertLeft :: "(nptr \<Rightarrow> nptr \<Rightarrow> bool) \<Rightarrow> nptr \<Rightarrow> nptr list \<Rightarrow> nptr list" where
  "insertLeft lt x [] = [x]"
| "insertLeft lt x (y # ys) = (if lt x y then y # insertLeft lt x ys else x # y # ys)"

definition insertionSort :: sorting where
  "insertionSort lt xs = rev (fold (insertLeft lt) xs [])"

lemma mset_insertLeft [simp]: "mset (insertLeft lt x ys) = add_mset x (mset ys)"
  by (induction ys) auto

lemma insertionSort_ok: "sort_ok insertionSort"
proof -
  have "mset (fold (insertLeft lt) xs ys) = mset xs + mset ys" for lt xs ys
    by (induction xs arbitrary: ys) auto
  then show ?thesis by (simp add: sort_ok_def insertionSort_def)
qed

text \<open>Every stream linked to the connection, all windows of the default size.\<close>

definition default_flows :: flow_store where
  "default_flows p = (case p of ConnFlow \<Rightarrow> \<lparr>flow_n = 65535, flow_conn = None\<rparr>
     | StreamFlow _ \<Rightarrow> \<lparr>flow_n = 65535, flow_conn = Some ConnFlow\<rparr>)"

lemma linked_default_flows: "linked default_flows i"
  by (simp add: linked_def default_flows_def)

subsection \<open>Properties\<close>


lemma example_run: "case ws_run insertionSort [CallOpen 1 0, CallAdjust 3 \<lparr>StreamDep = 1, Exclusive = True, Weight = 7\<rparr>]
      (NewPriorityWriteScheduler None, default_flows) of Inr _ \<Rightarrow> True | Inl _ \<Rightarrow> False"
 by code_simp


text \<open>C20: \<open>Pop\<close> wastes no opportunity. Over a well-formed scheduler it returns a frame exactly when some node
  that can be reached from the root has one that may be sent now (no DATA, or DATA with credit); it
  leaves every parent as it was, and when it returns nothing, every queue and every window too.\<close>

theorem Pop_work_conserving:
  assumes "pop_inv ws fs" and "sort_ok srt" and "0 < sint mfs"
  shows "\<exists>wr ok ws' fs'. Pop srt mfs ws fs = Inr ((wr, ok), ws', fs') \<and> pop_inv ws' fs' \<and>
    (ok \<longleftrightarrow> (\<exists>y. in_tree ws y \<and> node_ready fs (ws_heap ws y))) \<and>
    (\<forall>x. n_parent (ws_heap ws' x) = n_parent (ws_heap ws x)) \<and>
    (\<not> ok \<longrightarrow> fs' = fs \<and> (\<forall>x. n_q (ws_heap ws' x) = n_q (ws_heap ws x)))"
proof -
  obtain wr ok ws' fs' where "Pop srt mfs ws fs = Inr ((wr, ok), ws', fs')" "pop_inv ws' fs'"
      "ok \<longleftrightarrow> (\<exists>y. in_tree ws y \<and> node_ready fs (ws_heap ws y))"
      "\<And>x. n_parent (ws_heap ws' x) = n_parent (ws_heap ws x)"
      "\<not> ok \<Longrightarrow> fs' = fs \<and> (\<forall>x. n_q (ws_heap ws' x) = n_q (ws_heap ws x))"
    using Pop_ok [OF assms] by metis
  then show ?thesis by blast
qed

theorem Pop_work_conserving_witness:
  "\<exists>wr ok ws' fs'. Pop insertionSort 16384 (NewPriorityWriteScheduler None) default_flows = Inr ((wr, ok), ws', fs')"
proof -
  have "run_inv (NewPriorityWriteScheduler None, default_flows)"
    by (rule New_run_inv) (rule linked_default_flows)
  then have "pop_inv (NewPriorityWriteScheduler None) default_flows" by (simp add: run_inv_def)
  from Pop_work_conserving [OF this insertionSort_ok, of 16384] show ?thesis by auto
qed

text \<open>C7: \<open>Pop\<close> respects the tree and loses nothing. When it returns a frame, that is the next part of the
  queue of some node of the tree no ancestor of which had a frame to send; the rest of that
  queue follows in order, all other queues are untouched, and a DATA frame fits the frame size.\<close>

theorem Pop_parent_first:
  assumes "pop_inv ws fs" and "sort_ok srt" and "0 < sint mfs" and "Pop srt mfs ws fs = Inr ((wr, True), ws', fs')"
  shows "\<exists>y. in_tree ws y \<and> node_ready fs (ws_heap ws y) \<and>
    (\<forall>a. ancestor ws a y \<longrightarrow> in_tree ws a \<longrightarrow> \<not> node_ready fs (ws_heap ws a)) \<and>
    queue_atoms (n_q (ws_heap ws y)) = atoms wr @ queue_atoms (n_q (ws_heap ws' y)) \<and>
    (\<forall>x. x \<noteq> y \<longrightarrow> n_q (ws_heap ws' x) = n_q (ws_heap ws x)) \<and> int (DataSize wr) \<le> sint mfs"
  by (rule Pop_ok [OF assms(1-3)]) (use assms(4) in auto)

text \<open>Two streams, the second dependent on the first, both with a frame queued.\<close>

definition two_ready :: "go_panic + ws_state" where
  "two_ready = ws_run insertionSort
     [CallOpen 1 0, CallOpen 3 0, CallAdjust 3 \<lparr>StreamDep = 1, Exclusive = False, Weight = 15\<rparr>,
      CallPush \<lparr>wr_write = Some (WriteData 3 [7] False), wr_stream = Some 3, wr_done = None\<rparr>,
      CallPush \<lparr>wr_write = Some (WriteData 1 [8, 9] True), wr_stream = Some 1, wr_done = None\<rparr>]
     (NewPriorityWriteScheduler None, default_flows)"

lemma two_ready_pop:
  "case two_ready of Inl _ \<Rightarrow> False
   | Inr (ws, fs) \<Rightarrow> (case Pop insertionSort 16384 ws fs of Inl _ \<Rightarrow> False
       | Inr ((wr, ok), _) \<Rightarrow> ok \<and> wr_stream wr = Some 1)"
  by code_simp

theorem Pop_parent_first_witness:
  "\<exists>ws fs wr ws' fs' y. two_ready = Inr (ws, fs) \<and> Pop insertionSort 16384 ws fs = Inr ((wr, True), ws', fs') \<and>
    wr_stream wr = Some 1 \<and> in_tree ws y \<and> queue_atoms (n_q (ws_heap ws y)) = atoms wr @ queue_atoms (n_q (ws_heap ws' y))"
proof -
  obtain ws fs where st: "two_ready = Inr (ws, fs)" using two_ready_pop by (auto split: sum.split_asm)
  obtain wr ok ws' fs' where pop: "Pop insertionSort 16384 ws fs = Inr ((wr, ok), ws', fs')"
    using two_ready_pop [unfolded st sum.case prod.case] by (cases "Pop insertionSort 16384 ws fs") auto
  have r: "two_ready = Inr (ws, fs)" "Pop insertionSort 16384 ws fs = Inr ((wr, True), ws', fs')" "wr_stream wr = Some 1"
    using two_ready_pop [unfolded st sum.case prod.case pop] st pop by simp_all
  have "run_inv (ws, fs)"
    by (rule ws_run_inv [OF New_run_inv insertionSort_ok _ r(1) [unfolded two_ready_def]])
      (auto simp: linked_default_flows call_ok_def request_ok_def StreamID_def)
  then have inv: "pop_inv ws fs" by (simp add: run_inv_def)
  have "0 < sint (16384 :: i32)" by simp
  from Pop_parent_first [OF inv insertionSort_ok this r(2)] show ?thesis using r by blast
qed

text \<open>C4: \<open>AdjustStream\<close> for two streams that have nodes builds the tree RFC 7540 section 5.3.3 describes:
  if the new parent depends on the stream it first takes the stream's place, an exclusive dependency
  moves the parent's other dependents below the stream, and the stream ends up below its parent with
  the given weight. Nothing else about any node changes, and no cycle can arise.\<close>

theorem AdjustStream_rfc:
  assumes "ws_inv ws" and "i \<noteq> 0" and "ws_nodes ws i = Some n" and "ws_nodes ws (StreamDep pr) = Some q" and "n \<noteq> q"
  shows "\<exists>ws'. AdjustStream i pr ws = Inr ws' \<and> ws_inv ws' \<and>
    parents (ws_heap ws') (ws_fresh ws) = rfc_reparent n q (Exclusive pr) (parents (ws_heap ws) (ws_fresh ws)) \<and>
    (\<forall>x. payload (ws_heap ws' x) =
       payload (if x = n then (ws_heap ws x)\<lparr>n_weight := Weight pr\<rparr> else ws_heap ws x))"
proof -
  have ok: "heap_ok (ws_heap ws) (ws_fresh ws)" "refs_ok ws" using assms(1) by (auto simp: ws_inv_def)
  have n: "n < ws_fresh ws" "n \<noteq> wsRoot" and q: "q < ws_fresh ws"
    using refs_okD(2,3) [OF ok(2)] heap_okD(3) [OF ok(1)] assms(2-4) by blast+
  obtain h where h: "reparent (ws_fresh ws + 2) n q (Exclusive pr) (ws_heap ws) = Inr h" "heap_ok h (ws_fresh ws)"
      "same_payload (ws_heap ws) h"
      "parents h (ws_fresh ws) = rfc_reparent n q (Exclusive pr) (parents (ws_heap ws) (ws_fresh ws))"
    using reparent_ok [OF ok(1) n(1) q n(2) assms(5)] by metis
  let ?ws = "update_node n (n_weight_update (\<lambda>_. Weight pr)) (ws\<lparr>ws_heap := h\<rparr>)"
  have "AdjustStream i pr ws = Inr ?ws"
    using assms(2-5) h(1) by (simp add: AdjustStream_def adjustNode_def)
  moreover have "ws_inv ?ws" using ws_inv_weight [OF ws_inv_heap [OF assms(1) h(2,3)]] n(1) by simp
  moreover have "parents (ws_heap ?ws) (ws_fresh ws) = parents h (ws_fresh ws)"
    by (simp add: parents_def update_node_def fun_eq_iff)
  moreover have "payload (ws_heap ?ws x) = payload (if x = n then (ws_heap ws x)\<lparr>n_weight := Weight pr\<rparr> else ws_heap ws x)"
    for x using h(3) by (simp add: update_node_def payload_def same_payload_def)
  ultimately show ?thesis using h(4) by auto
qed

text \<open>Stream 3 below stream 1; node 1 is stream 1, node 2 stream 3.\<close>

definition two_chained :: "go_panic + ws_state" where
  "two_chained = ws_run insertionSort
     [CallOpen 1 0, CallOpen 3 0, CallAdjust 3 \<lparr>StreamDep = 1, Exclusive = False, Weight = 15\<rparr>]
     (NewPriorityWriteScheduler None, default_flows)"

lemma two_chained_nodes:
  "case two_chained of Inl _ \<Rightarrow> False
   | Inr (ws, _) \<Rightarrow> ws_nodes ws 1 = Some 1 \<and> ws_nodes ws 3 = Some 2 \<and> ws_fresh ws = 3 \<and>
       n_parent (ws_heap ws 0) = None \<and> n_parent (ws_heap ws 1) = Some 0 \<and> n_parent (ws_heap ws 2) = Some 1"
  by code_simp

lemma two_chainedE:
  obtains ws fs where "two_chained = Inr (ws, fs)" "ws_inv ws" "ws_nodes ws 1 = Some 1" "ws_nodes ws 3 = Some 2"
    "ws_fresh ws = 3" "n_parent (ws_heap ws 0) = None" "n_parent (ws_heap ws 1) = Some 0"
    "n_parent (ws_heap ws 2) = Some 1"
proof -
  obtain ws fs where r: "two_chained = Inr (ws, fs)" using two_chained_nodes by (auto split: sum.split_asm)
  have "run_inv (ws, fs)"
    by (rule ws_run_inv [OF New_run_inv insertionSort_ok _ r [unfolded two_chained_def]])
      (auto simp: linked_default_flows call_ok_def)
  then show ?thesis using that [OF r] two_chained_nodes [unfolded r sum.case prod.case] by (simp add: run_inv_def pop_inv_def)
qed

theorem AdjustStream_rfc_witness:
  "\<exists>ws fs ws'. two_chained = Inr (ws, fs) \<and>
    AdjustStream 1 \<lparr>StreamDep = 3, Exclusive = True, Weight = 99\<rparr> ws = Inr ws' \<and>
    n_parent (ws_heap ws' 1) = Some 2 \<and> n_weight (ws_heap ws' 1) = 99"
proof -
  obtain ws fs where r: "two_chained = Inr (ws, fs)" "ws_inv ws" "ws_nodes ws 1 = Some 1" "ws_nodes ws 3 = Some 2"
      "ws_fresh ws = 3"
    by (rule two_chainedE)
  let ?pr = "\<lparr>StreamDep = 3, Exclusive = True, Weight = 99\<rparr>"
  have "(1 :: u32) \<noteq> 0" "ws_nodes ws (StreamDep ?pr) = Some 2" "(1 :: nptr) \<noteq> 2" using r(4) by simp_all
  from AdjustStream_rfc [OF r(2) this(1) r(3) this(2,3)] obtain ws' where
      "AdjustStream 1 ?pr ws = Inr ws'" "parents (ws_heap ws') 3 1 = Some 2" "payload (ws_heap ws' 1) = payload ((ws_heap ws 1)\<lparr>n_weight := 99\<rparr>)"
    using r(5) by (auto simp: rfc_reparent_def)
  then show ?thesis using r(1) by (auto simp: parents_def payload_def)
qed


text \<open>Streams 3, 5 and 7 below stream 1, all four open, and no room for closed nodes: closing stream 1
  removes its node.\<close>

definition three_kids :: "go_panic + ws_state" where
  "three_kids = ws_run insertionSort
     [CallOpen 1 0, CallOpen 3 1, CallOpen 5 1, CallOpen 7 1]
     (NewPriorityWriteScheduler (Some \<lparr>cfg_MaxClosedNodesInTree = 0, cfg_MaxIdleNodesInTree = 0,
        cfg_ThrottleOutOfOrderWrites = False\<rparr>), default_flows)"

lemma three_kids_nodes:
  "case three_kids of Inl _ \<Rightarrow> False
   | Inr (ws, _) \<Rightarrow> ws_fresh ws = 5 \<and> n_kids (ws_heap ws 1) = Some 4 \<and> n_next (ws_heap ws 4) = Some 3 \<and>
       n_next (ws_heap ws 3) = Some 2 \<and> n_next (ws_heap ws 2) = None"
  by code_simp


definition idle_flood :: "ws_call list" where
  "idle_flood = [CallAdjust 1 \<lparr>StreamDep = 0, Exclusive = False, Weight = 15\<rparr>, CallOpen 1 0,
     CallAdjust 3 \<lparr>StreamDep = 0, Exclusive = False, Weight = 15\<rparr>]"

definition one_idle :: PriorityWriteSchedulerConfig where
  "one_idle = \<lparr>cfg_MaxClosedNodesInTree = 10, cfg_MaxIdleNodesInTree = 1, cfg_ThrottleOutOfOrderWrites = False\<rparr>"


subsection \<open>The order of siblings\<close>

lemma float_weight: "float_of_int (uint (w :: u8)) = Fin (of_int (uint w))"
  using uint_lt2p [of w] by (intro float_of_int_exact) auto

lemma weight_plus_one:
  assumes "(x :: u8) \<noteq> 255"
  shows "uint (x + 1) = uint x + 1"
proof -
  have "uint x \<noteq> uint (255 :: u8)" using assms unsigned_word_eqI by blast
  then have "uint x + uint (1 :: u8) < 2 ^ LENGTH(8)" using uint_lt2p [of x] by simp
  then show ?thesis using uint_add_lem [of x 1] by simp
qed

lemma round53_quot_le:
  fixes a b c d :: int
  assumes "0 \<le> a" "0 < b" "0 < c" "0 < d" "a * d \<le> b * c"
  shows "round53 (of_int a / of_int b) \<le> round53 (of_int c / of_int d)"
proof (cases "a = 0")
  case True
  then show ?thesis using round53_pos [of "of_int c / of_int d"] assms by (simp add: less_imp_le)
next
  case False
  have "(of_int (a * d) :: rat) \<le> of_int (b * c)" using assms(5) by (simp only: of_int_le_iff)
  then have "(of_int a / of_int b :: rat) \<le> of_int c / of_int d"
    using assms by (simp add: divide_le_eq le_divide_eq mult.commute)
  moreover have "(0 :: rat) < of_int a / of_int b" using False assms by simp
  ultimately show ?thesis by (intro round53_mono)
qed


text \<open>Two siblings of weight 16 and 32 that sent 100 and 200 bytes.\<close>

definition two_weights :: "u8 \<Rightarrow> u8 \<Rightarrow> node_heap" where
  "two_weights v w a = (if a = 1 then zeroNode\<lparr>n_weight := v, n_subtreeBytes := 100\<rparr>
     else zeroNode\<lparr>n_weight := w, n_subtreeBytes := 200\<rparr>)"




subsection \<open>The interface: nothing is lost or made up\<close>

fun pushes :: "'a option list \<Rightarrow> 'a list" where
  "pushes [] = []"
| "pushes (None # evs) = pushes evs"
| "pushes (Some x # evs) = x # pushes evs"

text \<open>A run of pushes (\<open>Some\<close>) and pops (\<open>None\<close>), with the frames popped.\<close>

fun traffic ::
    "(FrameWriteRequest \<Rightarrow> 's \<Rightarrow> go_panic + 's) \<Rightarrow> ('s \<Rightarrow> 'e \<Rightarrow> go_panic + (FrameWriteRequest \<times> bool) \<times> 's \<times> 'e) \<Rightarrow>
      FrameWriteRequest option list \<Rightarrow> 's \<Rightarrow> 'e \<Rightarrow> go_panic + FrameWriteRequest list \<times> 's \<times> 'e" where
  "traffic push pop [] s e = Inr ([], s, e)"
| "traffic push pop (Some wr # evs) s e = bindE (push wr s) (\<lambda>s'. traffic push pop evs s' e)"
| "traffic push pop (None # evs) s e =
     bindE (pop s e) (\<lambda>((wr, ok), s', e').
       bindE (traffic push pop evs s' e') (\<lambda>(out, r). Inr (if ok then wr # out else out, r)))"

text \<open>What a session relies on when it pushes to a \<open>WriteScheduler\<close> and pops from it: a push adds the
  content of its request, a pop takes away what it returns, and neither changes which requests may be
  pushed. \<open>'e\<close> is what else a pop reads and changes (the flow windows).\<close>

locale write_scheduler =
  fixes push :: "FrameWriteRequest \<Rightarrow> 's \<Rightarrow> go_panic + 's"
    and pop :: "'s \<Rightarrow> 'e \<Rightarrow> go_panic + (FrameWriteRequest \<times> bool) \<times> 's \<times> 'e"
    and inv :: "'s \<Rightarrow> 'e \<Rightarrow> bool"
    and accepts :: "'s \<Rightarrow> FrameWriteRequest \<Rightarrow> bool"
    and content :: "'s \<Rightarrow> wire_atom multiset"
  assumes push_ok: "inv s e \<Longrightarrow> accepts s wr \<Longrightarrow>
      \<exists>s'. push wr s = Inr s' \<and> inv s' e \<and> accepts s' = accepts s \<and> content s' = content s + mset (atoms wr)"
    and pop_ok: "inv s e \<Longrightarrow>
      \<exists>wr ok s' e'. pop s e = Inr ((wr, ok), s', e') \<and> inv s' e' \<and> accepts s' = accepts s \<and>
        content s = (if ok then mset (atoms wr) else {#}) + content s'"
begin

lemma traffic_conserves:
  "inv s e \<Longrightarrow> \<forall>wr. Some wr \<in> set evs \<longrightarrow> accepts s wr \<Longrightarrow>
    \<exists>out s' e'. traffic push pop evs s e = Inr (out, s', e') \<and> inv s' e' \<and>
      content s + mset (concat (map atoms (pushes evs))) = mset (concat (map atoms out)) + content s'"
proof (induction evs arbitrary: s e)
  case (Cons ev evs)
  show ?case
  proof (cases ev)
    case (Some wr)
    then obtain s1 where s1: "push wr s = Inr s1" "inv s1 e" "accepts s1 = accepts s"
        "content s1 = content s + mset (atoms wr)"
      using push_ok Cons.prems by (metis list.set_intros(1))
    then obtain out s' e' where "traffic push pop evs s1 e = Inr (out, s', e')" "inv s' e'"
        "content s1 + mset (concat (map atoms (pushes evs))) = mset (concat (map atoms out)) + content s'"
      using Cons.IH [OF s1(2)] Cons.prems(2) by auto
    then show ?thesis using Some s1 by (auto simp: ac_simps)
  next
    case None
    obtain wr ok s1 e1 where s1: "pop s e = Inr ((wr, ok), s1, e1)" "inv s1 e1" "accepts s1 = accepts s"
        "content s = (if ok then mset (atoms wr) else {#}) + content s1"
      using pop_ok [OF Cons.prems(1)] by metis
    then obtain out s' e' where "traffic push pop evs s1 e1 = Inr (out, s', e')" "inv s' e'"
        "content s1 + mset (concat (map atoms (pushes evs))) = mset (concat (map atoms out)) + content s'"
      using Cons.IH [OF s1(2)] Cons.prems(2) by auto
    then show ?thesis using None s1 by (auto simp: ac_simps)
  qed
qed simp

end

text \<open>The content of a priority scheduler: what is queued on any of its nodes.\<close>

definition queued :: "priorityWriteScheduler \<Rightarrow> wire_atom multiset" where
  "queued ws = (\<Sum>a < ws_fresh ws. mset (queue_atoms (n_q (ws_heap ws a))))"

definition ws_accepts :: "priorityWriteScheduler \<Rightarrow> FrameWriteRequest \<Rightarrow> bool" where
  "ws_accepts ws wr \<longleftrightarrow> request_ok wr \<and> \<not> call_refused (CallPush wr) ws"

lemma queued_change:
  assumes "y < ws_fresh ws" "ws_fresh ws' = ws_fresh ws" "\<And>x. x \<noteq> y \<Longrightarrow> n_q (ws_heap ws' x) = n_q (ws_heap ws x)"
  shows "queued ws + mset (queue_atoms (n_q (ws_heap ws' y))) = queued ws' + mset (queue_atoms (n_q (ws_heap ws y)))"
proof -
  have "(\<Sum>a \<in> {..<ws_fresh ws} - {y}. mset (queue_atoms (n_q (ws_heap ws' a)))) =
      (\<Sum>a \<in> {..<ws_fresh ws} - {y}. mset (queue_atoms (n_q (ws_heap ws a))))"
    using assms(3) by (intro sum.cong) auto
  then show ?thesis
    using assms(1,2) sum.remove [of "{..<ws_fresh ws}" y "\<lambda>a. mset (queue_atoms (n_q (ws_heap ws a)))"]
      sum.remove [of "{..<ws_fresh ws}" y "\<lambda>a. mset (queue_atoms (n_q (ws_heap ws' a)))"]
    by (simp add: queued_def ac_simps)
qed

lemma in_tree_fresh:
  assumes "ws_inv ws" "in_tree ws y"
  shows "y < ws_fresh ws"
proof -
  have ok: "heap_ok (ws_heap ws) (ws_fresh ws)" using assms(1) by (simp add: ws_inv_def)
  then obtain K where K: "forest (ws_heap ws) K (ws_fresh ws)" by (rule heap_okE)
  then show ?thesis
    using tree_below(1) [OF K, of "{wsRoot}"] heap_okD(1) [OF ok] assms(2) by (auto simp: below_simps in_tree_def)
qed

lemma Push_queued:
  assumes "ws_inv ws" "Push wr ws = Inr ws'"
  shows "queued ws' = queued ws + mset (atoms wr)" "ws_nodes ws' = ws_nodes ws"
proof -
  obtain y where y: "ws' = update_node y (n_q_update (wq_push wr)) ws" "y < ws_fresh ws"
    using assms refs_okD(2) heap_okD(1)
    by (auto simp: Push_def ws_inv_def split: if_split_asm option.split_asm)
  then show "queued ws' = queued ws + mset (atoms wr)"
    using queued_change [OF y(2), of ws'] by (simp add: update_node_def wq_push_def ac_simps)
  show "ws_nodes ws' = ws_nodes ws" using y(1) by (simp add: update_node_def)
qed

lemma Pop_queued:
  assumes inv: "run_inv (ws, fs)" and "sort_ok srt" "0 < sint mfs"
  obtains wr ok ws' fs' where "Pop srt mfs ws fs = Inr ((wr, ok), ws', fs')" "run_inv (ws', fs')"
    "ws_nodes ws' = ws_nodes ws" "queued ws = (if ok then mset (atoms wr) else {#}) + queued ws'"
proof -
  have "pop_inv ws fs" using inv by (simp add: run_inv_def)
  from Pop_ok [OF this assms(2,3)] obtain wr ok ws' fs' where
      p: "Pop srt mfs ws fs = Inr ((wr, ok), ws', fs')" "pop_inv ws' fs'" "ws_fresh ws' = ws_fresh ws"
        "ws_nodes ws' = ws_nodes ws" "\<And>i. linked fs' i \<longleftrightarrow> linked fs i"
        "\<not> ok \<Longrightarrow> \<forall>x. n_q (ws_heap ws' x) = n_q (ws_heap ws x)"
        "ok \<Longrightarrow> \<exists>y. in_tree ws y \<and> queue_atoms (n_q (ws_heap ws y)) = atoms wr @ queue_atoms (n_q (ws_heap ws' y)) \<and>
          (\<forall>x. x \<noteq> y \<longrightarrow> n_q (ws_heap ws' x) = n_q (ws_heap ws x))"
    by metis
  have "queued ws = (if ok then mset (atoms wr) else {#}) + queued ws'"
  proof (cases ok)
    case True
    then obtain y where y: "in_tree ws y" "queue_atoms (n_q (ws_heap ws y)) = atoms wr @ queue_atoms (n_q (ws_heap ws' y))"
        "\<And>x. x \<noteq> y \<Longrightarrow> n_q (ws_heap ws' x) = n_q (ws_heap ws x)"
      using p(7) by auto
    have "y < ws_fresh ws" using in_tree_fresh [OF _ y(1)] inv by (simp add: run_inv_def pop_inv_def)
    from queued_change [OF this p(3) y(3)] show ?thesis using True y(2) by (simp add: ac_simps)
  next
    case False
    then show ?thesis using p(3,6) by (simp add: queued_def)
  qed
  moreover have "run_inv (ws', fs')" using p(2,5) inv by (auto simp: run_inv_def)
  ultimately show ?thesis using that [OF p(1)] p(4) by blast
qed

text \<open>The parameters of a scheduler in use: the library's sort and the session's frame size.\<close>

locale sched_params =
  fixes srt :: sorting and mfs :: i32
  assumes sorts: "sort_ok srt" and frame_size: "0 < sint mfs"

sublocale sched_params \<subseteq> prio: write_scheduler Push "Pop srt mfs" "\<lambda>ws fs. run_inv (ws, fs)" ws_accepts queued
proof
  fix ws fs wr
  assume inv: "run_inv (ws, fs)" and acc: "ws_accepts ws wr"
  have ws: "ws_inv ws" using inv by (simp add: run_inv_def pop_inv_def)
  obtain ws' where p: "Push wr ws = Inr ws'" "ws_inv ws'"
    using Push_ok [OF ws, of wr] acc by (auto simp: ws_accepts_def)
  note q = Push_queued [OF ws p(1)]
  have "run_inv (ws', fs)" using run_inv_ops [OF inv p(2)] throttle_unchanged(3) [OF p(1)] .
  then show "\<exists>s'. Push wr ws = Inr s' \<and> run_inv (s', fs) \<and> ws_accepts s' = ws_accepts ws \<and> queued s' = queued ws + mset (atoms wr)"
    using p(1) q by (auto simp: ws_accepts_def fun_eq_iff)
next
  fix ws fs
  assume "run_inv (ws, fs)"
  from Pop_queued [OF this sorts frame_size] obtain wr ok ws' fs' where
      p: "Pop srt mfs ws fs = Inr ((wr, ok), ws', fs')" "run_inv (ws', fs')" "ws_nodes ws' = ws_nodes ws"
        "queued ws = (if ok then mset (atoms wr) else {#}) + queued ws'" .
  have "ws_accepts ws' = ws_accepts ws" using p(3) by (simp add: ws_accepts_def fun_eq_iff)
  then show "\<exists>wr ok s' e'. Pop srt mfs ws fs = Inr ((wr, ok), s', e') \<and> run_inv (s', e') \<and> ws_accepts s' = ws_accepts ws \<and>
      queued ws = (if ok then mset (atoms wr) else {#}) + queued s'"
    using p by blast
qed

context sched_params begin

lemmas sched_traffic = prio.traffic_conserves

end

interpretation default_sched: sched_params insertionSort 16384
  by unfold_locales (simp_all add: insertionSort_ok)

text \<open>C8: the scheduler neither loses, duplicates nor makes up anything. In any sequence of pushes and
  pops from any reachable state, the atoms (data bytes of a stream, ends of DATA requests, whole other
  frames) queued at the start and pushed are those popped and still queued at the end, and no call
  panics.\<close>

theorem scheduler_conserves:
  assumes "sort_ok srt" and "0 < sint mfs" and "\<forall>i. linked fs0 i" and "\<forall>c \<in> set cs. call_ok c"
    and "ws_run srt cs (NewPriorityWriteScheduler cfg, fs0) = Inr (ws, fs)"
    and "\<forall>wr. Some wr \<in> set evs \<longrightarrow> ws_accepts ws wr"
  shows "\<exists>out ws' fs'. traffic Push (Pop srt mfs) evs ws fs = Inr (out, ws', fs') \<and>
    queued ws + mset (queue_atoms (pushes evs)) = mset (queue_atoms out) + queued ws'"
proof -
  have "run_inv (ws, fs)" using ws_run_inv [OF New_run_inv assms(1,4,5)] assms(3) by simp
  then show ?thesis
    using sched_params.sched_traffic [OF sched_params.intro [OF assms(1,2)]] assms(6) by blast
qed

theorem scheduler_conserves_witness:
  "\<exists>ws fs out ws' fs'. two_ready = Inr (ws, fs) \<and>
    traffic Push (Pop insertionSort 16384) [None, None] ws fs = Inr (out, ws', fs') \<and>
    queued ws = mset (queue_atoms out) + queued ws'"
proof -
  obtain ws fs where r: "two_ready = Inr (ws, fs)" using two_ready_pop by (auto split: sum.split_asm)
  have "0 < sint (16384 :: i32)" by simp
  moreover have "\<forall>c \<in> set [CallOpen 1 0, CallOpen 3 0, CallAdjust 3 \<lparr>StreamDep = 1, Exclusive = False, Weight = 15\<rparr>,
      CallPush \<lparr>wr_write = Some (WriteData 3 [7] False), wr_stream = Some 3, wr_done = None\<rparr>,
      CallPush \<lparr>wr_write = Some (WriteData 1 [8, 9] True), wr_stream = Some 1, wr_done = None\<rparr>]. call_ok c"
    by (auto simp: call_ok_def request_ok_def StreamID_def)
  ultimately have "\<exists>out ws' fs'. traffic Push (Pop insertionSort 16384) [None, None] ws fs = Inr (out, ws', fs') \<and>
      queued ws + mset (queue_atoms (pushes [None, None])) = mset (queue_atoms out) + queued ws'"
    by (intro scheduler_conserves [OF insertionSort_ok _ _ _ r [unfolded two_ready_def]]) (auto simp: linked_default_flows)
  then show ?thesis unfolding r pushes.simps by auto
qed

subsection \<open>The tree\<close>

lemma zeroNode_fields [simp]:
  "n_parent zeroNode = None" "n_kids zeroNode = None" "n_prev zeroNode = None" "n_next zeroNode = None"
  "n_bytes zeroNode = 0" "n_subtreeBytes zeroNode = 0"
  by (simp_all add: zeroNode_def)

lemma flat_forest: "forest (\<lambda>_. zeroNode) (\<lambda>_. []) N" "parents (\<lambda>_. zeroNode) N = (\<lambda>_. None)"
proof -
  show p: "parents (\<lambda>_. zeroNode) N = (\<lambda>_. None)" by (simp add: parents_def fun_eq_iff)
  then show "forest (\<lambda>_. zeroNode) (\<lambda>_. []) N"
    by (simp add: forest_def links_def siblings_def up_def)
qed

lemma up_None [simp]: "up (\<lambda>_. None) = {}"
  by (simp add: up_def)

text \<open>C21: \<open>setParent\<close> keeps the links a forest. Moving a node below one that is not in its subtree does
  not panic; all parent, kids, next and prev links agree again on the lists of kids in which the node
  has gone from its old list to the head of the new one; and it touches nothing but links.\<close>

theorem setParent_moves:
  assumes "forest h K N" and "n < N" and "q < N" and "(n, q) \<notin> (up (parents h N))\<^sup>*"
  shows "\<exists>h'. setParent n (Some q) h = Inr h' \<and>
    forest h' (if n_parent (h n) = Some q then K else move_kid n (Some q) K) N \<and> same_payload h h'"
  by (rule forest_setParent [OF assms(1,2), of "Some q"]) (use assms(3,4) in auto)

theorem setParent_moves_witness:
  "\<exists>h'. setParent 1 (Some 0) (\<lambda>_. zeroNode) = Inr h' \<and> forest h' (move_kid 1 (Some 0) (\<lambda>_. [])) 2"
  using setParent_moves [OF flat_forest(1), of 1 2 0] by (auto simp: flat_forest(2))

text \<open>\<open>addBytes\<close> reaches the root and keeps \<open>subtreeBytes\<close> what its comment says, the sum of the
  bytes of all nodes in the subtree (in \<open>int64\<close>), on every node.\<close>

theorem addBytes_counts:
  assumes "forest h K N" and "n < N" and "N < fuel" and "bytes_counted h N"
  shows "\<exists>h'. addBytes fuel n b h = Inr h' \<and> bytes_counted h' N \<and> same_links h h' \<and>
    n_bytes (h' n) = n_bytes (h n) + b"
proof -
  obtain h' where h': "addBytes fuel n b h = Inr h'" "same_links h h'" "n_bytes (h' n) = n_bytes (h n) + b"
    by (rule addBytes_correct [OF assms(1-3), of b]) (rule that, assumption, assumption, simp)
  then show ?thesis using addBytes_counted [OF assms h'(1)] by blast
qed

theorem addBytes_counts_witness:
  "\<exists>h'. addBytes 3 1 100 (\<lambda>_. zeroNode) = Inr h' \<and> bytes_counted h' 2 \<and> n_bytes (h' 1) = 100"
proof -
  have "bytes_counted (\<lambda>_. zeroNode) 2" by (simp add: bytes_counted_def flat_forest(2))
  from addBytes_counts [OF flat_forest(1) _ _ this, of 1 3 100] show ?thesis by auto
qed

text \<open>The subtree of the new parent after a move.\<close>

lemma below_after_move:
  assumes "acyclic (up P)" "(q, n) \<notin> (up P)\<^sup>*"
  shows "(q, y) \<in> (up (P(n := Some q)))\<^sup>* \<longleftrightarrow> (q, y) \<in> (up P)\<^sup>* \<or> (n, y) \<in> (up P)\<^sup>*"
proof
  assume "(q, y) \<in> (up (P(n := Some q)))\<^sup>*"
  then show "(q, y) \<in> (up P)\<^sup>* \<or> (n, y) \<in> (up P)\<^sup>*"
    by (induction rule: rtrancl_induct)
      (auto simp: up_iff split: if_splits intro: rtrancl_into_rtrancl)
next
  have keep: "(x, y) \<in> (up P)\<^sup>* \<Longrightarrow> (x, n) \<notin> (up P)\<^sup>+ \<Longrightarrow> (x, y) \<in> (up (P(n := Some q)))\<^sup>*" for x y
  proof (induction rule: rtrancl_induct)
    case (step u v)
    then have "v \<noteq> n" by (metis rtrancl_into_trancl1)
    then show ?case using step by (auto simp: up_iff intro: rtrancl_into_rtrancl)
  qed simp
  have "(q, n) \<in> up (P(n := Some q))" by (simp add: up_iff)
  moreover assume "(q, y) \<in> (up P)\<^sup>* \<or> (n, y) \<in> (up P)\<^sup>*"
  ultimately show "(q, y) \<in> (up (P(n := Some q)))\<^sup>*"
    using keep [of q y] keep [of n y] assms trancl_into_rtrancl [of q n "up P"]
    by (auto simp: acyclic_def intro: converse_rtrancl_into_rtrancl)
qed

text \<open>\<open>subtreeBytes\<close> goes stale when the tree changes. \<open>setParent\<close> moves a subtree without moving its
  bytes, so after moving a subtree that has sent something below a node it was not below before, the
  comment on \<open>subtreeBytes\<close> no longer holds, and \<open>Less\<close> compares outdated shares.\<close>

theorem setParent_stale_counts:
  assumes "forest h K N" and "bytes_counted h N" and "n < N" and "q < N"
    and "(n, q) \<notin> (up (parents h N))\<^sup>*" and "(q, n) \<notin> (up (parents h N))\<^sup>*"
    and "n_subtreeBytes (h n) \<noteq> 0" and "setParent n (Some q) h = Inr h'"
  shows "\<not> bytes_counted h' N"
proof
  assume c: "bytes_counted h' N"
  let ?R = "up (parents h N)" and ?D = "\<lambda>x. {y. y < N \<and> (x, y) \<in> (up (parents h N))\<^sup>*}"
  obtain h'' where h'': "setParent n (Some q) h = Inr h''" "same_payload h h''"
      "\<And>x. n_parent (h'' x) = (if x = n then Some q else n_parent (h x))"
    using forest_setParent [OF assms(1,3), of "Some q"] assms(4,5) by (metis option.inject)
  then have h': "same_payload h h'" "parents h' N = (parents h N)(n := Some q)"
    using assms(8) parents_set [OF assms(3), of h'' "Some q" h] by auto
  have "?D q \<inter> ?D n = {}" using ancestors_chain [of q _ _ n] assms(5,6) by blast
  then have "(\<Sum>y \<in> ?D q \<union> ?D n. n_bytes (h y)) = n_subtreeBytes (h q) + n_subtreeBytes (h n)"
    using assms(2-4) by (simp add: sum.union_disjoint bytes_counted_def)
  moreover have "{y. y < N \<and> (q, y) \<in> (up (parents h' N))\<^sup>*} = ?D q \<union> ?D n"
    using below_after_move [OF forestD(3) [OF assms(1)] assms(6)] by (auto simp: h'(2))
  ultimately have "n_subtreeBytes (h q) = n_subtreeBytes (h q) + n_subtreeBytes (h n)"
    using c assms(4) same_payloadD(5,6) [OF h'(1)] by (simp add: bytes_counted_def)
  then show False using assms(7) by simp
qed

theorem setParent_stale_counts_witness:
  "\<exists>h h'. addBytes 3 1 100 (\<lambda>_. zeroNode) = Inr h \<and> setParent 1 (Some 0) h = Inr h' \<and> \<not> bytes_counted h' 2"
proof -
  have z: "bytes_counted (\<lambda>_. zeroNode) 2" by (simp add: bytes_counted_def flat_forest(2))
  obtain h where h: "addBytes 3 1 100 (\<lambda>_. zeroNode) = Inr h" "same_links (\<lambda>_. zeroNode) h"
      "n_subtreeBytes (h 1) = 100"
    by (rule addBytes_correct [OF flat_forest(1), of 1 2 3 100]) (simp, simp, rule that, assumption, assumption, simp)
  have c: "bytes_counted h 2" by (rule addBytes_counted [OF flat_forest(1) _ _ z h(1)]) simp_all
  have f: "forest h (\<lambda>_. []) 2" and p: "parents h 2 = (\<lambda>_. None)"
    using forest_same_links [OF h(2)] same_links_parents [OF h(2)] flat_forest by simp_all
  obtain h' where h': "setParent 1 (Some 0) h = Inr h'"
    using forest_setParent [OF f, of 1 "Some 0"] p by auto
  have "\<not> bytes_counted h' 2" by (rule setParent_stale_counts [OF f c _ _ _ _ _ h']) (use h(3) p in simp_all)
  then show ?thesis using h(1) h' by blast
qed

end
