(* ===== verification/Session.thy ===== *)
theory Session
  imports Pipe PriorityProps
begin

text \<open>
  The session and its write path (\<open>session.go\<close>, \<open>session_write.go\<close> and the stream object of
  \<open>stream.go\<close>). The fields of \<open>Session\<close> and \<open>stream\<close> that the serve loop owns are two records; a
  stream object is named by its identifier, which no session uses twice, and lives in \<open>sc_objs\<close>
  also after it has left \<open>sc_streams\<close>, because write requests and handlers keep pointers to it. The
  windows of all streams and of the connection are in two stores, outbound and inbound.

  The connection, golang.org/x/net's framer and HPACK encoder are the state \<open>sc_wire\<close> of a type
  \<open>'c\<close>, on which the operations of the environment act. The goroutine that \<open>startFrameWrite\<close> starts for
  a frame that may block is the field \<open>sc_async\<close>: the frame it writes. \<open>serveG.check\<close> is modelled
  in \<open>GoTrack\<close>; it never fires here, since each of these functions runs on the serve goroutine.

  \<open>writeFrame\<close>, \<open>scheduleFrameWrite\<close>, \<open>startFrameWrite\<close>, \<open>wroteFrame\<close>, \<open>closeStream\<close> and their helpers call
  each other. Each is a definition that takes as \<open>sched\<close> the \<open>scheduleFrameWrite\<close> it calls, and
  \<open>scheduleFrameWrite\<close> itself is defined by the depth of such calls. A nested call returns at once, because
  \<open>inFrameScheduleLoop\<close> or \<open>writingFrame\<close> is set, so that one level is enough.
\<close>

subsection \<open>Streams\<close>

datatype streamState = StateIdle | StateOpen | StateHalfClosedLocal | StateHalfClosedRemote | StateClosed

definition stateName :: "streamState \<Rightarrow> string" where
  "stateName st =
     (case st of StateIdle \<Rightarrow> ''Idle'' | StateOpen \<Rightarrow> ''Open'' | StateHalfClosedLocal \<Rightarrow> ''HalfClosedLocal''
      | StateHalfClosedRemote \<Rightarrow> ''HalfClosedRemote'' | StateClosed \<Rightarrow> ''Closed'')"

record stream =
  st_ctxDone :: bool
  st_cw :: chan_state
  st_replied :: bool
  st_replyHeader :: "header option"
  st_readyCh :: chan_state
  st_state :: streamState
  st_bodyBytes :: i64
  st_header :: "header option"
  st_trailer :: "header option"
  st_body :: "(dataBuffer, unit) pipe"
  st_resetQueued :: bool
  st_gotTrailerHeader :: bool
  st_wroteHeaders :: bool

definition isPushed :: "u32 \<Rightarrow> bool" where
  "isPushed i \<longleftrightarrow> i mod 2 = 0"

definition errDisconnected :: go_error where
  "errDisconnected = ErrorString ''http2: disconnected''"
definition errStreamClosed :: go_error where
  "errStreamClosed = ErrorString ''http2: stream closed''"
definition errHandlerComplete :: go_error where
  "errHandlerComplete = ErrorString ''http2: request body closed due to handler exiting''"
definition ErrStreamLimitReached :: go_error where
  "ErrStreamLimitReached = ErrorString ''http2: would exceed peer's SETTINGS_MAX_CONCURRENT_STREAMS''"
definition errHandlerPanicked :: go_error where
  "errHandlerPanicked = ErrorString ''http2: handler panicked''"

subsection \<open>The session\<close>

text \<open>\<open>sc_handler\<close> is whether there is a handler, \<open>sc_handled\<close> the streams it has been started for;
  a timer is present or nil.\<close>

record 'c Session =
  sc_wire :: 'c
  sc_server :: bool
  sc_doneServing :: chan_state
  sc_flow :: flow_store
  sc_inflow :: flow_store
  sc_writeSched :: priorityWriteScheduler
  sc_handler :: bool
  sc_handled :: "u32 list"
  sc_sessionReady :: chan_state
  sc_objs :: "u32 \<Rightarrow> stream"
  sc_streams :: "u32 list"
  sc_curClientStreams :: u32
  sc_curPushedStreams :: u32
  sc_maxClientStreamID :: u32
  sc_maxPushPromiseID :: u32
  sc_sawFirstSettings :: bool
  sc_needToSendSettingsAck :: bool
  sc_unackedSettings :: int
  sc_initialStreamSendWindowSize :: i32
  sc_initialStreamRecvWindowSize :: i32
  sc_headerTableSize :: u32
  sc_peerMaxHeaderListSize :: u32
  sc_pushEnabled :: bool
  sc_advMaxStreams :: u32
  sc_peerMaxStreams :: u32
  sc_maxFrameSize :: i32
  sc_writingFrame :: bool
  sc_writingFrameAsync :: bool
  sc_async :: "FrameWriteRequest option"
  sc_needsFrameFlush :: bool
  sc_inGoAway :: bool
  sc_inFrameScheduleLoop :: bool
  sc_needToSendGoAway :: bool
  sc_goAwayCode :: ErrCode
  sc_shutdownTimer :: bool
  sc_idleTimeout :: int
  sc_idleTimer :: bool
  sc_chans :: chan_store

text \<open>What the session calls outside this package: the write context and the header environment of
  the frame writers, \<open>bufio.Writer.Available\<close>, \<open>hpack.Encoder.SetMaxDynamicTableSize\<close>, \<open>sort.Sort\<close>, the
  chunk pools, \<open>http2.Setting.Valid\<close>, \<open>textproto.CanonicalMIMEHeaderKey\<close>, the order in which a
  \<open>range\<close> over the map of streams visits it, \<open>http2.ClientPreface\<close>, \<open>bufio.Writer.Write\<close>, \<open>runtime.GOOS\<close> and the
  text of an error.\<close>

record 'c session_env =
  se_ctx :: "'c writeContext"
  se_header :: header_env
  se_Available :: "'c \<Rightarrow> int"
  se_SetMaxDynamicTableSize :: "u32 \<Rightarrow> 'c \<Rightarrow> 'c"
  se_sort :: sorting
  se_chunks :: "nat \<Rightarrow> byte list"
  se_Valid :: "setting \<Rightarrow> go_error option"
  se_CanonicalKey :: "string \<Rightarrow> string"
  se_range :: "u32 list \<Rightarrow> u32 list"
  se_ClientPreface :: "byte list"
  se_bwWrite :: "byte list \<Rightarrow> 'c \<Rightarrow> go_error option \<times> 'c"
  se_GOOS :: string
  se_ErrorText :: "go_error \<Rightarrow> string"

abbreviation body_ops :: "'c session_env \<Rightarrow> dataBuffer pipeBuffer" where
  "body_ops env \<equiv> dataBuffer_ops (se_chunks env)"

definition update_stream :: "u32 \<Rightarrow> (stream \<Rightarrow> stream) \<Rightarrow> 'c Session \<Rightarrow> 'c Session" where
  "update_stream i f sc = sc\<lparr>sc_objs := (sc_objs sc)(i := f (sc_objs sc i))\<rparr>"

text \<open>\<open>Session.state\<close>: the state of a stream and, when the session has it, the stream.\<close>

definition Session_state :: "u32 \<Rightarrow> 'c Session \<Rightarrow> streamState \<times> u32 option" where
  "Session_state i sc =
     (if i \<in> set (sc_streams sc) then (st_state (sc_objs sc i), Some i)
      else if i mod 2 = 1
      then if i \<le> sc_maxClientStreamID sc then (StateClosed, None) else (StateIdle, None)
      else if i \<le> sc_maxPushPromiseID sc then (StateClosed, None) else (StateIdle, None))"

definition curOpenStreams :: "'c Session \<Rightarrow> u32" where
  "curOpenStreams sc = sc_curClientStreams sc + sc_curPushedStreams sc"

subsection \<open>Writing frames\<close>

type_synonym 'c scheduling = "'c Session \<Rightarrow> go_panic + 'c Session"

abbreviation request :: "writeFramer \<Rightarrow> u32 option \<Rightarrow> FrameWriteRequest" where
  "request w st \<equiv> \<lparr>wr_write = Some w, wr_stream = st, wr_done = None\<rparr>"

definition is_reset :: "FrameWriteRequest \<Rightarrow> bool" where
  "is_reset wr = (case wr_write wr of Some (WriteStreamError _ _) \<Rightarrow> True | _ \<Rightarrow> False)"

text \<open>The \<open>switch wr.write.(type)\<close> of \<open>writeFrame\<close>: whether the frame is to be ignored, and the
  session with \<open>wroteHeaders\<close> noted.\<close>

definition noteHeaders :: "FrameWriteRequest \<Rightarrow> bool \<Rightarrow> 'c Session \<Rightarrow> go_panic + bool \<times> 'c Session" where
  "noteHeaders wr ignoreWrite sc =
     (case wr_write wr of
        Some (WriteResHeaders _) \<Rightarrow>
          (case wr_stream wr of
             None \<Rightarrow> Inl NilDereference
           | Some i \<Rightarrow> Inr (ignoreWrite, update_stream i (st_wroteHeaders_update (\<lambda>_. True)) sc))
      | Some (Write100ContinueHeadersFrame _) \<Rightarrow>
          (case wr_stream wr of
             None \<Rightarrow> Inl NilDereference
           | Some i \<Rightarrow>
               if st_wroteHeaders (sc_objs sc i)
               then if wr_done wr \<noteq> None
                    then Inl (Panic ''wr.done != nil for write100ContinueHeadersFrame'')
                    else Inr (True, sc)
               else Inr (ignoreWrite, sc))
      | _ \<Rightarrow> Inr (ignoreWrite, sc))"

definition Session_writeFrame :: "'c scheduling \<Rightarrow> FrameWriteRequest \<Rightarrow> 'c scheduling" where
  "Session_writeFrame sched wr sc =
     (let ignoreWrite = (StreamID wr \<noteq> 0 \<and> fst (Session_state (StreamID wr) sc) = StateClosed \<and> \<not> is_reset wr)
      in bindE (noteHeaders wr ignoreWrite sc) (\<lambda>(ignoreWrite, sc1).
         bindE (if \<not> ignoreWrite
                then bindE (Push wr (sc_writeSched sc1)) (\<lambda>ws. Inr (sc1\<lparr>sc_writeSched := ws\<rparr>))
                else Inr sc1) sched))"

definition flow_of :: "u32 option \<Rightarrow> flow_ptr" where
  "flow_of st = (case st of None \<Rightarrow> ConnFlow | Some i \<Rightarrow> StreamFlow i)"

definition sendWindowUpdate32 :: "'c scheduling \<Rightarrow> u32 option \<Rightarrow> i32 \<Rightarrow> 'c scheduling" where
  "sendWindowUpdate32 sched st n sc =
     (if n = 0 then Inr sc
      else if n <s 0 then Inl (Panic ''negative update'')
      else let streamID = (case st of None \<Rightarrow> 0 | Some i \<Rightarrow> i)
           in bindE (Session_writeFrame sched (request (WriteWindowUpdate streamID n) st) sc) (\<lambda>sc1.
                let (ok, inflow) = flow_add (flow_of st) n (sc_inflow sc1)
                in if \<not> ok
                   then Inl (Panic ''internal error; sent too many window updates without decrements?'')
                   else Inr (sc1\<lparr>sc_inflow := inflow\<rparr>)))"

definition maxUint31 :: int where
  "maxUint31 = 2147483647"

function sendWindowUpdate :: "'c scheduling \<Rightarrow> u32 option \<Rightarrow> int \<Rightarrow> 'c scheduling" where
  "sendWindowUpdate sched st n sc =
     (if n \<ge> maxUint31
      then bindE (sendWindowUpdate32 sched st (word_of_int maxUint31) sc)
             (sendWindowUpdate sched st (n - maxUint31))
      else sendWindowUpdate32 sched st (word_of_int n) sc)"
  by pat_completeness auto
termination
  by (relation "measure (\<lambda>(sched, st, n, sc). nat n)") (auto simp: maxUint31_def)

declare sendWindowUpdate.simps [simp del]

definition resetStream :: "'c scheduling \<Rightarrow> u32 \<Rightarrow> ErrCode \<Rightarrow> 'c scheduling" where
  "resetStream sched i code sc =
     bindE (Session_writeFrame sched (request (WriteStreamError i code) None) sc) (\<lambda>sc1.
       Inr (if i \<in> set (sc_streams sc1)
            then update_stream i (st_resetQueued_update (\<lambda>_. True)) sc1 else sc1))"

text \<open>The bookkeeping of \<open>closeStream\<close> before it tells anyone.\<close>

definition dropStream :: "u32 \<Rightarrow> 'c Session \<Rightarrow> 'c Session" where
  "dropStream i sc =
     (let sc1 = update_stream i (st_state_update (\<lambda>_. StateClosed)) sc;
          sc2 = (if isPushed i then sc1\<lparr>sc_curPushedStreams := sc_curPushedStreams sc1 - 1\<rparr>
                 else sc1\<lparr>sc_curClientStreams := sc_curClientStreams sc1 - 1\<rparr>)
      in sc2\<lparr>sc_streams := removeAll i (sc_streams sc2)\<rparr>)"

definition closeStream :: "'c session_env \<Rightarrow> 'c scheduling \<Rightarrow> u32 \<Rightarrow> go_error \<Rightarrow> 'c scheduling" where
  "closeStream env sched i err sc =
     (if st_state (sc_objs sc i) \<in> {StateIdle, StateClosed}
      then Inl (Panic (''invariant; can't close stream in state '' @ stateName (st_state (sc_objs sc i))))
      else
        let sc1 = dropStream i sc
        in if sc_streams sc1 = [] \<and> sc_idleTimeout sc1 \<noteq> 0 \<and> \<not> sc_idleTimer sc1 then Inl NilDereference
           else
             bindE (sendWindowUpdate sched None (pipe_Len (body_ops env) (st_body (sc_objs sc1 i))) sc1) (\<lambda>sc2.
             bindE (CloseWithError (Some err) (st_body (sc_objs sc2 i))) (\<lambda>body.
             bindE (go_close (st_cw (sc_objs sc2 i))) (\<lambda>cw.
               let sc3 = update_stream i (\<lambda>st. st\<lparr>st_body := body, st_ctxDone := True, st_cw := cw\<rparr>) sc2
               in bindE (CloseStream i (sc_writeSched sc3)) (\<lambda>ws. Inr (sc3\<lparr>sc_writeSched := ws\<rparr>))))))"

definition reply_writer :: "FrameWriteRequest \<Rightarrow> go_error option \<Rightarrow> 'c Session \<Rightarrow> go_panic + 'c Session" where
  "reply_writer wr err sc =
     bindE (replyToWriter wr err (sc_chans sc)) (\<lambda>(_, chans). Inr (sc\<lparr>sc_chans := chans\<rparr>))"

text \<open>What a written frame does to its stream.\<close>

definition frameWritten :: "'c session_env \<Rightarrow> 'c scheduling \<Rightarrow> FrameWriteRequest \<Rightarrow> 'c scheduling" where
  "frameWritten env sched wr sc =
     bindE (writeEndsStream (wr_write wr)) (\<lambda>ends.
       if ends
       then (case wr_stream wr of
               None \<Rightarrow> Inl (Panic ''internal error: expecting non-nil stream'')
             | Some i \<Rightarrow>
                 (case st_state (sc_objs sc i) of
                    StateOpen \<Rightarrow>
                      resetStream sched i ErrCodeNo (update_stream i (st_state_update (\<lambda>_. StateHalfClosedLocal)) sc)
                  | StateHalfClosedRemote \<Rightarrow> closeStream env sched i errHandlerComplete sc
                  | _ \<Rightarrow> Inr sc))
       else (case wr_write wr of
               Some (WriteStreamError i code) \<Rightarrow>
                 if i \<in> set (sc_streams sc) then closeStream env sched i (streamError i code) sc else Inr sc
             | Some (HandlerPanicRST _) \<Rightarrow>
                 (case wr_stream wr of
                    None \<Rightarrow> Inl NilDereference
                  | Some i \<Rightarrow> closeStream env sched i errHandlerPanicked sc)
             | _ \<Rightarrow> Inr sc))"

definition wroteFrame ::
    "'c session_env \<Rightarrow> 'c scheduling \<Rightarrow> FrameWriteRequest \<Rightarrow> go_error option \<Rightarrow> 'c scheduling" where
  "wroteFrame env sched wr err sc =
     (if \<not> sc_writingFrame sc then Inl (Panic ''internal error: expected to be already writing a frame'')
      else
        let sc1 = sc\<lparr>sc_writingFrame := False, sc_writingFrameAsync := False\<rparr>
        in bindE (frameWritten env sched wr sc1) (\<lambda>sc2.
           bindE (reply_writer wr err sc2) sched))"

text \<open>The check of the stream's state in \<open>startFrameWrite\<close>.\<close>

definition mayStart :: "FrameWriteRequest \<Rightarrow> 'c Session \<Rightarrow> go_panic + unit" where
  "mayStart wr sc =
     (case wr_stream wr of
        None \<Rightarrow> Inr ()
      | Some i \<Rightarrow>
          (case st_state (sc_objs sc i) of
             StateHalfClosedLocal \<Rightarrow>
               (case wr_write wr of
                  Some (WriteStreamError _ _) \<Rightarrow> Inr ()
                | Some (HandlerPanicRST _) \<Rightarrow> Inr ()
                | Some (WriteWindowUpdate _ _) \<Rightarrow> Inr ()
                | _ \<Rightarrow> Inl (Panic ''internal error: attempt to send frame on a half-closed-local stream''))
           | StateClosed \<Rightarrow> Inl (Panic ''internal error: attempt to send frame on a closed stream'')
           | _ \<Rightarrow> Inr ()))"

text \<open>\<open>writeFrame\<close> of a frame on the connection.\<close>

definition write_wire :: "'c session_env \<Rightarrow> writeFramer \<Rightarrow> 'c Session \<Rightarrow> go_panic + go_error option \<times> 'c Session" where
  "write_wire env w sc =
     bindE (writeFrame (se_header env) (se_ctx env) w (sc_wire sc)) (\<lambda>(err, c). Inr (err, sc\<lparr>sc_wire := c\<rparr>))"

definition beginWrite :: "'c session_env \<Rightarrow> 'c scheduling \<Rightarrow> FrameWriteRequest \<Rightarrow> 'c scheduling" where
  "beginWrite env sched wr sc =
     (let sc1 = sc\<lparr>sc_writingFrame := True, sc_needsFrameFlush := True\<rparr>
      in case wr_write wr of
           None \<Rightarrow> Inl NilDereference
         | Some w \<Rightarrow>
             if staysWithinBuffer w (se_Available env (sc_wire sc1))
             then bindE (write_wire env w (sc1\<lparr>sc_writingFrameAsync := False\<rparr>)) (\<lambda>(err, sc2).
                    wroteFrame env sched wr err sc2)
             else Inr (sc1\<lparr>sc_writingFrameAsync := True, sc_async := Some wr\<rparr>))"

definition startFrameWrite :: "'c session_env \<Rightarrow> 'c scheduling \<Rightarrow> FrameWriteRequest \<Rightarrow> 'c scheduling" where
  "startFrameWrite env sched wr sc =
     (if sc_writingFrame sc then Inl (Panic ''internal error: can only be writing one frame at a time'')
      else bindE (mayStart wr sc) (\<lambda>_.
        case wr_write wr of
          Some (WritePushPromise wpp) \<Rightarrow>
            (case pp_allocatePromisedID wpp of
               Inl err \<Rightarrow> reply_writer wr (Some err) (sc\<lparr>sc_writingFrameAsync := False\<rparr>)
             | Inr pid \<Rightarrow>
                 beginWrite env sched (wr\<lparr>wr_write := Some (WritePushPromise (wpp\<lparr>pp_promisedID := pid\<rparr>))\<rparr>) sc)
        | _ \<Rightarrow> beginWrite env sched wr sc))"

subsection \<open>The schedule loop\<close>

text \<open>The body of the loop decides between a frame, a flush and the end of the loop: GOAWAY comes
  first, then the SETTINGS acknowledgement, then a frame of the scheduler.\<close>

datatype next_write = NextFrame FrameWriteRequest | NextFlush | NextNone

definition nextWrite :: "'c session_env \<Rightarrow> 'c Session \<Rightarrow> go_panic + next_write \<times> 'c Session" where
  "nextWrite env sc =
     (if sc_needToSendGoAway sc
      then Inr (NextFrame (request (WriteGoAway (sc_maxClientStreamID sc) (sc_goAwayCode sc)) None),
                sc\<lparr>sc_needToSendGoAway := False\<rparr>)
      else if sc_needToSendSettingsAck sc
      then Inr (NextFrame (request WriteSettingsAck None), sc\<lparr>sc_needToSendSettingsAck := False\<rparr>)
      else
        bindE (if \<not> sc_inGoAway sc \<or> sc_goAwayCode sc = ErrCodeNo
               then bindE (Pop (se_sort env) (sc_maxFrameSize sc) (sc_writeSched sc) (sc_flow sc)) (\<lambda>(r, ws, fs).
                      Inr (r, sc\<lparr>sc_writeSched := ws, sc_flow := fs\<rparr>))
               else Inr ((emptyRequest, False), sc)) (\<lambda>((wr, ok), sc1).
          Inr (if ok then NextFrame wr else if sc_needsFrameFlush sc1 then NextFlush else NextNone, sc1)))"

fun scheduleLoop :: "'c session_env \<Rightarrow> 'c scheduling \<Rightarrow> nat \<Rightarrow> 'c scheduling" where
  "scheduleLoop env sched 0 sc = Inl OutOfFuel"
| "scheduleLoop env sched (Suc fuel) sc =
     (if sc_writingFrameAsync sc then Inr sc
      else bindE (nextWrite env sc) (\<lambda>(nxt, sc1).
        case nxt of
          NextFrame wr \<Rightarrow> bindE (startFrameWrite env sched wr sc1) (scheduleLoop env sched fuel)
        | NextFlush \<Rightarrow>
            bindE (startFrameWrite env sched (request FlushFrameWriter None) sc1) (\<lambda>sc2.
              scheduleLoop env sched fuel (sc2\<lparr>sc_needsFrameFlush := False\<rparr>))
        | NextNone \<Rightarrow> Inr sc1))"

text \<open>A bound on the turns of the loop: what is queued, and for each stream the frames that its
  closing can add.\<close>

definition queued_atoms :: "priorityWriteScheduler \<Rightarrow> nat" where
  "queued_atoms ws = (\<Sum>a\<leftarrow>[0..<ws_fresh ws]. length (queue_atoms (n_q (ws_heap ws a))))"

definition stream_frames :: "'c session_env \<Rightarrow> stream \<Rightarrow> nat" where
  "stream_frames env st = 2 + nat (pipe_Len (body_ops env) (st_body st))"

definition schedule_fuel :: "'c session_env \<Rightarrow> 'c Session \<Rightarrow> nat" where
  "schedule_fuel env sc =
     queued_atoms (sc_writeSched sc) + (\<Sum>i\<leftarrow>sc_streams sc. stream_frames env (sc_objs sc i)) + 5"

primrec scheduleFrameWrite :: "'c session_env \<Rightarrow> nat \<Rightarrow> 'c scheduling" where
  "scheduleFrameWrite env 0 sc =
     (if sc_writingFrame sc \<or> sc_inFrameScheduleLoop sc then Inr sc else Inl OutOfFuel)"
| "scheduleFrameWrite env (Suc lvl) sc =
     (if sc_writingFrame sc \<or> sc_inFrameScheduleLoop sc then Inr sc
      else bindE (scheduleLoop env (scheduleFrameWrite env lvl) (schedule_fuel env sc)
                    (sc\<lparr>sc_inFrameScheduleLoop := True\<rparr>)) (\<lambda>sc1.
             Inr (sc1\<lparr>sc_inFrameScheduleLoop := False\<rparr>)))"

abbreviation schedule :: "'c session_env \<Rightarrow> 'c scheduling" where
  "schedule env \<equiv> scheduleFrameWrite env 1"

text \<open>\<open>writeFrameAsync\<close> and the message it sends to the serve loop.\<close>

definition writeFrameAsync :: "'c session_env \<Rightarrow> 'c scheduling" where
  "writeFrameAsync env sc =
     (case sc_async sc of
        None \<Rightarrow> Inr sc
      | Some wr \<Rightarrow>
          (case wr_write wr of
             None \<Rightarrow> Inl NilDereference
           | Some w \<Rightarrow>
               bindE (write_wire env w sc) (\<lambda>(err, sc1).
                 wroteFrame env (schedule env) wr err (sc1\<lparr>sc_async := None\<rparr>))))"

definition goAway :: "'c session_env \<Rightarrow> ErrCode \<Rightarrow> 'c scheduling" where
  "goAway env code sc =
     (if sc_inGoAway sc then Inr sc
      else schedule env (sc\<lparr>sc_inGoAway := True, sc_needToSendGoAway := True, sc_goAwayCode := code\<rparr>))"

definition startGracefulShutdownInternal :: "'c session_env \<Rightarrow> 'c scheduling" where
  "startGracefulShutdownInternal env = goAway env ErrCodeNo"

subsection \<open>Creating and closing streams\<close>

definition zeroFlow :: flow where
  "zeroFlow = \<lparr>flow_n = 0, flow_conn = None\<rparr>"

definition newStreamObject :: "streamState \<Rightarrow> stream" where
  "newStreamObject state =
     \<lparr>st_ctxDone = False, st_cw = ChanOpen, st_replied = False, st_replyHeader = None, st_readyCh = ChanOpen,
      st_state = state, st_bodyBytes = 0, st_header = None, st_trailer = None, st_body = newPipe emptyBuffer,
      st_resetQueued = False, st_gotTrailerHeader = False, st_wroteHeaders = False\<rparr>"

text \<open>A window of a new stream: linked to the connection's, then grown from 0.\<close>

definition newStreamFlow :: "u32 \<Rightarrow> i32 \<Rightarrow> flow_store \<Rightarrow> flow_store" where
  "newStreamFlow i n s =
     snd (flow_add (StreamFlow i) n (setConnFlow (StreamFlow i) (Some ConnFlow) (s(StreamFlow i := zeroFlow))))"

definition newStream :: "u32 \<Rightarrow> u32 \<Rightarrow> streamState \<Rightarrow> 'c scheduling" where
  "newStream i pusherID state sc =
     (if i = 0 then Inl (Panic ''internal error: cannot create stream with id 0'')
      else
        let sc1 = sc\<lparr>sc_objs := (sc_objs sc)(i := newStreamObject state),
                     sc_flow := newStreamFlow i (sc_initialStreamSendWindowSize sc) (sc_flow sc),
                     sc_inflow := newStreamFlow i (sc_initialStreamRecvWindowSize sc) (sc_inflow sc),
                     sc_streams := List.insert i (sc_streams sc)\<rparr>
        in bindE (OpenStream i pusherID (sc_writeSched sc1)) (\<lambda>ws.
             let sc2 = sc1\<lparr>sc_writeSched := ws\<rparr>
             in Inr (if isPushed i then sc2\<lparr>sc_curPushedStreams := sc_curPushedStreams sc2 + 1\<rparr>
                     else sc2\<lparr>sc_curClientStreams := sc_curClientStreams sc2 + 1\<rparr>)))"

text \<open>The headers of a stream that this side opens, or of a reply.\<close>

definition resHeaders :: "u32 \<Rightarrow> int \<Rightarrow> header \<Rightarrow> bool \<Rightarrow> writeResHeaders" where
  "resHeaders i code h endStream =
     \<lparr>rh_streamID = i, rh_httpResCode = code, rh_h = h, rh_trailers = None, rh_endStream = endStream,
      rh_date = [], rh_contentType = [], rh_contentLength = []\<rparr>"

text \<open>The identifier that \<open>createStream\<close> gives out next, and where it keeps it.\<close>

definition ownMaxStreamID :: "'c Session \<Rightarrow> u32" where
  "ownMaxStreamID sc = (if sc_server sc then sc_maxPushPromiseID sc else sc_maxClientStreamID sc)"

definition ownCurStreams :: "'c Session \<Rightarrow> u32" where
  "ownCurStreams sc = (if sc_server sc then sc_curPushedStreams sc else sc_curClientStreams sc)"

definition nextStreamID :: "'c Session \<Rightarrow> u32" where
  "nextStreamID sc =
     (if \<not> sc_server sc \<and> sc_maxClientStreamID sc = 0 then 1 else ownMaxStreamID sc + 2)"

definition setOwnMaxStreamID :: "u32 \<Rightarrow> 'c Session \<Rightarrow> 'c Session" where
  "setOwnMaxStreamID i sc =
     (if sc_server sc then sc\<lparr>sc_maxPushPromiseID := i\<rparr> else sc\<lparr>sc_maxClientStreamID := i\<rparr>)"

text \<open>\<open>createStream\<close> answers on \<open>errCh\<close> or \<open>streamCh\<close>: the error or the stream is the first component.\<close>

definition createStream ::
    "'c session_env \<Rightarrow> u32 \<Rightarrow> header \<Rightarrow> bool \<Rightarrow> 'c Session \<Rightarrow> go_panic + (go_error + u32) \<times> 'c Session" where
  "createStream env parentID header endStream sc =
     (if ownCurStreams sc + 1 > sc_peerMaxStreams sc then Inr (Inl ErrStreamLimitReached, sc)
      else if ownMaxStreamID sc + 2 \<ge> 2147483648
      then bindE (startGracefulShutdownInternal env sc) (\<lambda>sc1. Inr (Inl ErrStreamLimitReached, sc1))
      else
        let i = nextStreamID sc;
            sc1 = setOwnMaxStreamID i sc;
            initialState = (if endStream then StateHalfClosedRemote else StateOpen)
        in bindE (newStream i parentID initialState sc1) (\<lambda>sc2.
           bindE (Session_writeFrame (schedule env)
                    (request (WriteResHeaders (resHeaders i 0 header endStream)) (Some i)) sc2) (\<lambda>sc3.
             Inr (Inr i, sc3))))"

definition noteBodyRead :: "'c session_env \<Rightarrow> u32 \<Rightarrow> int \<Rightarrow> 'c scheduling" where
  "noteBodyRead env i n sc =
     bindE (sendWindowUpdate (schedule env) None n sc) (\<lambda>sc1.
       if st_state (sc_objs sc1 i) \<notin> {StateHalfClosedRemote, StateClosed}
       then sendWindowUpdate (schedule env) (Some i) n sc1 else Inr sc1)"

text \<open>A \<open>range\<close> over a map does not visit an entry that is deleted before its turn.\<close>

fun closeEach :: "'c session_env \<Rightarrow> u32 list \<Rightarrow> 'c scheduling" where
  "closeEach env [] sc = Inr sc"
| "closeEach env (i # is) sc =
     bindE (if i \<in> set (sc_streams sc) then closeStream env (schedule env) i errDisconnected sc else Inr sc)
       (closeEach env is)"

definition closeAllStreamsOnConnClose :: "'c session_env \<Rightarrow> 'c scheduling" where
  "closeAllStreamsOnConnClose env sc = closeEach env (se_range env (sc_streams sc)) sc"

subsection \<open>Configuration\<close>

record SessionConfig =
  cfg_InitialSessionWindowSize :: u32
  cfg_InitialStreamWindowSize :: u32
  cfg_MaxFrameSize :: u32
  cfg_HeaderTableSize :: u32
  cfg_MaxHeaderBytes :: u32
  cfg_WriteBufferSize :: int
  cfg_ReadBufferSize :: int
  cfg_ConnectionTimeout :: int
  cfg_IdleTimeout :: int

text \<open>Times are in nanoseconds; \<open>http.DefaultMaxHeaderBytes\<close> is 1 MB.\<close>

definition DefaultSessionConfig :: SessionConfig where
  "DefaultSessionConfig =
     \<lparr>cfg_InitialSessionWindowSize = defaultWindowSize, cfg_InitialStreamWindowSize = defaultWindowSize,
      cfg_MaxFrameSize = http2MaxFrameLen, cfg_HeaderTableSize = http2InitHeaderTableSize,
      cfg_MaxHeaderBytes = 1048576, cfg_WriteBufferSize = defaultWriteBufSize,
      cfg_ReadBufferSize = defaultWriteBufSize, cfg_ConnectionTimeout = 10000000000, cfg_IdleTimeout = 0\<rparr>"

text \<open>The stores before any stream exists: the entry of a stream is written by \<open>newStream\<close> before it
  is read.\<close>

definition sessionFlow :: "i32 \<Rightarrow> flow_store" where
  "sessionFlow n = snd (flow_add ConnFlow n
     (\<lambda>p. case p of ConnFlow \<Rightarrow> zeroFlow | StreamFlow _ \<Rightarrow> zeroFlow\<lparr>flow_conn := Some ConnFlow\<rparr>))"

definition newSession :: "'c \<Rightarrow> bool \<Rightarrow> SessionConfig \<Rightarrow> 'c Session" where
  "newSession wire server config =
     \<lparr>sc_wire = wire, sc_server = server, sc_doneServing = ChanOpen,
      sc_flow = sessionFlow (cfg_InitialSessionWindowSize config),
      sc_inflow = sessionFlow (cfg_InitialSessionWindowSize config),
      sc_writeSched = NewPriorityWriteScheduler None, sc_handler = False, sc_handled = [],
      sc_sessionReady = ChanOpen, sc_objs = (\<lambda>_. newStreamObject StateIdle), sc_streams = [],
      sc_curClientStreams = 0, sc_curPushedStreams = 0, sc_maxClientStreamID = 0, sc_maxPushPromiseID = 0,
      sc_sawFirstSettings = False, sc_needToSendSettingsAck = False, sc_unackedSettings = 0,
      sc_initialStreamSendWindowSize = cfg_InitialStreamWindowSize config,
      sc_initialStreamRecvWindowSize = cfg_InitialStreamWindowSize config,
      sc_headerTableSize = cfg_HeaderTableSize config, sc_peerMaxHeaderListSize = 0, sc_pushEnabled = False,
      sc_advMaxStreams = 4294967295, sc_peerMaxStreams = 4294967295,
      sc_maxFrameSize = cfg_MaxFrameSize config, sc_writingFrame = False, sc_writingFrameAsync = False,
      sc_async = None, sc_needsFrameFlush = False, sc_inGoAway = False, sc_inFrameScheduleLoop = False,
      sc_needToSendGoAway = False, sc_goAwayCode = 0, sc_shutdownTimer = False,
      sc_idleTimeout = cfg_IdleTimeout config, sc_idleTimer = False, sc_chans = (\<lambda>_. None)\<rparr>"

definition NewClientSession :: "'c \<Rightarrow> SessionConfig option \<Rightarrow> 'c Session" where
  "NewClientSession wire config =
     newSession wire False (case config of None \<Rightarrow> DefaultSessionConfig | Some c \<Rightarrow> c)"

definition NewServerSession :: "'c \<Rightarrow> SessionConfig option \<Rightarrow> 'c Session" where
  "NewServerSession wire config =
     newSession wire True (case config of None \<Rightarrow> DefaultSessionConfig | Some c \<Rightarrow> c)"

end
