(* ===== verification/Utils.thy ===== *)
theory Utils
  imports Write_Frames Pipe
begin

text \<open>
  The helpers of \<open>utils.go\<close> that are not part of the frame writers: the classification of
  connection errors, \<open>sorter.SortStrings\<close>, the channel type \<open>closeWaiter\<close>, and the log lines of \<open>session_log.go\<close>. The text
  of an error (\<open>err.Error()\<close>) is produced by the package that made it and is an argument, and so is the
  operating system the program was compiled for.
\<close>

subsection \<open>Errors of a closed connection\<close>

text \<open>\<open>strings.Contains\<close>.\<close>

fun Contains :: "string \<Rightarrow> string \<Rightarrow> bool" where
  "Contains [] sub \<longleftrightarrow> sub = []"
| "Contains (c # s) sub \<longleftrightarrow> take (length sub) (c # s) = sub \<or> Contains s sub"

text \<open>\<open>errno\<close> of the error that a system call returned.\<close>

definition errno :: "(string \<times> nat) \<Rightarrow> nat" where
  "errno se = snd se"

definition isClosedConnError :: "string \<Rightarrow> (go_error \<Rightarrow> string) \<Rightarrow> go_error option \<Rightarrow> bool" where
  "isClosedConnError GOOS text err =
     (case err of
        None \<Rightarrow> False
      | Some e \<Rightarrow>
          if Contains (text e) ''use of closed network connection'' then True
          else if GOOS = ''windows''
          then (case e of
                  OpError op _ (Some se) \<Rightarrow>
                    op = ''read'' \<and> fst se = ''wsarecv'' \<and> (errno se = 10054 \<or> errno se = 10053)
                | _ \<Rightarrow> False)
          else False)"

subsection \<open>Sorting\<close>

text \<open>A \<open>sorter\<close> owns the slice \<open>v\<close>. \<open>SortStrings\<close> sorts the caller's slice in its place and puts its own
  back: the sorter and the caller's slice afterwards.\<close>

record sorter =
  sorter_v :: "string list"

definition SortStrings :: "string list \<Rightarrow> sorter \<Rightarrow> sorter \<times> string list" where
  "SortStrings ss s =
     (let save = sorter_v s;
          s1 = s\<lparr>sorter_v := ss\<rparr>;
          s2 = s1\<lparr>sorter_v := sort (sorter_v s1)\<rparr>
      in (s2\<lparr>sorter_v := save\<rparr>, sorter_v s2))"

subsection \<open>Channels\<close>

text \<open>A \<open>closeWaiter\<close> is a channel that is only ever closed; \<open>Wait\<close> returns exactly when it has been.\<close>

definition closeWaiter_Init :: chan_state where
  "closeWaiter_Init = ChanOpen"

definition closeWaiter_Close :: "chan_state \<Rightarrow> go_panic + chan_state" where
  "closeWaiter_Close cw = go_close cw"

definition closeWaiter_Wait :: "chan_state \<Rightarrow> bool" where
  "closeWaiter_Wait cw \<longleftrightarrow> cw = ChanClosed"

subsection \<open>Log lines\<close>

text \<open>The methods of \<open>session_log.go\<close>, by the lines they print: a line is the format with its arguments, as it
  is handed to \<open>log.Printf\<close>. \<open>condlogf\<close> prints an error that is to be expected only under \<open>VerboseLogs\<close>.\<close>

type_synonym 'a log_line = "string \<times> 'a list"

definition logf :: "string \<Rightarrow> 'a list \<Rightarrow> 'a log_line list" where
  "logf format args = [(format, args)]"

definition vlogf :: "bool \<Rightarrow> string \<Rightarrow> 'a list \<Rightarrow> 'a log_line list" where
  "vlogf VerboseLogs format args = (if VerboseLogs then logf format args else [])"

definition condlogf ::
    "string \<Rightarrow> (go_error \<Rightarrow> string) \<Rightarrow> bool \<Rightarrow> go_error option \<Rightarrow> string \<Rightarrow> 'a list \<Rightarrow> 'a log_line list" where
  "condlogf GOOS text VerboseLogs err format args =
     (if err = None then []
      else if err = Some IoEOF \<or> err = Some IoUnexpectedEOF \<or> isClosedConnError GOOS text err
      then vlogf VerboseLogs format args
      else logf format args)"

lemma Contains_append: "Contains (p @ sub @ q) sub"
proof (induction p)
  case Nil
  show ?case
  proof (cases "sub @ q")
    case (Cons a l)
    then have "take (length sub) (a # l) = sub" by (metis append_eq_conv_conj)
    then show ?thesis using Cons by simp
  qed simp
next
  case (Cons c p)
  then show ?case by simp
qed

lemma Contains_iff: "Contains s sub \<longleftrightarrow> (\<exists>p q. s = p @ sub @ q)"
proof
  assume "Contains s sub"
  then show "\<exists>p q. s = p @ sub @ q"
  proof (induction s)
    case Nil
    then show ?case by simp
  next
    case (Cons c s)
    show ?case
    proof (cases "take (length sub) (c # s) = sub")
      case True
      then have "c # s = [] @ sub @ drop (length sub) (c # s)"
        by (metis append_take_drop_id append_Nil)
      then show ?thesis by blast
    next
      case False
      then obtain p q where "s = p @ sub @ q" using Cons by auto
      then have "c # s = (c # p) @ sub @ q" by simp
      then show ?thesis by blast
    qed
  qed
qed (auto simp: Contains_append)

text \<open>\<open>isClosedConnError\<close> holds for an error exactly when its text contains the phrase of the
  Go runtime, or, on Windows only, when it is a failed \<open>read\<close> whose \<open>wsarecv\<close> was aborted or reset by the
  peer; it never holds for nil.\<close>

theorem isClosedConnError_iff:
  "isClosedConnError GOOS text err \<longleftrightarrow>
     (\<exists>e. err = Some e \<and>
       ((\<exists>p q. text e = p @ ''use of closed network connection'' @ q) \<or>
        GOOS = ''windows'' \<and> (\<exists>t n. e = OpError ''read'' t (Some (''wsarecv'', n)) \<and> n \<in> {10053, 10054})))"
  unfolding isClosedConnError_def Contains_iff
  by (auto simp: errno_def split: option.splits go_error.splits)

end
