(* ===== verification/SessionRead.thy ===== *)
theory SessionRead
  imports Session Utils
begin

text \<open>
  The frame handlers of the serve loop (\<open>session_read.go\<close> and \<open>processTrailerHeaders\<close> of \<open>stream.go\<close>).
  A frame is what golang.org/x/net/http2 parsed: the constructors hold the parts of it that the
  handlers read. A handler returns the error that the Go function returns, or none.
\<close>

subsection \<open>Frames\<close>

text \<open>The fields of a HEADERS block are the pseudo fields followed by the regular ones. The length of a
  DATA frame counts its padding.\<close>

record MetaHeaders =
  mh_StreamID :: u32
  mh_PseudoFields :: "(string \<times> string) list"
  mh_RegularFields :: "(string \<times> string) list"
  mh_Truncated :: bool
  mh_StreamEnded :: bool
  mh_Priority :: "PriorityParam option"

definition mh_Fields :: "MetaHeaders \<Rightarrow> (string \<times> string) list" where
  "mh_Fields f = mh_PseudoFields f @ mh_RegularFields f"

record DataFr =
  df_StreamID :: u32
  df_Data :: "byte list"
  df_Length :: u32
  df_StreamEnded :: bool

datatype Frame =
    SettingsFrame bool "setting list"
  | MetaHeadersFrame MetaHeaders
  | WindowUpdateFrame u32 u32
  | PingFrame u32 bool "byte list"
  | DataFrame DataFr
  | RSTStreamFrame u32 ErrCode
  | PriorityFrame u32 PriorityParam
  | GoAwayFrame u32 ErrCode
  | PushPromiseFrame u32
  | UnknownFrame u32

type_synonym 'c handled = "go_panic + go_error option \<times> 'c Session"

definition SettingHeaderTableSize :: "16 word" where "SettingHeaderTableSize = 1"
definition SettingEnablePush :: "16 word" where "SettingEnablePush = 2"
definition SettingMaxConcurrentStreams :: "16 word" where "SettingMaxConcurrentStreams = 3"
definition SettingInitialWindowSize :: "16 word" where "SettingInitialWindowSize = 4"
definition SettingMaxFrameSize :: "16 word" where "SettingMaxFrameSize = 5"
definition SettingMaxHeaderListSize :: "16 word" where "SettingMaxHeaderListSize = 6"

lemmas setting_ids = SettingHeaderTableSize_def SettingEnablePush_def SettingMaxConcurrentStreams_def
  SettingInitialWindowSize_def SettingMaxFrameSize_def SettingMaxHeaderListSize_def

subsection \<open>The greeting and the reader\<close>

text \<open>\<open>readPreface\<close> for what \<open>io.ReadFull\<close> returned. The message of the error quotes the bytes, which
  the model leaves out.\<close>

definition readPreface :: "byte list \<Rightarrow> go_error + byte list \<Rightarrow> go_error option" where
  "readPreface clientPreface greeting =
     (case greeting of
        Inl err \<Rightarrow> Some err
      | Inr buf \<Rightarrow> if buf \<noteq> clientPreface then Some (ErrorString ''bogus greeting'') else None)"

type_synonym readFrameResult = "go_error + Frame"

definition terminalReadFrameError :: "readFrameResult \<Rightarrow> bool" where
  "terminalReadFrameError res =
     (case res of Inl (StreamError _ _) \<Rightarrow> False | Inl _ \<Rightarrow> True | Inr _ \<Rightarrow> False)"

text \<open>\<open>readFrames\<close> hands the results of \<open>ReadFrame\<close> to the serve loop one by one, as long as that runs, and
  stops after the first terminal error: the results the serve loop gets of those the framer has.\<close>

fun readFrames :: "readFrameResult list \<Rightarrow> readFrameResult list" where
  "readFrames [] = []"
| "readFrames (res # rs) = (if terminalReadFrameError res then [res] else res # readFrames rs)"

subsection \<open>Headers\<close>

text \<open>\<open>http.Header.Add\<close> on an association list: the value goes to the end of its key's values.\<close>

fun headerAppend :: "header \<Rightarrow> string \<Rightarrow> string \<Rightarrow> header" where
  "headerAppend [] k v = [(k, [v])]"
| "headerAppend ((k', vs) # h) k v = (if k' = k then (k', vs @ [v]) # h else (k', vs) # headerAppend h k v)"

fun addFields :: "(string \<Rightarrow> string) \<Rightarrow> (string \<times> string) list \<Rightarrow> header \<Rightarrow> header" where
  "addFields canon [] h = h"
| "addFields canon ((k, v) # fs) h = addFields canon fs (headerAppend h (canon k) v)"

definition endStream :: "u32 \<Rightarrow> 'c Session \<Rightarrow> go_panic + 'c Session" where
  "endStream i sc =
     (let sc1 = update_stream i (st_state_update (\<lambda>_. StateHalfClosedRemote)) sc
      in bindE (CloseWithError (Some IoEOF) (st_body (sc_objs sc1 i))) (\<lambda>body.
           Inr (update_stream i (st_body_update (\<lambda>_. body)) sc1)))"

definition processTrailerHeaders :: "u32 \<Rightarrow> MetaHeaders \<Rightarrow> 'c Session \<Rightarrow> 'c handled" where
  "processTrailerHeaders i f sc =
     (if st_gotTrailerHeader (sc_objs sc i) then Inr (Some (ConnectionError ErrCodeProtocol), sc)
      else
        let sc1 = update_stream i (st_gotTrailerHeader_update (\<lambda>_. True)) sc
        in if \<not> mh_StreamEnded f then Inr (Some (streamError i ErrCodeProtocol), sc1)
           else if mh_PseudoFields f \<noteq> [] then Inr (Some (streamError i ErrCodeProtocol), sc1)
           else
             let sc2 = (case st_trailer (sc_objs sc1 i) of
                          None \<Rightarrow> sc1
                        | Some t \<Rightarrow>
                            update_stream i (st_trailer_update (\<lambda>_. Some (addFields (\<lambda>k. k) (mh_RegularFields f) t))) sc1)
             in bindE (endStream i sc2) (\<lambda>sc3. Inr (None, sc3)))"

definition checkPriority :: "u32 \<Rightarrow> PriorityParam \<Rightarrow> go_error option" where
  "checkPriority i p = (if i = StreamDep p then Some (streamError i ErrCodeProtocol) else None)"

definition adjust_priority :: "u32 \<Rightarrow> PriorityParam \<Rightarrow> 'c Session \<Rightarrow> 'c handled" where
  "adjust_priority i p sc =
     bindE (AdjustStream i p (sc_writeSched sc)) (\<lambda>ws. Inr (None, sc\<lparr>sc_writeSched := ws\<rparr>))"

text \<open>HEADERS on a stream that the session has: the peer's reply, or trailers.\<close>

definition processReply :: "'c session_env \<Rightarrow> MetaHeaders \<Rightarrow> 'c Session \<Rightarrow> 'c handled" where
  "processReply env f sc =
     (let i = mh_StreamID f; st = sc_objs sc i
      in if st_resetQueued st then Inr (None, sc)
         else if \<not> st_replied st
         then bindE (go_close (st_readyCh st)) (\<lambda>ready.
                Inr (None, update_stream i (\<lambda>st. st\<lparr>st_replied := True,
                       st_replyHeader := Some (addFields (se_CanonicalKey env) (mh_Fields f) []),
                       st_readyCh := ready\<rparr>) sc))
         else processTrailerHeaders i f sc)"

text \<open>HEADERS that open a new stream. The idle timer, when there is one, is stopped; that has no effect on
  the session's fields.\<close>

definition peerMaxStreamID :: "'c Session \<Rightarrow> u32" where
  "peerMaxStreamID sc = (if \<not> sc_server sc then sc_maxPushPromiseID sc else sc_maxClientStreamID sc)"

definition peerCurStreams :: "'c Session \<Rightarrow> u32" where
  "peerCurStreams sc = (if \<not> sc_server sc then sc_curPushedStreams sc else sc_curClientStreams sc)"

definition setPeerMaxStreamID :: "u32 \<Rightarrow> 'c Session \<Rightarrow> 'c Session" where
  "setPeerMaxStreamID i sc =
     (if \<not> sc_server sc then sc\<lparr>sc_maxPushPromiseID := i\<rparr> else sc\<lparr>sc_maxClientStreamID := i\<rparr>)"

definition acceptStream :: "'c session_env \<Rightarrow> MetaHeaders \<Rightarrow> 'c Session \<Rightarrow> 'c handled" where
  "acceptStream env f sc =
     (let i = mh_StreamID f;
          initialState = (if mh_StreamEnded f then StateHalfClosedRemote else StateOpen)
      in bindE (newStream i 0 initialState sc) (\<lambda>sc1.
           let sc2 = update_stream i (st_header_update
                       (\<lambda>_. Some (addFields (se_CanonicalKey env) (mh_Fields f) []))) sc1
           in bindE (case mh_Priority f of
                       None \<Rightarrow> Inr (None, sc2)
                     | Some p \<Rightarrow>
                         (case checkPriority i p of
                            Some err \<Rightarrow> Inr (Some err, sc2)
                          | None \<Rightarrow> adjust_priority i p sc2)) (\<lambda>(err, sc3).
                case err of
                  Some e \<Rightarrow> Inr (Some e, sc3)
                | None \<Rightarrow> Inr (None, sc3\<lparr>sc_handled := sc_handled sc3 @ [i]\<rparr>))))"

definition processHeaders :: "'c session_env \<Rightarrow> MetaHeaders \<Rightarrow> 'c Session \<Rightarrow> 'c handled" where
  "processHeaders env f sc =
     (let i = mh_StreamID f
      in if sc_inGoAway sc then Inr (None, sc)
         else if mh_Truncated f then Inr (Some (streamError i ErrCodeProtocol), sc)
         else if i \<in> set (sc_streams sc) then processReply env f sc
         else if sc_server sc \<and> i mod 2 \<noteq> 1 \<or> \<not> sc_server sc \<and> i mod 2 \<noteq> 0
         then Inr (Some (ConnectionError ErrCodeProtocol), sc)
         else if i \<le> peerMaxStreamID sc then Inr (Some (ConnectionError ErrCodeProtocol), sc)
         else
           let sc1 = setPeerMaxStreamID i sc
           in if peerCurStreams sc + 1 > sc_advMaxStreams sc1
              then if sc_unackedSettings sc1 = 0 then Inr (Some (streamError i ErrCodeProtocol), sc1)
                   else Inr (Some (streamError i ErrCodeRefusedStream), sc1)
              else if \<not> sc_handler sc1 then Inr (Some (streamError i ErrCodeRefusedStream), sc1)
              else acceptStream env f sc1)"

subsection \<open>DATA\<close>

text \<open>DATA on a stream that does not take any: the connection's window is enforced and given back.\<close>

definition refuseData :: "'c session_env \<Rightarrow> DataFr \<Rightarrow> u32 option \<Rightarrow> 'c Session \<Rightarrow> 'c handled" where
  "refuseData env f st sc =
     (let i = df_StreamID f
      in if available (sc_inflow sc) ConnFlow <s df_Length f
         then Inr (Some (streamError i ErrCodeFlowControl), sc)
         else
           bindE (flow_take ConnFlow (df_Length f) (sc_inflow sc)) (\<lambda>inflow.
           bindE (sendWindowUpdate (schedule env) None (uint (df_Length f)) (sc\<lparr>sc_inflow := inflow\<rparr>)) (\<lambda>sc1.
             if st \<noteq> None \<and> st_resetQueued (sc_objs sc1 i) then Inr (None, sc1)
             else Inr (Some (streamError i ErrCodeStreamClosed), sc1))))"

text \<open>The non-empty part of a DATA frame for an open stream: the window, the body, the padding.\<close>

definition storeData :: "'c session_env \<Rightarrow> u32 \<Rightarrow> byte list \<Rightarrow> 'c Session \<Rightarrow> 'c handled" where
  "storeData env i data sc =
     (if data = [] then Inr (None, sc)
      else bindE (pipe_Write (body_ops env) data (st_body (sc_objs sc i))) (\<lambda>((wrote, err), body).
             let sc1 = update_stream i (st_body_update (\<lambda>_. body)) sc
             in if err \<noteq> None then Inr (Some (streamError i ErrCodeStreamClosed), sc1)
                else if wrote \<noteq> length data then Inl (Panic ''internal error: bad Writer'')
                else Inr (None, update_stream i (st_bodyBytes_update (\<lambda>n. n + of_nat (length data))) sc1)))"

definition returnPadding :: "'c session_env \<Rightarrow> u32 \<Rightarrow> i32 \<Rightarrow> 'c scheduling" where
  "returnPadding env i pad sc =
     (if 0 <s pad
      then bindE (sendWindowUpdate32 (schedule env) None pad sc) (sendWindowUpdate32 (schedule env) (Some i) pad)
      else Inr sc)"

definition receiveData :: "'c session_env \<Rightarrow> DataFr \<Rightarrow> 'c Session \<Rightarrow> 'c handled" where
  "receiveData env f sc =
     (let i = df_StreamID f; data = df_Data f
      in if available (sc_inflow sc) (StreamFlow i) <s df_Length f
         then Inr (Some (streamError i ErrCodeFlowControl), sc)
         else
           bindE (flow_take (StreamFlow i) (df_Length f) (sc_inflow sc)) (\<lambda>inflow.
           bindE (storeData env i data (sc\<lparr>sc_inflow := inflow\<rparr>)) (\<lambda>(err, sc1).
             if err \<noteq> None then Inr (err, sc1)
             else bindE (returnPadding env i (df_Length f - of_nat (length data)) sc1) (\<lambda>sc2. Inr (None, sc2)))))"

definition processData :: "'c session_env \<Rightarrow> DataFr \<Rightarrow> 'c Session \<Rightarrow> 'c handled" where
  "processData env f sc =
     (if sc_inGoAway sc \<and> sc_goAwayCode sc \<noteq> ErrCodeNo then Inr (None, sc)
      else
        let i = df_StreamID f; (state, st) = Session_state i sc
        in if i = 0 \<or> state = StateIdle then Inr (Some (ConnectionError ErrCodeProtocol), sc)
           else if st = None \<or> state \<noteq> StateOpen \<or> st_gotTrailerHeader (sc_objs sc i) \<or> st_resetQueued (sc_objs sc i)
           then refuseData env f st sc
           else
             bindE (if 0 < df_Length f then receiveData env f sc else Inr (None, sc)) (\<lambda>(err, sc1).
               if err \<noteq> None then Inr (err, sc1)
               else if df_StreamEnded f then bindE (endStream i sc1) (\<lambda>sc2. Inr (None, sc2))
               else Inr (None, sc1)))"

subsection \<open>SETTINGS\<close>

text \<open>The loop over the streams, in the order of the map iteration.\<close>

fun growWindows :: "i32 \<Rightarrow> u32 list \<Rightarrow> flow_store \<Rightarrow> bool \<times> flow_store" where
  "growWindows growth [] fs = (True, fs)"
| "growWindows growth (i # is) fs =
     (let (ok, fs') = flow_add (StreamFlow i) growth fs
      in if \<not> ok then (False, fs') else growWindows growth is fs')"

definition processSettingInitialWindowSize ::
    "'c session_env \<Rightarrow> u32 \<Rightarrow> 'c Session \<Rightarrow> go_error option \<times> 'c Session" where
  "processSettingInitialWindowSize env val sc =
     (let old = sc_initialStreamSendWindowSize sc;
          sc1 = sc\<lparr>sc_initialStreamSendWindowSize := val\<rparr>;
          growth = val - old;
          (ok, fs) = growWindows growth (se_range env (sc_streams sc1)) (sc_flow sc1);
          sc2 = sc1\<lparr>sc_flow := fs\<rparr>
      in if \<not> ok then (Some (ConnectionError ErrCodeFlowControl), sc2) else (None, sc2))"

definition processSetting :: "'c session_env \<Rightarrow> setting \<Rightarrow> 'c Session \<Rightarrow> go_error option \<times> 'c Session" where
  "processSetting env s sc =
     (case se_Valid env s of
        Some err \<Rightarrow> (Some err, sc)
      | None \<Rightarrow>
          let (sid, val) = s
          in if sid = SettingHeaderTableSize
             then (None, sc\<lparr>sc_headerTableSize := val,
                            sc_wire := se_SetMaxDynamicTableSize env val (sc_wire sc)\<rparr>)
             else if sid = SettingEnablePush then (None, sc\<lparr>sc_pushEnabled := val \<noteq> 0\<rparr>)
             else if sid = SettingMaxConcurrentStreams then (None, sc\<lparr>sc_peerMaxStreams := val\<rparr>)
             else if sid = SettingInitialWindowSize then processSettingInitialWindowSize env val sc
             else if sid = SettingMaxFrameSize then (None, sc\<lparr>sc_maxFrameSize := val\<rparr>)
             else if sid = SettingMaxHeaderListSize then (None, sc\<lparr>sc_peerMaxHeaderListSize := val\<rparr>)
             else (None, sc))"

text \<open>\<open>ForeachSetting\<close> stops at the first error.\<close>

fun ForeachSetting ::
    "(setting \<Rightarrow> 's \<Rightarrow> go_error option \<times> 's) \<Rightarrow> setting list \<Rightarrow> 's \<Rightarrow> go_error option \<times> 's" where
  "ForeachSetting fn [] sc = (None, sc)"
| "ForeachSetting fn (s # ss) sc =
     (case fn s sc of (Some err, sc1) \<Rightarrow> (Some err, sc1) | (None, sc1) \<Rightarrow> ForeachSetting fn ss sc1)"

definition processSettings :: "'c session_env \<Rightarrow> bool \<Rightarrow> setting list \<Rightarrow> 'c Session \<Rightarrow> 'c handled" where
  "processSettings env isAck ss sc =
     (if isAck
      then let sc1 = sc\<lparr>sc_unackedSettings := sc_unackedSettings sc - 1\<rparr>
           in if sc_unackedSettings sc1 < 0 then Inr (Some (ConnectionError ErrCodeProtocol), sc1)
              else Inr (None, sc1)
      else case ForeachSetting (processSetting env) ss sc of
             (Some err, sc1) \<Rightarrow> Inr (Some err, sc1)
           | (None, sc1) \<Rightarrow>
               bindE (schedule env (sc1\<lparr>sc_needToSendSettingsAck := True\<rparr>)) (\<lambda>sc2. Inr (None, sc2)))"

subsection \<open>The other frames\<close>

definition processPing :: "'c session_env \<Rightarrow> u32 \<Rightarrow> bool \<Rightarrow> byte list \<Rightarrow> 'c Session \<Rightarrow> 'c handled" where
  "processPing env i isAck data sc =
     (if isAck then Inr (None, sc)
      else if i \<noteq> 0 then Inr (Some (ConnectionError ErrCodeProtocol), sc)
      else if sc_inGoAway sc \<and> sc_goAwayCode sc \<noteq> ErrCodeNo then Inr (None, sc)
      else bindE (Session_writeFrame (schedule env) (request (WritePingAck data) None) sc) (\<lambda>sc1. Inr (None, sc1)))"

definition processWindowUpdate :: "'c session_env \<Rightarrow> u32 \<Rightarrow> u32 \<Rightarrow> 'c Session \<Rightarrow> 'c handled" where
  "processWindowUpdate env i increment sc =
     (if i \<noteq> 0
      then let (state, st) = Session_state i sc
           in if state = StateIdle then Inr (Some (ConnectionError ErrCodeProtocol), sc)
              else if st = None then Inr (None, sc)
              else let (ok, fs) = flow_add (StreamFlow i) increment (sc_flow sc)
                   in if \<not> ok then Inr (Some (streamError i ErrCodeFlowControl), sc)
                      else bindE (schedule env (sc\<lparr>sc_flow := fs\<rparr>)) (\<lambda>sc1. Inr (None, sc1))
      else let (ok, fs) = flow_add ConnFlow increment (sc_flow sc)
           in if \<not> ok then Inr (Some GoAwayFlowError, sc)
              else bindE (schedule env (sc\<lparr>sc_flow := fs\<rparr>)) (\<lambda>sc1. Inr (None, sc1)))"

definition processResetStream :: "'c session_env \<Rightarrow> u32 \<Rightarrow> ErrCode \<Rightarrow> 'c Session \<Rightarrow> 'c handled" where
  "processResetStream env i code sc =
     (let (state, st) = Session_state i sc
      in if state = StateIdle then Inr (Some (ConnectionError ErrCodeProtocol), sc)
         else if st \<noteq> None
         then bindE (closeStream env (schedule env) i (streamError i code) sc) (\<lambda>sc1. Inr (None, sc1))
         else Inr (None, sc))"

definition processGoAway :: "'c session_env \<Rightarrow> 'c Session \<Rightarrow> 'c handled" where
  "processGoAway env sc =
     bindE (startGracefulShutdownInternal env sc) (\<lambda>sc1. Inr (None, sc1\<lparr>sc_pushEnabled := False\<rparr>))"

definition processPriority :: "u32 \<Rightarrow> PriorityParam \<Rightarrow> 'c Session \<Rightarrow> 'c handled" where
  "processPriority i p sc =
     (if sc_inGoAway sc then Inr (None, sc)
      else case checkPriority i p of
             Some err \<Rightarrow> Inr (Some err, sc)
           | None \<Rightarrow> adjust_priority i p sc)"

definition dispatchFrame :: "'c session_env \<Rightarrow> Frame \<Rightarrow> 'c Session \<Rightarrow> 'c handled" where
  "dispatchFrame env f sc =
     (case f of
        SettingsFrame isAck ss \<Rightarrow> processSettings env isAck ss sc
      | MetaHeadersFrame h \<Rightarrow> processHeaders env h sc
      | WindowUpdateFrame i n \<Rightarrow> processWindowUpdate env i n sc
      | PingFrame i isAck data \<Rightarrow> processPing env i isAck data sc
      | DataFrame d \<Rightarrow> processData env d sc
      | RSTStreamFrame i code \<Rightarrow> processResetStream env i code sc
      | PriorityFrame i p \<Rightarrow> processPriority i p sc
      | GoAwayFrame _ _ \<Rightarrow> processGoAway env sc
      | PushPromiseFrame _ \<Rightarrow> Inr (Some (ConnectionError ErrCodeProtocol), sc)
      | UnknownFrame _ \<Rightarrow> Inr (None, sc))"

definition is_settings :: "Frame \<Rightarrow> bool" where
  "is_settings f = (case f of SettingsFrame _ _ \<Rightarrow> True | _ \<Rightarrow> False)"

definition processFrame :: "'c session_env \<Rightarrow> Frame \<Rightarrow> 'c Session \<Rightarrow> 'c handled" where
  "processFrame env f sc =
     (if \<not> sc_sawFirstSettings sc
      then if \<not> is_settings f then Inr (Some (ConnectionError ErrCodeProtocol), sc)
           else bindE (go_close (sc_sessionReady sc)) (\<lambda>ready.
                  dispatchFrame env f (sc\<lparr>sc_sawFirstSettings := True, sc_sessionReady := ready\<rparr>))
      else dispatchFrame env f sc)"

text \<open>What an error of a handler or of the reader does: the first component is whether the connection is
  to be kept open.\<close>

definition handleError :: "'c session_env \<Rightarrow> go_error \<Rightarrow> 'c Session \<Rightarrow> go_panic + bool \<times> 'c Session" where
  "handleError env err sc =
     (case err of
        StreamError i code \<Rightarrow> bindE (resetStream (schedule env) i code sc) (\<lambda>sc1. Inr (True, sc1))
      | GoAwayFlowError \<Rightarrow> bindE (goAway env ErrCodeFlowControl sc) (\<lambda>sc1. Inr (True, sc1))
      | ConnectionError code \<Rightarrow> bindE (goAway env code sc) (\<lambda>sc1. Inr (True, sc1))
      | _ \<Rightarrow> Inr (False, sc))"

definition processFrameFromReader ::
    "'c session_env \<Rightarrow> readFrameResult \<Rightarrow> 'c Session \<Rightarrow> go_panic + bool \<times> 'c Session" where
  "processFrameFromReader env res sc =
     (case res of
        Inl err \<Rightarrow>
          if err = ErrFrameTooLarge then bindE (goAway env ErrCodeFrameSize sc) (\<lambda>sc1. Inr (True, sc1))
          else if err = IoEOF \<or> err = IoUnexpectedEOF \<or>
            isClosedConnError (se_GOOS env) (se_ErrorText env) (Some err)
          then Inr (False, sc)
          else handleError env err sc
      | Inr f \<Rightarrow>
          bindE (processFrame env f sc) (\<lambda>(err, sc1).
            case err of None \<Rightarrow> Inr (True, sc1) | Some e \<Rightarrow> handleError env e sc1))"

end
