(* ===== verification/SessionServe.thy ===== *)
theory SessionServe
  imports SessionRead
begin

text \<open>
  The serve loop (\<open>serve\<close> of \<open>session.go\<close>) and the methods that other goroutines call (\<open>stream.go\<close> and the
  handler side of \<open>session.go\<close> and \<open>session_write.go\<close>).

  One turn of the loop is one event: the message that \<open>select\<close> took from one of the channels. Which
  message that is is decided by the scheduler and the peer, so a run is over any list of events. A
  method of another goroutine that waits in a \<open>select\<close> is modelled by the list of what it may return
  in the state in which it looks at its channels; it is empty when the method goes on waiting.
\<close>

subsection \<open>The serve loop\<close>

datatype serve_event =
    EvWantWrite FrameWriteRequest
  | EvWroteFrame
  | EvReadFrame readFrameResult
  | EvBodyRead u32 int
  | EvIdleTimer
  | EvShutdownTimer
  | EvGracefulShutdown
  | EvCreateStream u32 header bool

abbreviation keep_open :: "go_panic + 'c Session \<Rightarrow> go_panic + bool \<times> 'c Session" where
  "keep_open r \<equiv> bindE r (\<lambda>sc. Inr (True, sc))"

text \<open>The body of the \<open>select\<close>; \<open>False\<close> is a \<open>return\<close>. A write that no goroutine is doing sends no
  message. The answer of \<open>createStream\<close> goes to the caller of \<open>OpenStream\<close>.\<close>

fun serve_select :: "'c session_env \<Rightarrow> serve_event \<Rightarrow> 'c Session \<Rightarrow> go_panic + bool \<times> 'c Session" where
  "serve_select env (EvWantWrite wr) sc =
     (case wr_write wr of
        Some (WriteStreamError i code) \<Rightarrow> keep_open (resetStream (schedule env) i code sc)
      | _ \<Rightarrow> keep_open (Session_writeFrame (schedule env) wr sc))"
| "serve_select env EvWroteFrame sc = keep_open (writeFrameAsync env sc)"
| "serve_select env (EvReadFrame res) sc = processFrameFromReader env res sc"
| "serve_select env (EvBodyRead i n) sc = keep_open (noteBodyRead env i n sc)"
| "serve_select env EvIdleTimer sc = keep_open (goAway env ErrCodeNo sc)"
| "serve_select env EvShutdownTimer sc = Inr (False, sc)"
| "serve_select env EvGracefulShutdown sc = keep_open (startGracefulShutdownInternal env sc)"
| "serve_select env (EvCreateStream parentID header endStr) sc =
     bindE (createStream env parentID header endStr sc) (\<lambda>(_, sc1). Inr (True, sc1))"

text \<open>After each turn: start the shutdown timer once GOAWAY has been sent.\<close>

definition shutDownIn :: "'c Session \<Rightarrow> 'c Session" where
  "shutDownIn sc = sc\<lparr>sc_shutdownTimer := True\<rparr>"

definition afterTurn :: "'c Session \<Rightarrow> 'c Session" where
  "afterTurn sc =
     (let sentGoAway = (sc_inGoAway sc \<and> \<not> sc_needToSendGoAway sc \<and> \<not> sc_writingFrame sc);
          gracefulShutdownComplete = (sc_goAwayCode sc = ErrCodeNo \<and> curOpenStreams sc = 0)
      in if sentGoAway \<and> \<not> sc_shutdownTimer sc \<and> (sc_goAwayCode sc \<noteq> ErrCodeNo \<or> gracefulShutdownComplete)
         then shutDownIn sc else sc)"

definition serve_step :: "'c session_env \<Rightarrow> serve_event \<Rightarrow> 'c Session \<Rightarrow> go_panic + bool \<times> 'c Session" where
  "serve_step env ev sc =
     bindE (serve_select env ev sc) (\<lambda>(keep, sc1). Inr (keep, if keep then afterTurn sc1 else sc1))"

fun serve_loop :: "'c session_env \<Rightarrow> serve_event list \<Rightarrow> 'c Session \<Rightarrow> go_panic + bool \<times> 'c Session" where
  "serve_loop env [] sc = Inr (True, sc)"
| "serve_loop env (ev # evs) sc =
     bindE (serve_step env ev sc) (\<lambda>(keep, sc1). if keep then serve_loop env evs sc1 else Inr (False, sc1))"

text \<open>The SETTINGS that a session sends first.\<close>

definition firstSettings :: "'c Session \<Rightarrow> setting list" where
  "firstSettings sc =
     [(SettingEnablePush, 0), (SettingMaxConcurrentStreams, sc_advMaxStreams sc),
      (SettingInitialWindowSize, sc_initialStreamRecvWindowSize sc), (SettingMaxFrameSize, sc_maxFrameSize sc)]"

text \<open>The handshake, for what the server read from the connection; \<open>False\<close> is a \<open>return\<close>.\<close>

definition greet :: "'c session_env \<Rightarrow> go_error + byte list \<Rightarrow> 'c Session \<Rightarrow> bool \<times> 'c Session" where
  "greet env greeting sc =
     (let (ok, sc1) =
        (if sc_server sc then (readPreface (se_ClientPreface env) greeting = None, sc)
         else let (err, c) = se_bwWrite env (se_ClientPreface env) (sc_wire sc)
              in (err = None, sc\<lparr>sc_wire := c\<rparr>))
      in if \<not> ok then (False, sc1)
         else let (err, c) = ctx_Flush (se_ctx env) (sc_wire sc1)
              in (err = None, sc1\<lparr>sc_wire := c\<rparr>))"

definition announce :: "'c session_env \<Rightarrow> 'c scheduling" where
  "announce env sc =
     bindE (Session_writeFrame (schedule env) (request (WriteSettings (firstSettings sc)) None) sc) (\<lambda>sc1.
       let sc2 = sc1\<lparr>sc_unackedSettings := sc_unackedSettings sc1 + 1\<rparr>;
           diff = available (sc_inflow sc2) ConnFlow - defaultWindowSize
       in if 0 <s diff then sendWindowUpdate (schedule env) None (sint diff) sc2 else Inr sc2)"

definition serve_start :: "'c session_env \<Rightarrow> go_error + byte list \<Rightarrow> 'c Session \<Rightarrow> go_panic + bool \<times> 'c Session" where
  "serve_start env greeting sc =
     (case greet env greeting sc of
        (False, sc1) \<Rightarrow> Inr (False, sc1)
      | (True, sc1) \<Rightarrow> keep_open (announce env sc1))"

text \<open>The deferred calls, last first.\<close>

definition stopShutdownTimer :: "'c Session \<Rightarrow> 'c Session" where
  "stopShutdownTimer sc = sc"

definition serve_end :: "'c session_env \<Rightarrow> 'c scheduling" where
  "serve_end env sc =
     bindE (go_close (sc_doneServing sc)) (\<lambda>ch.
       closeAllStreamsOnConnClose env (stopShutdownTimer (sc\<lparr>sc_doneServing := ch\<rparr>)))"

text \<open>\<open>Serve\<close> over a list of events: the first component is whether the loop is still running.\<close>

definition Serve ::
    "'c session_env \<Rightarrow> bool \<Rightarrow> go_error + byte list \<Rightarrow> serve_event list \<Rightarrow> 'c Session \<Rightarrow> go_panic + bool \<times> 'c Session" where
  "Serve env handler greeting evs sc =
     bindE (serve_start env greeting (sc\<lparr>sc_handler := handler\<rparr>)) (\<lambda>(ok, sc1).
     bindE (if ok then serve_loop env evs sc1 else Inr (False, sc1)) (\<lambda>(keep, sc2).
       if keep then Inr (True, sc2) else bindE (serve_end env sc2) (\<lambda>sc3. Inr (False, sc3))))"

subsection \<open>Other goroutines\<close>

text \<open>\<open>writeFrameFromHandler\<close>: the request goes to the serve loop when the channel takes it, and the
  method may give up when the loop has ended.\<close>

definition writeFrameFromHandler ::
    "bool \<Rightarrow> FrameWriteRequest \<Rightarrow> 'c Session \<Rightarrow> (go_error + FrameWriteRequest) list" where
  "writeFrameFromHandler room wr sc =
     (if room then [Inr wr] else []) @ (if sc_doneServing sc = ChanClosed then [Inl errDisconnected] else [])"

definition dataRequest :: "u32 \<Rightarrow> byte list \<Rightarrow> bool \<Rightarrow> nat \<Rightarrow> FrameWriteRequest" where
  "dataRequest i data endStr ch =
     \<lparr>wr_write = Some (WriteData i data endStr), wr_stream = Some i, wr_done = Some ch\<rparr>"

text \<open>What \<open>writeDataFromHandler\<close> may return once its request has been sent.\<close>

definition writeDataFromHandler :: "u32 \<Rightarrow> nat \<Rightarrow> 'c Session \<Rightarrow> go_error option list" where
  "writeDataFromHandler i ch sc =
     (case sc_chans sc ch of Some err \<Rightarrow> [err] | None \<Rightarrow> []) @
     (if sc_doneServing sc = ChanClosed then [Some errDisconnected] else []) @
     (if st_cw (sc_objs sc i) = ChanClosed
      then [case sc_chans sc ch of Some err \<Rightarrow> err | None \<Rightarrow> Some errStreamClosed] else [])"

text \<open>\<open>Write\<close> and \<open>CloseWrite\<close> are \<open>WriteData\<close>: the request, and the number of bytes \<open>Write\<close> returns.\<close>

definition WriteData_request :: "u32 \<Rightarrow> byte list \<Rightarrow> bool \<Rightarrow> nat \<Rightarrow> FrameWriteRequest" where
  "WriteData_request i data endStr ch = dataRequest i data endStr ch"

definition stream_Write :: "byte list \<Rightarrow> go_error option \<Rightarrow> nat \<times> go_error option" where
  "stream_Write data err = (if err = None then length data else 0, err)"

definition CloseWrite :: "u32 \<Rightarrow> nat \<Rightarrow> FrameWriteRequest" where
  "CloseWrite i ch = WriteData_request i [] True ch"

text \<open>\<open>writeHeaders\<close> asks for an answer when there is a header map. What it may return after that.\<close>

definition writeHeaders :: "u32 \<Rightarrow> writeResHeaders \<Rightarrow> nat \<Rightarrow> FrameWriteRequest" where
  "writeHeaders i headerData ch =
     \<lparr>wr_write = Some (WriteResHeaders headerData), wr_stream = Some i,
      wr_done = (if rh_h headerData \<noteq> [] then Some ch else None)\<rparr>"

definition writeHeadersResults :: "u32 \<Rightarrow> nat option \<Rightarrow> 'c Session \<Rightarrow> go_error option list" where
  "writeHeadersResults i errc sc =
     (case errc of
        None \<Rightarrow> [None]
      | Some ch \<Rightarrow>
          (case sc_chans sc ch of Some err \<Rightarrow> [err] | None \<Rightarrow> []) @
          (if sc_doneServing sc = ChanClosed then [Some errDisconnected] else []) @
          (if st_cw (sc_objs sc i) = ChanClosed then [Some errStreamClosed] else []))"

text \<open>\<open>Reply\<close>: the error it returns at once, or the request it sends.\<close>

definition Reply ::
    "u32 \<Rightarrow> header \<Rightarrow> bool \<Rightarrow> nat \<Rightarrow> 'c Session \<Rightarrow> go_panic + (go_error + FrameWriteRequest) \<times> 'c Session" where
  "Reply i header endStr ch sc =
     (if isPushed i = sc_server sc then Inl (Panic ''Reply a local created stream'')
      else if st_replied (sc_objs sc i) then Inr (Inl (ErrorString ''stream has already replied''), sc)
      else
        let statusCode = (if header = [] then 200 else 0)
        in bindE (go_close (st_readyCh (sc_objs sc i))) (\<lambda>ready.
             Inr (Inr (writeHeaders i (resHeaders i statusCode header endStr) ch),
                  update_stream i (\<lambda>st. st\<lparr>st_replied := True, st_readyCh := ready\<rparr>) sc)))"

definition errTimeout :: go_error where
  "errTimeout = ErrorString ''Timeout occurred''"

definition WaitForReply :: "bool \<Rightarrow> u32 \<Rightarrow> 'c Session \<Rightarrow> go_error option list" where
  "WaitForReply timeout i sc =
     (if st_cw (sc_objs sc i) = ChanClosed then [Some errStreamClosed] else []) @
     (if st_ctxDone (sc_objs sc i) then [Some errStreamClosed] else []) @
     (if timeout then [Some errTimeout] else []) @
     (if st_readyCh (sc_objs sc i) = ChanClosed then [None] else [])"

definition ResetWithError :: "u32 \<Rightarrow> ErrCode \<Rightarrow> 'c Session \<Rightarrow> (go_error + FrameWriteRequest) \<times> 'c Session" where
  "ResetWithError i code sc =
     (if st_state (sc_objs sc i) = StateClosed \<or> st_resetQueued (sc_objs sc i)
      then (Inl (ErrorString ''reset a dead stream''), sc)
      else (Inr (request (WriteStreamError i code) None), update_stream i (st_replied_update (\<lambda>_. True)) sc))"

definition stream_Close :: "u32 \<Rightarrow> 'c Session \<Rightarrow> (go_error + FrameWriteRequest) \<times> 'c Session" where
  "stream_Close i sc = ResetWithError i ErrCodeNo sc"

text \<open>\<open>Read\<close> of a stream: one turn of the loop of \<open>pipe.Read\<close> on its body.\<close>

definition stream_Read ::
    "'c session_env \<Rightarrow> u32 \<Rightarrow> nat \<Rightarrow> 'c Session \<Rightarrow> go_panic + unit read_result option \<times> 'c Session" where
  "stream_Read env i d sc =
     bindE (pipe_Read_pass (body_ops env) d (st_body (sc_objs sc i))) (\<lambda>(r, body).
       Inr (r, update_stream i (st_body_update (\<lambda>_. body)) sc))"

text \<open>The accessors of a stream: the channel that is closed with the stream, whether its context is done, the header
  it was opened with, and the peer's reply.\<close>

definition stream_ClosedChan :: "u32 \<Rightarrow> 'c Session \<Rightarrow> chan_state" where
  "stream_ClosedChan i sc = st_cw (sc_objs sc i)"

definition stream_Context :: "u32 \<Rightarrow> 'c Session \<Rightarrow> bool" where
  "stream_Context i sc = st_ctxDone (sc_objs sc i)"

definition stream_Header :: "u32 \<Rightarrow> 'c Session \<Rightarrow> header option" where
  "stream_Header i sc = st_header (sc_objs sc i)"

definition ReplyHeader :: "u32 \<Rightarrow> 'c Session \<Rightarrow> header option \<times> bool" where
  "ReplyHeader i sc = (st_replyHeader (sc_objs sc i), st_replied (sc_objs sc i))"

definition WaitForReady :: "'c Session \<Rightarrow> go_error option list" where
  "WaitForReady sc =
     (if sc_sessionReady sc = ChanClosed then [None] else []) @
     (if sc_doneServing sc = ChanClosed then [Some errDisconnected] else [])"

text \<open>\<open>OpenStream\<close> of the session: an error at once, or the message it sends to the serve loop.\<close>

definition Session_OpenStream :: "header \<Rightarrow> u32 option \<Rightarrow> bool \<Rightarrow> go_error + serve_event" where
  "Session_OpenStream header parent endStr =
     (if header = [] then Inl (ErrorString ''OpenStream with empty header'')
      else Inr (EvCreateStream (case parent of None \<Rightarrow> 0 | Some i \<Rightarrow> i) header endStr))"

text \<open>What \<open>OpenStream\<close> may return while it waits: the answer of \<open>createStream\<close> when there is one, or that the
  serve loop has ended.\<close>

definition OpenStreamResults :: "(go_error + u32) option \<Rightarrow> 'c Session \<Rightarrow> (go_error + u32) list" where
  "OpenStreamResults answer sc =
     (if sc_doneServing sc = ChanClosed then [Inl errDisconnected] else []) @
     (case answer of None \<Rightarrow> [] | Some r \<Rightarrow> [r])"

text \<open>The messages of the timers and of the graceful shutdown.\<close>

datatype serve_timer = idleTimerMsg | shutdownTimerMsg | gracefulShutdownMsg

definition timerMessage :: "serve_timer \<Rightarrow> serve_event" where
  "timerMessage m =
     (case m of idleTimerMsg \<Rightarrow> EvIdleTimer | shutdownTimerMsg \<Rightarrow> EvShutdownTimer
      | gracefulShutdownMsg \<Rightarrow> EvGracefulShutdown)"

text \<open>\<open>sendServeMsg\<close>: the message goes to the serve loop when the channel takes it, and is dropped when
  the loop has ended.\<close>

definition sendServeMsg :: "bool \<Rightarrow> serve_timer \<Rightarrow> 'c Session \<Rightarrow> serve_event option list" where
  "sendServeMsg room m sc =
     (if room then [Some (timerMessage m)] else []) @ (if sc_doneServing sc = ChanClosed then [None] else [])"

text \<open>\<open>noteBodyReadFromHandler\<close>: the message it sends, if any.\<close>

definition noteBodyReadFromHandler :: "u32 \<Rightarrow> int \<Rightarrow> serve_event option" where
  "noteBodyReadFromHandler i n = (if 0 < n then Some (EvBodyRead i n) else None)"

text \<open>\<open>Close\<close> of the session: nothing, closing the connection, or the message of the graceful shutdown,
  which \<open>shutdownOnce\<close> sends at most once.\<close>

datatype close_action = CloseNothing | CloseConnection | CloseGraceful "serve_event option"

definition StartGracefulShutdown :: "bool \<Rightarrow> serve_event option" where
  "StartGracefulShutdown shutdownOnceDone =
     (if shutdownOnceDone then None else Some (timerMessage gracefulShutdownMsg))"

definition Session_Close :: "bool \<Rightarrow> 'c Session \<Rightarrow> close_action" where
  "Session_Close shutdownOnceDone sc =
     (if sc_doneServing sc = ChanClosed then CloseNothing
      else if \<not> sc_sawFirstSettings sc then CloseConnection
      else CloseGraceful (StartGracefulShutdown shutdownOnceDone))"

text \<open>What \<open>Close\<close> may return while it waits for the graceful shutdown.\<close>

definition SessionCloseResults :: "bool \<Rightarrow> 'c Session \<Rightarrow> go_error option list" where
  "SessionCloseResults timeout sc =
     (if sc_doneServing sc = ChanClosed then [None] else []) @
     (if timeout then [Some (ErrorString ''shutdown timeout'')] else [])"

end
