(* ===== verification/SessionInv.thy ===== *)
theory SessionInv
  imports SessionServe
begin

text \<open>
  The invariant of a session and the proof that its write path keeps it. \<open>session_inv\<close> says that the
  table of streams, the two counters and the two highest identifiers agree with the states of the
  stream objects, that the write flags tell whether a goroutine is writing, that the channels are
  closed in the right states, and that the scheduler and the bodies are well formed.

  The operations of the write path are verified once against the contract \<open>frame_scheduler\<close> of the
  \<open>scheduleFrameWrite\<close> they call, which both levels of \<open>scheduleFrameWrite\<close> fulfil. The contract also bounds
  the frames that are still to be written, which shows that the schedule loop ends.
\<close>

subsection \<open>Outcomes\<close>

text \<open>The panics of which the lemmas show that they never happen: a second frame while one is being
  written, the result of a write that was not started, a window update of negative size, closing a
  channel twice, an index out of range, and a loop without end.\<close>

definition protocol_panics :: "string set" where
  "protocol_panics =
     {''internal error: can only be writing one frame at a time'',
      ''internal error: expected to be already writing a frame'', ''negative update''}"

definition may_panic :: "go_panic \<Rightarrow> bool" where
  "may_panic e \<longleftrightarrow> e = NilDereference \<or> (\<exists>m. e = Panic m \<and> m \<notin> protocol_panics)"

definition safely :: "('a \<Rightarrow> bool) \<Rightarrow> go_panic + 'a \<Rightarrow> bool" where
  "safely Q r = (case r of Inl e \<Rightarrow> may_panic e | Inr x \<Rightarrow> Q x)"

lemma safely_Inr [simp]: "safely Q (Inr x) = Q x"
  by (simp add: safely_def)

lemma safely_Inl [simp]: "safely Q (Inl e) = may_panic e"
  by (simp add: safely_def)

lemma safely_bindE [simp]: "safely Q (bindE m f) = safely (\<lambda>x. safely Q (f x)) m"
  by (cases m) simp_all

lemma safely_mono: "safely P r \<Longrightarrow> (\<And>x. P x \<Longrightarrow> Q x) \<Longrightarrow> safely Q r"
  by (cases r) simp_all

lemma may_panic_simps [simp]:
  "may_panic NilDereference" "\<not> may_panic OutOfFuel" "\<not> may_panic CloseOfClosedChannel"
  "\<not> may_panic IndexOutOfRange" "may_panic (Panic m) \<longleftrightarrow> m \<notin> protocol_panics"
  by (simp_all add: may_panic_def)

lemma protocol_panics_simps [simp]: "m \<in> protocol_panics \<longleftrightarrow>
    m = ''internal error: can only be writing one frame at a time'' \<or>
    m = ''internal error: expected to be already writing a frame'' \<or> m = ''negative update''"
  by (simp add: protocol_panics_def)

subsection \<open>What the environment guarantees\<close>

definition env_ok :: "'c session_env \<Rightarrow> bool" where
  "env_ok env \<longleftrightarrow> sort_ok (se_sort env) \<and> chunk_pool (se_chunks env) \<and>
     (\<forall>l. mset (se_range env l) = mset l) \<and>
     (\<forall>v. se_Valid env (SettingMaxFrameSize, v) = None \<longrightarrow> 0 < sint v)"

subsection \<open>The invariant\<close>

definition live :: "streamState \<Rightarrow> bool" where
  "live st \<longleftrightarrow> st = StateOpen \<or> st = StateHalfClosedLocal \<or> st = StateHalfClosedRemote"

lemma live_simps [simp]:
  "live StateOpen" "live StateHalfClosedLocal" "live StateHalfClosedRemote" "\<not> live StateIdle" "\<not> live StateClosed"
  by (simp_all add: live_def)

definition highest :: "u32 \<Rightarrow> u32 \<Rightarrow> u32 \<Rightarrow> u32" where
  "highest i push client = (if isPushed i then push else client)"

abbreviation maxID :: "u32 \<Rightarrow> 'c Session \<Rightarrow> u32" where
  "maxID i sc \<equiv> highest i (sc_maxPushPromiseID sc) (sc_maxClientStreamID sc)"

abbreviation state_of :: "'c Session \<Rightarrow> u32 \<Rightarrow> streamState" where
  "state_of sc i \<equiv> st_state (sc_objs sc i)"

definition table_ok :: "'c Session \<Rightarrow> bool" where
  "table_ok sc \<longleftrightarrow> distinct (sc_streams sc) \<and>
     (\<forall>i. i \<in> set (sc_streams sc) \<longleftrightarrow> live (state_of sc i)) \<and>
     (\<forall>i. state_of sc i \<noteq> StateIdle \<longrightarrow> i \<noteq> 0 \<and> i \<le> maxID i sc) \<and>
     sc_curClientStreams sc = of_nat (length (filter (\<lambda>i. \<not> isPushed i) (sc_streams sc))) \<and>
     sc_curPushedStreams sc = of_nat (length (filter isPushed (sc_streams sc)))"

definition stream_chans_ok :: "stream \<Rightarrow> bool" where
  "stream_chans_ok st \<longleftrightarrow> (st_cw st = ChanClosed \<longrightarrow> st_state st = StateClosed) \<and>
     (st_readyCh st = ChanClosed \<longrightarrow> st_replied st) \<and> pipe_inv db_inv (st_body st)"

definition streams_ok :: "'c Session \<Rightarrow> bool" where
  "streams_ok sc \<longleftrightarrow> (\<forall>i. stream_chans_ok (sc_objs sc i)) \<and>
     (sc_sessionReady sc = ChanClosed \<longrightarrow> sc_sawFirstSettings sc)"

definition writing_ok :: "'c Session \<Rightarrow> bool" where
  "writing_ok sc \<longleftrightarrow> sc_writingFrame sc = sc_writingFrameAsync sc \<and>
     sc_writingFrameAsync sc = (sc_async sc \<noteq> None)"

definition queues_ok :: "'c Session \<Rightarrow> bool" where
  "queues_ok sc \<longleftrightarrow> run_inv (sc_writeSched sc, sc_flow sc) \<and> 0 < sint (sc_maxFrameSize sc)"

text \<open>The identifiers that this side gives out: below \<open>2^31\<close>, even for a server, odd for a client.\<close>

definition ids_ok :: "'c Session \<Rightarrow> bool" where
  "ids_ok sc \<longleftrightarrow>
     (sc_server sc \<longrightarrow> sc_maxPushPromiseID sc < 2147483648 \<and> isPushed (sc_maxPushPromiseID sc)) \<and>
     (\<not> sc_server sc \<longrightarrow> sc_maxClientStreamID sc < 2147483648 \<and>
        (sc_maxClientStreamID sc = 0 \<or> \<not> isPushed (sc_maxClientStreamID sc)))"

definition session_inv :: "'c Session \<Rightarrow> bool" where
  "session_inv sc \<longleftrightarrow> table_ok sc \<and> streams_ok sc \<and> writing_ok sc \<and> queues_ok sc \<and> ids_ok sc"

text \<open>The frames still to be written: what is queued, and for each stream the RST_STREAM and the
  window updates that its end can add.\<close>

definition body_len :: "stream \<Rightarrow> nat" where
  "body_len st = nat (case p_b (st_body st) of None \<Rightarrow> 0 | Some b \<Rightarrow> db_size b)"

definition end_frames :: "stream \<Rightarrow> nat" where
  "end_frames st = (if st_state st = StateOpen then 1 else 0) + 1 + body_len st"

definition to_write :: "'c Session \<Rightarrow> nat" where
  "to_write sc = size (queued (sc_writeSched sc)) + (\<Sum>i \<in> set (sc_streams sc). end_frames (sc_objs sc i))"

text \<open>What the write path leaves alone: the fields other than the ones it is for, and the objects of
  streams that are not alive.\<close>

definition config :: "'c Session \<Rightarrow> _" where
  "config sc = (sc_server sc, sc_doneServing sc, sc_handler sc, sc_handled sc, sc_sessionReady sc,
     sc_maxClientStreamID sc, sc_maxPushPromiseID sc, sc_sawFirstSettings sc, sc_unackedSettings sc,
     (sc_initialStreamSendWindowSize sc, sc_initialStreamRecvWindowSize sc, sc_headerTableSize sc,
      sc_peerMaxHeaderListSize sc, sc_pushEnabled sc, sc_advMaxStreams sc, sc_peerMaxStreams sc, sc_maxFrameSize sc),
     sc_inGoAway sc, sc_goAwayCode sc, sc_shutdownTimer sc, sc_idleTimeout sc, sc_idleTimer sc,
     sc_inFrameScheduleLoop sc)"

definition settled :: "stream \<Rightarrow> (streamState \<times> chan_state \<times> (dataBuffer, unit) pipe) option" where
  "settled st = (if live (st_state st) then None else Some (st_state st, st_cw st, st_body st))"

definition stays :: "'c Session \<Rightarrow> 'c Session \<Rightarrow> bool" where
  "stays sc sc' \<longleftrightarrow> config sc' = config sc \<and> set (sc_streams sc') \<subseteq> set (sc_streams sc) \<and>
     (\<forall>i x. settled (sc_objs sc i) = Some x \<longrightarrow> settled (sc_objs sc' i) = Some x) \<and>
     (sc_needToSendGoAway sc' \<longrightarrow> sc_needToSendGoAway sc) \<and>
     (sc_needToSendSettingsAck sc' \<longrightarrow> sc_needToSendSettingsAck sc)"

definition keeps :: "nat \<Rightarrow> 'c Session \<Rightarrow> 'c Session \<Rightarrow> bool" where
  "keeps k sc sc' \<longleftrightarrow> session_inv sc' \<and> stays sc sc' \<and> to_write sc' \<le> to_write sc + k"

lemma stays_refl [simp]: "stays sc sc"
  by (simp add: stays_def)

lemma stays_trans: "stays s1 s2 \<Longrightarrow> stays s2 s3 \<Longrightarrow> stays s1 s3"
  unfolding stays_def by (intro conjI) (simp, blast, blast, blast, blast)

lemma keeps_refl [simp]: "keeps k sc sc \<longleftrightarrow> session_inv sc"
  by (simp add: keeps_def)

lemma keeps_trans: "keeps j s1 s2 \<Longrightarrow> keeps k s2 s3 \<Longrightarrow> j + k \<le> l \<Longrightarrow> keeps l s1 s3"
  using stays_trans by (fastforce simp: keeps_def)

lemma keepsD: "keeps k sc sc' \<Longrightarrow> session_inv sc'" "keeps k sc sc' \<Longrightarrow> stays sc sc'"
  by (simp_all add: keeps_def)

lemma keeps_loop: "keeps k sc sc' \<Longrightarrow> sc_inFrameScheduleLoop sc' = sc_inFrameScheduleLoop sc"
  by (simp add: keeps_def stays_def config_def)

lemma keeps_mono: "keeps j s1 s2 \<Longrightarrow> j \<le> k \<Longrightarrow> keeps k s1 s2"
  by (simp add: keeps_def)

text \<open>Running an operation after another.\<close>

lemma keeps_bind:
  assumes "safely (keeps j sc) m" "\<And>sc1. keeps j sc sc1 \<Longrightarrow> safely (keeps k sc1) (f sc1)" "j + k \<le> l"
  shows "safely (keeps l sc) (bindE m f)"
  using assms(1) unfolding safely_bindE
proof (rule safely_mono)
  fix sc1 assume 1: "keeps j sc sc1"
  show "safely (keeps l sc) (f sc1)"
    using assms(2) [OF 1] by (rule safely_mono) (rule keeps_trans [OF 1 _ assms(3)])
qed

lemma keeps_then: "keeps j sc sc1 \<Longrightarrow> safely (keeps k sc1) m \<Longrightarrow> j + k \<le> l \<Longrightarrow> safely (keeps l sc) m"
  using keeps_bind [of j sc "Inr sc1" k "\<lambda>_. m" l] by (cases m) (auto intro: keeps_trans)

subsection \<open>The scheduler's operations\<close>

lemma queued_atoms_size: "queued_atoms ws = size (queued ws)"
proof -
  have "size (queued ws) = (\<Sum>a < ws_fresh ws. length (queue_atoms (n_q (ws_heap ws a))))"
    by (simp add: queued_def size_multiset_sum)
  then show ?thesis
    by (simp add: queued_atoms_def sum_list_distinct_conv_sum_set atLeast0LessThan)
qed

lemma run_inv_ws: "run_inv (ws, fs) \<Longrightarrow> ws_inv ws"
  by (simp add: run_inv_def pop_inv_def)

lemma Push_safely:
  assumes "run_inv (ws, fs)" "request_ok wr"
  shows "safely (\<lambda>ws'. run_inv (ws', fs) \<and> size (queued ws') = size (queued ws) + length (atoms wr)) (Push wr ws)"
proof (cases "StreamID wr = 0 \<or> ws_nodes ws (StreamID wr) \<noteq> None \<or> DataSize wr = 0")
  case True
  obtain ws' where p: "Push wr ws = Inr ws'" "ws_inv ws'"
    using Push_ok [OF run_inv_ws [OF assms(1)] assms(2) True] .
  then show ?thesis
    using Push_queued(1) [OF run_inv_ws [OF assms(1)] p(1)] run_inv_ops [OF assms(1) p(2)] throttle_unchanged(3) [OF p(1)]
    by simp
next
  case False
  then show ?thesis by (simp add: Push_def)
qed

lemma OpenStream_safely:
  assumes "run_inv (ws, fs)"
  shows "safely (\<lambda>ws'. run_inv (ws', fs)) (OpenStream i p ws)"
proof (cases "\<forall>a. ws_nodes ws i = Some a \<longrightarrow> n_state (ws_heap ws a) = PriorityNodeIdle")
  case True
  then obtain ws' where p: "OpenStream i p ws = Inr ws'" "ws_inv ws'"
    using OpenStream_ok [OF run_inv_ws [OF assms]] by metis
  then show ?thesis using run_inv_ops [OF assms p(2)] throttle_unchanged(1) [OF p(1)] by simp
next
  case False
  then show ?thesis by (auto simp: OpenStream_def)
qed

lemma AdjustStream_safely:
  assumes "run_inv (ws, fs)"
  shows "safely (\<lambda>ws'. run_inv (ws', fs)) (AdjustStream i p ws)"
proof (cases "i = 0")
  case False
  then obtain ws' where p: "AdjustStream i p ws = Inr ws'" "ws_inv ws'"
    using AdjustStream_ok [OF run_inv_ws [OF assms]] by metis
  then show ?thesis using run_inv_ops [OF assms p(2)] throttle_unchanged_Adjust(2) [OF p(1)] by simp
qed (simp add: AdjustStream_def)

lemma CloseStream_safely:
  assumes "run_inv (ws, fs)"
  shows "safely (\<lambda>ws'. run_inv (ws', fs) \<and> size (queued ws') \<le> size (queued ws)) (CloseStream i ws)"
proof (cases "i \<noteq> 0 \<and> (\<exists>a. ws_nodes ws i = Some a \<and> n_state (ws_heap ws a) = PriorityNodeOpen)")
  case True
  then obtain a where a: "i \<noteq> 0" "ws_nodes ws i = Some a" "n_state (ws_heap ws a) = PriorityNodeOpen" by blast
  obtain ws' where p: "CloseStream i ws = Inr ws'" "ws_inv ws'" "ws_fresh ws' = ws_fresh ws"
      "\<And>x. n_q (ws_heap ws' x) = (if x = a then [] else n_q (ws_heap ws x))"
    using CloseStream_ok [OF run_inv_ws [OF assms] a] by metis
  have "a < ws_fresh ws" using a(2) run_inv_ws [OF assms] refs_okD(2) by (auto simp: ws_inv_def)
  from queued_change [OF this p(3)] p(4)
  have "queued ws = queued ws' + mset (queue_atoms (n_q (ws_heap ws a)))" by simp
  then show ?thesis
    using p(1) run_inv_ops [OF assms p(2)] throttle_unchanged_Close [OF p(1)] by simp
next
  case False
  then show ?thesis by (auto simp: CloseStream_def split: option.splits)
qed

lemma atoms_ne: "atoms wr \<noteq> []"
  by (auto simp: atoms_def split: option.splits writeFramer.splits)

lemma Pop_safely:
  assumes "run_inv (ws, fs)" "sort_ok srt" "0 < sint mfs"
  shows "safely (\<lambda>((wr, ok), ws', fs'). run_inv (ws', fs') \<and>
    size (queued ws') + (if ok then 1 else 0) \<le> size (queued ws)) (Pop srt mfs ws fs)"
proof -
  obtain wr ok ws' fs' where p: "Pop srt mfs ws fs = Inr ((wr, ok), ws', fs')" "run_inv (ws', fs')"
      "queued ws = (if ok then mset (atoms wr) else {#}) + queued ws'"
    using Pop_queued [OF assms] .
  have "size (mset (atoms wr)) \<ge> 1" using atoms_ne [of wr] by (simp add: Suc_le_eq)
  then show ?thesis using p by simp
qed

subsection \<open>Small steps of the session\<close>

lemmas session_defs = session_inv_def table_ok_def streams_ok_def writing_ok_def queues_ok_def ids_ok_def

lemmas keeps_defs = keeps_def stays_def config_def session_defs

lemma update_stream_simps [simp]:
  "sc_objs (update_stream i f sc) = (sc_objs sc)(i := f (sc_objs sc i))"
  "sc_streams (update_stream i f sc) = sc_streams sc"
  "sc_writeSched (update_stream i f sc) = sc_writeSched sc"
  "sc_inFrameScheduleLoop (update_stream i f sc) = sc_inFrameScheduleLoop sc"
  "sc_writingFrame (update_stream i f sc) = sc_writingFrame sc"
  "sc_chans (update_stream i f sc) = sc_chans sc"
  "sc_inflow (update_stream i f sc) = sc_inflow sc"
  by (simp_all add: update_stream_def)

text \<open>What the invariant reads of a stream.\<close>

definition core :: "stream \<Rightarrow> _" where
  "core st = (st_state st, st_cw st, st_body st, st_readyCh st, st_replied st)"

lemma core_cong:
  assumes "core st' = core st"
  shows "st_state st' = st_state st" "stream_chans_ok st' = stream_chans_ok st" "settled st' = settled st"
    "end_frames st' = end_frames st"
  using assms by (auto simp: core_def stream_chans_ok_def settled_def end_frames_def body_len_def)

lemma table_ok_cong:
  assumes "table_ok sc" "\<And>i. state_of sc' i = state_of sc i" "sc_streams sc' = sc_streams sc"
    "sc_maxPushPromiseID sc' = sc_maxPushPromiseID sc" "sc_maxClientStreamID sc' = sc_maxClientStreamID sc"
    "sc_curClientStreams sc' = sc_curClientStreams sc" "sc_curPushedStreams sc' = sc_curPushedStreams sc"
  shows "table_ok sc'"
  using assms by (auto simp: table_ok_def)

lemma keeps_update:
  assumes "session_inv sc" "core (f (sc_objs sc i)) = core (sc_objs sc i)"
  shows "keeps k sc (update_stream i f sc)"
proof -
  define objs where "objs = sc_objs (update_stream i f sc)"
  have c: "st_state (objs j) = state_of sc j" "stream_chans_ok (objs j) = stream_chans_ok (sc_objs sc j)"
    "settled (objs j) = settled (sc_objs sc j)" "end_frames (objs j) = end_frames (sc_objs sc j)" for j
    using core_cong [OF assms(2)] by (simp_all add: objs_def)
  have u: "update_stream i f sc = sc\<lparr>sc_objs := objs\<rparr>" by (simp add: update_stream_def objs_def)
  show ?thesis using assms(1) unfolding u by (simp add: keeps_defs to_write_def c)
qed

text \<open>Fields that the invariant does not read.\<close>

lemma keeps_fields:
  assumes "session_inv sc"
  shows "keeps k sc (sc\<lparr>sc_chans := c\<rparr>)" "keeps k sc (sc\<lparr>sc_inflow := f\<rparr>)" "keeps k sc (sc\<lparr>sc_wire := w\<rparr>)"
    "keeps k sc (sc\<lparr>sc_needsFrameFlush := b\<rparr>)"
  using assms by (simp_all add: keeps_defs to_write_def)

lemma keeps_sched:
  assumes "session_inv sc" "run_inv (ws, sc_flow sc)" "size (queued ws) \<le> size (queued (sc_writeSched sc)) + k"
  shows "keeps k sc (sc\<lparr>sc_writeSched := ws\<rparr>)"
  using assms by (simp add: keeps_defs to_write_def)

lemma session_invD:
  assumes "session_inv sc"
  shows "run_inv (sc_writeSched sc, sc_flow sc)" "0 < sint (sc_maxFrameSize sc)" "distinct (sc_streams sc)"
    "i \<in> set (sc_streams sc) \<longleftrightarrow> live (state_of sc i)" "stream_chans_ok (sc_objs sc i)"
    "sc_writingFrame sc = sc_writingFrameAsync sc" "sc_writingFrameAsync sc = (sc_async sc \<noteq> None)"
    "state_of sc i \<noteq> StateIdle \<Longrightarrow> i \<noteq> 0 \<and> i \<le> maxID i sc"
  using assms by (auto simp: session_defs)

lemma noteHeaders_keeps:
  assumes "session_inv sc"
  shows "safely (\<lambda>(ign, sc'). keeps 0 sc sc') (noteHeaders wr b sc)"
  using assms unfolding noteHeaders_def
  by (auto split: option.splits writeFramer.splits intro!: keeps_update simp: core_def)

lemma body_Len: "nat (pipe_Len (body_ops env) (st_body st)) = body_len st"
  by (simp add: pipe_Len_def body_len_def dataBuffer_ops_def dataBuffer_Len_def split: option.splits)

lemma body_Len_nonneg: "stream_chans_ok st \<Longrightarrow> 0 \<le> pipe_Len (body_ops env) (st_body st)"
  by (auto simp: stream_chans_ok_def pipe_inv_def pipe_Len_def dataBuffer_ops_def dataBuffer_Len_def db_inv_def
      split: option.splits)

text \<open>Taking a stream out of the table.\<close>

lemma of_nat_filter_remove:
  assumes "distinct xs" "i \<in> set xs"
  shows "(of_nat (length (filter P (removeAll i xs))) :: u32) = of_nat (length (filter P xs)) - (if P i then 1 else 0)"
proof -
  have "filter P (removeAll i xs) = removeAll i (filter P xs)" by (induction xs) auto
  moreover have "length (removeAll i (filter P xs)) = length (filter P xs) - (if P i then 1 else 0)"
    using assms by (simp add: distinct_remove1_removeAll [symmetric] length_remove1)
  moreover have "P i \<Longrightarrow> 1 \<le> length (filter P xs)"
    using assms(2) by (auto simp: Suc_le_eq filter_empty_conv)
  ultimately show ?thesis by (auto simp: of_nat_diff)
qed

lemma dropStream_keeps:
  assumes "session_inv sc" "i \<in> set (sc_streams sc)"
  shows "session_inv (dropStream i sc)" "stays sc (dropStream i sc)"
    "to_write (dropStream i sc) + 1 + body_len (sc_objs sc i) \<le> to_write sc"
proof -
  have d: "dropStream i sc = (update_stream i (st_state_update (\<lambda>_. StateClosed)) sc)
     \<lparr>sc_curPushedStreams := sc_curPushedStreams sc - (if isPushed i then 1 else 0),
      sc_curClientStreams := sc_curClientStreams sc - (if isPushed i then 0 else 1),
      sc_streams := removeAll i (sc_streams sc)\<rparr>"
    by (simp add: dropStream_def Let_def update_stream_def)
  have st: "state_of (dropStream i sc) j = (if j = i then StateClosed else state_of sc j)" for j
    by (simp add: d)
  have "live (state_of sc i)" using session_invD(4) [OF assms(1)] assms(2) by blast
  then have "i \<noteq> 0 \<and> i \<le> maxID i sc" using session_invD(8) [OF assms(1), of i] by (metis live_simps(4))
  then have "table_ok (dropStream i sc)"
    using assms of_nat_filter_remove [OF session_invD(3) [OF assms(1)] assms(2)]
    unfolding table_ok_def st
    by (auto simp: session_inv_def table_ok_def d update_stream_def distinct_removeAll)
  moreover have "stream_chans_ok (sc_objs (dropStream i sc) j)" for j
    using session_invD(5) [OF assms(1), of j] by (auto simp: d stream_chans_ok_def)
  ultimately show "session_inv (dropStream i sc)"
    using assms(1) by (simp add: session_inv_def streams_ok_def writing_ok_def queues_ok_def ids_ok_def d update_stream_def)
  have "live (state_of sc i)" using session_invD(4) [OF assms(1)] assms(2) by blast
  then show "stays sc (dropStream i sc)"
    by (auto simp: stays_def config_def d update_stream_def settled_def)
  have "(\<Sum>j \<in> set (sc_streams sc). end_frames (sc_objs sc j)) =
      end_frames (sc_objs sc i) + (\<Sum>j \<in> set (sc_streams sc) - {i}. end_frames (sc_objs sc j))"
    using assms(2) by (intro sum.remove) auto
  moreover have "(\<Sum>j \<in> set (sc_streams sc) - {i}. end_frames (sc_objs (dropStream i sc) j)) =
      (\<Sum>j \<in> set (sc_streams sc) - {i}. end_frames (sc_objs sc j))"
    by (intro sum.cong) (auto simp: d)
  moreover have "sc_streams (dropStream i sc) = removeAll i (sc_streams sc)"
    "sc_writeSched (dropStream i sc) = sc_writeSched sc" by (simp_all add: d)
  moreover have "1 + body_len (sc_objs sc i) \<le> end_frames (sc_objs sc i)" by (simp add: end_frames_def)
  ultimately show "to_write (dropStream i sc) + 1 + body_len (sc_objs sc i) \<le> to_write sc"
    by (simp add: to_write_def)
qed

lemma stays_settled:
  assumes "stays sc sc'" "state_of sc i = StateClosed"
  shows "state_of sc' i = StateClosed" "st_cw (sc_objs sc' i) = st_cw (sc_objs sc i)"
    "st_body (sc_objs sc' i) = st_body (sc_objs sc i)"
proof -
  have "settled (sc_objs sc i) = Some (StateClosed, st_cw (sc_objs sc i), st_body (sc_objs sc i))"
    using assms(2) by (simp add: settled_def)
  then have "settled (sc_objs sc' i) = Some (StateClosed, st_cw (sc_objs sc i), st_body (sc_objs sc i))"
    using assms(1) by (simp add: stays_def)
  then show "state_of sc' i = StateClosed" "st_cw (sc_objs sc' i) = st_cw (sc_objs sc i)"
    "st_body (sc_objs sc' i) = st_body (sc_objs sc i)"
    by (auto simp: settled_def split: if_splits)
qed

lemma body_close:
  assumes "pipe_inv db_inv p"
  shows "\<exists>p'. CloseWithError (Some e) p = Inr p' \<and> pipe_inv db_inv p'"
  using byte_queue.close_step [OF fresh_pool.dataBuffer_queue assms, of "pipe_call.CallClose e"] by (auto simp: is_break_def)

text \<open>The last changes to the object of a stream that has been closed.\<close>

lemma closed_update:
  assumes "session_inv sc" "state_of sc i = StateClosed" "st_state (f (sc_objs sc i)) = StateClosed"
    "stream_chans_ok (f (sc_objs sc i))"
  shows "session_inv (update_stream i f sc)" "to_write (update_stream i f sc) = to_write sc"
    "stays s0 sc \<Longrightarrow> live (state_of s0 i) \<Longrightarrow> stays s0 (update_stream i f sc)"
proof -
  have "state_of (update_stream i f sc) j = state_of sc j" for j using assms(2,3) by simp
  from table_ok_cong [OF _ this] have "table_ok (update_stream i f sc)"
    using assms(1) by (simp add: session_inv_def) (simp add: update_stream_def)
  then show "session_inv (update_stream i f sc)"
    using assms(1,4) by (simp add: session_inv_def streams_ok_def writing_ok_def queues_ok_def ids_ok_def update_stream_def)
  have "i \<notin> set (sc_streams sc)" using session_invD(4) [OF assms(1), of i] assms(2) by simp
  then have "(\<Sum>j \<in> set (sc_streams sc). end_frames (sc_objs (update_stream i f sc) j)) =
      (\<Sum>j \<in> set (sc_streams sc). end_frames (sc_objs sc j))"
    by (intro sum.cong) auto
  then show "to_write (update_stream i f sc) = to_write sc" by (simp add: to_write_def)
  show "stays s0 (update_stream i f sc)" if "stays s0 sc" "live (state_of s0 i)"
  proof -
    have "settled (sc_objs s0 i) = None" using that(2) by (simp add: settled_def)
    then show ?thesis using that(1) by (simp add: stays_def config_def) (simp add: update_stream_def)
  qed
qed

text \<open>A stream that has sent its END_STREAM.\<close>

lemma halfClose_keeps:
  assumes "session_inv sc" "state_of sc i = StateOpen"
  defines "sc1 \<equiv> update_stream i (st_state_update (\<lambda>_. StateHalfClosedLocal)) sc"
  shows "session_inv sc1" "stays sc sc1" "to_write sc1 + 1 \<le> to_write sc"
proof -
  have st: "state_of sc1 j = (if j = i then StateHalfClosedLocal else state_of sc j)" for j
    by (simp add: sc1_def)
  have b: "i \<noteq> 0 \<and> i \<le> maxID i sc" using session_invD(8) [OF assms(1), of i] assms(2) by simp
  have u: "sc_streams sc1 = sc_streams sc" "sc_curClientStreams sc1 = sc_curClientStreams sc"
    "sc_curPushedStreams sc1 = sc_curPushedStreams sc" "maxID j sc1 = maxID j sc" for j
    by (simp_all add: sc1_def update_stream_def)
  have "table_ok sc1"
    using assms(1,2) b unfolding table_ok_def u st session_inv_def by auto
  moreover have "stream_chans_ok (sc_objs sc1 j)" for j
    using session_invD(5) [OF assms(1), of j] assms(2) by (auto simp: sc1_def stream_chans_ok_def)
  ultimately show "session_inv sc1"
    using assms(1) by (simp add: session_inv_def streams_ok_def)
      (simp add: writing_ok_def queues_ok_def ids_ok_def sc1_def update_stream_def)
  show "stays sc sc1"
    using assms(2) by (simp add: stays_def config_def sc1_def settled_def) (simp add: update_stream_def)
  have i: "i \<in> set (sc_streams sc)" using session_invD(4) [OF assms(1), of i] assms(2) by simp
  have "(\<Sum>j \<in> set (sc_streams sc) - {i}. end_frames (sc_objs sc1 j)) =
      (\<Sum>j \<in> set (sc_streams sc) - {i}. end_frames (sc_objs sc j))"
    by (intro sum.cong) (auto simp: sc1_def)
  moreover have "end_frames (sc_objs sc1 i) + 1 = end_frames (sc_objs sc i)"
    using assms(2) by (simp add: sc1_def end_frames_def body_len_def)
  moreover have "sc_writeSched sc1 = sc_writeSched sc" by (simp add: sc1_def)
  ultimately show "to_write sc1 + 1 \<le> to_write sc"
    using sum.remove [OF finite_set i, of "\<lambda>j. end_frames (sc_objs sc j)"]
      sum.remove [OF finite_set i, of "\<lambda>j. end_frames (sc_objs sc1 j)"] u(1)
    by (simp add: to_write_def)
qed

lemma reply_writer_keeps:
  assumes "session_inv sc"
  shows "safely (keeps 0 sc) (reply_writer wr err sc)"
  using keeps_fields(1) [OF assms] assms
  by (simp add: reply_writer_def replyToWriter_def split: option.split)

text \<open>The flags around a write.\<close>

lemma keeps_idle_flags:
  assumes "session_inv (sc\<lparr>sc_writingFrame := False, sc_writingFrameAsync := False\<rparr>)"
  shows "sc_async sc = None"
  using assms by (simp add: session_inv_def writing_ok_def)

lemma writeFrame_may_panic:
  "writeFrame henv ctx w c = Inl e \<Longrightarrow> may_panic e"
  by (cases w) (auto simp: resHeaders_writeFrame_def pushPromise_writeFrame_def Let_def split: if_splits prod.splits)

text \<open>A bound on the turns of the schedule loop that write a frame.\<close>

definition loop_turns :: "'c Session \<Rightarrow> nat" where
  "loop_turns sc = to_write sc + of_bool (sc_needToSendGoAway sc) + of_bool (sc_needToSendSettingsAck sc)"

lemma loop_turns_keeps: "keeps 0 sc sc' \<Longrightarrow> loop_turns sc' \<le> loop_turns sc"
  by (auto simp: loop_turns_def keeps_def stays_def)

lemma nextWrite_keeps:
  assumes env: "env_ok env" and inv: "session_inv sc"
  shows "safely (\<lambda>(nxt, sc1). keeps 0 sc sc1 \<and> sc_writingFrame sc1 = sc_writingFrame sc \<and>
    (case nxt of NextFrame wr \<Rightarrow> loop_turns sc1 < loop_turns sc | _ \<Rightarrow> True)) (nextWrite env sc)"
proof -
  have flags: "keeps 0 sc (sc\<lparr>sc_needToSendGoAway := False\<rparr>)" "keeps 0 sc (sc\<lparr>sc_needToSendSettingsAck := False\<rparr>)"
    using inv by (simp_all add: keeps_defs to_write_def)
  have pop: "keeps 0 sc (sc\<lparr>sc_writeSched := ws, sc_flow := fs\<rparr>) \<and>
      (ok \<longrightarrow> loop_turns (sc\<lparr>sc_writeSched := ws, sc_flow := fs\<rparr>) < loop_turns sc)"
    if "run_inv (ws, fs)" "size (queued ws) + (if ok then 1 else 0) \<le> size (queued (sc_writeSched sc))" for ws fs ok
    using inv that by (auto simp: keeps_defs to_write_def loop_turns_def split: if_splits)
  have "safely (\<lambda>((wr, ok), ws, fs). keeps 0 sc (sc\<lparr>sc_writeSched := ws, sc_flow := fs\<rparr>) \<and>
      (ok \<longrightarrow> loop_turns (sc\<lparr>sc_writeSched := ws, sc_flow := fs\<rparr>) < loop_turns sc))
      (Pop (se_sort env) (sc_maxFrameSize sc) (sc_writeSched sc) (sc_flow sc))"
    using Pop_safely [OF session_invD(1) [OF inv] _ session_invD(2) [OF inv], of "se_sort env"] env pop
    by (auto simp: env_ok_def elim!: safely_mono)
  then show ?thesis
    using flags inv
    by (auto simp: nextWrite_def loop_turns_def to_write_def elim!: safely_mono)
qed

subsection \<open>The contract of \<open>scheduleFrameWrite\<close>\<close>

text \<open>\<open>callable\<close> says where it may be called: everywhere, or only while the schedule loop runs.\<close>

locale frame_scheduler =
  fixes sched :: "'c session_env \<Rightarrow> 'c scheduling" and callable :: "'c Session \<Rightarrow> bool"
  assumes callable_loop:
      "callable sc \<Longrightarrow> sc_inFrameScheduleLoop sc' = sc_inFrameScheduleLoop sc \<Longrightarrow> callable sc'"
    and sched_keeps: "env_ok env \<Longrightarrow> session_inv sc \<Longrightarrow> callable sc \<Longrightarrow> safely (keeps 0 sc) (sched env sc)"
begin

lemma callable_keeps: "callable sc \<Longrightarrow> keeps k sc sc' \<Longrightarrow> callable sc'"
  using callable_loop keeps_loop by metis

lemma writeFrame_keeps:
  assumes env: "env_ok env" and inv: "session_inv sc" "callable sc" and "request_ok wr"
  shows "safely (keeps (length (atoms wr)) sc) (Session_writeFrame (sched env) wr sc)"
proof -
  define b where "b = (StreamID wr \<noteq> 0 \<and> fst (Session_state (StreamID wr) sc) = StateClosed \<and> \<not> is_reset wr)"
  have "safely (\<lambda>sc2. safely (keeps (length (atoms wr)) sc) (sched env sc2))
      (if \<not> ign then bindE (Push wr (sc_writeSched sc1)) (\<lambda>ws. Inr (sc1\<lparr>sc_writeSched := ws\<rparr>)) else Inr sc1)"
    if 1: "keeps 0 sc sc1" for ign sc1
  proof -
    have call: "callable sc2" if "keeps k sc1 sc2" for k sc2
      using callable_keeps [OF callable_keeps [OF inv(2) 1] that] .
    have run: "safely (keeps (length (atoms wr)) sc) (sched env sc2)" if 2: "keeps (length (atoms wr)) sc1 sc2" for sc2
      using keeps_trans [OF 1 2 order_refl] sched_keeps [OF env keepsD(1) [OF 2] call [OF 2]]
      by (rule keeps_then) simp
    show ?thesis
    proof (cases ign)
      case True
      then show ?thesis using run [of sc1] keepsD(1) [OF 1] by simp
    next
      case False
      have "safely (\<lambda>ws. keeps (length (atoms wr)) sc1 (sc1\<lparr>sc_writeSched := ws\<rparr>)) (Push wr (sc_writeSched sc1))"
        using Push_safely [OF session_invD(1) [OF keepsD(1) [OF 1]] assms(4)]
        by (rule safely_mono) (auto intro!: keeps_sched keepsD(1) [OF 1])
      then show ?thesis using False run by (auto elim: safely_mono)
    qed
  qed
  then show ?thesis
    using noteHeaders_keeps [OF inv(1), of wr b]
    unfolding Session_writeFrame_def Let_def b_def [symmetric]
    by (auto elim!: safely_mono)
qed

lemma sendWindowUpdate32_keeps:
  assumes "env_ok env" "session_inv sc" "callable sc" "0 \<le> sint n"
  shows "safely (keeps (if n = 0 then 0 else 1) sc) (sendWindowUpdate32 (sched env) st n sc)"
proof (cases "n = 0")
  case False
  let ?wr = "request (WriteWindowUpdate (case st of None \<Rightarrow> 0 | Some i \<Rightarrow> i) n) st"
  have "request_ok ?wr" "length (atoms ?wr) = 1" by (simp_all add: request_ok_def DataSize_def atoms_def)
  with writeFrame_keeps [OF assms(1-3), of ?wr]
  have "safely (keeps 1 sc) (Session_writeFrame (sched env) ?wr sc)" by simp
  then have "safely (keeps 1 sc) (bindE (Session_writeFrame (sched env) ?wr sc) (\<lambda>sc1.
      let (ok, inflow) = flow_add (flow_of st) n (sc_inflow sc1)
      in if \<not> ok then Inl (Panic ''internal error; sent too many window updates without decrements?'')
         else Inr (sc1\<lparr>sc_inflow := inflow\<rparr>)))"
    by (rule keeps_bind [where k = 0]) (auto simp: Let_def split: prod.split intro!: keeps_fields dest: keepsD(1))
  then show ?thesis
    using False assms(4) by (simp add: sendWindowUpdate32_def go_simps Let_def del: safely_bindE)
qed (use assms in \<open>simp add: sendWindowUpdate32_def\<close>)

lemma sendWindowUpdate_keeps:
  assumes "env_ok env" "session_inv sc" "callable sc" "0 \<le> n"
  shows "safely (keeps (nat n) sc) (sendWindowUpdate (sched env) st n sc)"
  using assms
proof (induction "nat n" arbitrary: n sc rule: less_induct)
  case less
  show ?case
  proof (cases "n \<ge> maxUint31")
    case True
    let ?m = "word_of_int maxUint31"
    have "safely (keeps 1 sc) (sendWindowUpdate32 (sched env) st ?m sc)"
      using sendWindowUpdate32_keeps [OF less.prems(1-3), of ?m st] by (simp add: maxUint31_def)
    moreover have "safely (keeps (nat (n - maxUint31)) sc1) (sendWindowUpdate (sched env) st (n - maxUint31) sc1)"
      if "keeps 1 sc sc1" for sc1
      using less.hyps [of "n - maxUint31" sc1] less.prems(1) keepsD(1) [OF that] callable_keeps [OF less.prems(3) that] True
      by (simp add: maxUint31_def)
    ultimately have "safely (keeps (nat n) sc)
        (bindE (sendWindowUpdate32 (sched env) st ?m sc) (sendWindowUpdate (sched env) st (n - maxUint31)))"
      by (rule keeps_bind) (use True in \<open>simp_all add: maxUint31_def\<close>)
    then show ?thesis using True by (subst sendWindowUpdate.simps) (simp del: safely_bindE)
  next
    case False
    then have "sint (word_of_int n :: i32) = n"
      using less.prems(4) by (simp add: maxUint31_def signed_of_int signed32_eq_self)
    then have "safely (keeps (if (word_of_int n :: i32) = 0 then 0 else 1) sc) (sendWindowUpdate32 (sched env) st (word_of_int n) sc)"
      and "(if (word_of_int n :: i32) = 0 then 0 else 1) \<le> nat n"
      using sendWindowUpdate32_keeps [OF less.prems(1-3), of "word_of_int n" st] less.prems(4)
      by (simp, cases "n = 0") auto
    then show ?thesis using False by (subst sendWindowUpdate.simps) (auto elim!: safely_mono intro: keeps_mono)
  qed
qed

lemma resetStream_keeps:
  assumes "env_ok env" "session_inv sc" "callable sc"
  shows "safely (keeps 1 sc) (resetStream (sched env) i code sc)"
proof -
  let ?wr = "request (WriteStreamError i code) None"
  have "request_ok ?wr" "length (atoms ?wr) = 1" by (simp_all add: request_ok_def DataSize_def atoms_def)
  with writeFrame_keeps [OF assms, of ?wr]
  have "safely (keeps 1 sc) (Session_writeFrame (sched env) ?wr sc)" by simp
  moreover have "safely (keeps 0 sc1)
      (Inr (if i \<in> set (sc_streams sc1) then update_stream i (st_resetQueued_update (\<lambda>_. True)) sc1 else sc1))"
    if "keeps 1 sc sc1" for sc1
    using keeps_update [OF keepsD(1) [OF that], of "st_resetQueued_update (\<lambda>_. True)" i] keepsD(1) [OF that] by (simp add: core_def)
  ultimately show ?thesis unfolding resetStream_def by (rule keeps_bind) simp_all
qed

lemma closeStream_keeps:
  assumes env: "env_ok env" and inv: "session_inv sc" and call: "callable sc"
  shows "safely (keeps 0 sc) (closeStream env (sched env) i err sc)"
proof (cases "state_of sc i \<in> {StateIdle, StateClosed}")
  case True
  then show ?thesis by (auto simp: closeStream_def stateName_def)
next
  case False
  then have "live (state_of sc i)" by (cases "state_of sc i") simp_all
  then have i: "i \<in> set (sc_streams sc)" using session_invD(4) [OF inv] by blast
  define sc1 where "sc1 = dropStream i sc"
  define n where "n = pipe_Len (body_ops env) (st_body (sc_objs sc1 i))"
  have d: "session_inv sc1" "stays sc sc1" "to_write sc1 + 1 + body_len (sc_objs sc i) \<le> to_write sc"
    using dropStream_keeps [OF inv i] by (simp_all add: sc1_def)
  have st1: "state_of sc1 i = StateClosed" and "st_cw (sc_objs sc1 i) = st_cw (sc_objs sc i)"
    and body1: "st_body (sc_objs sc1 i) = st_body (sc_objs sc i)"
    by (simp_all add: sc1_def dropStream_def Let_def)
  then have cw1: "st_cw (sc_objs sc1 i) = ChanOpen"
    using session_invD(5) [OF inv, of i] False by (cases "st_cw (sc_objs sc i)") (auto simp: stream_chans_ok_def)
  have n: "0 \<le> n" "nat n = body_len (sc_objs sc i)"
    using body_Len_nonneg [OF session_invD(5) [OF d(1)], of env i] body_Len [of env "sc_objs sc1 i"] body1
    by (simp_all add: n_def body_len_def)
  have call1: "callable sc1" using callable_loop [OF call] d(2) by (simp add: stays_def config_def)
  have upd: "safely (keeps 0 sc)
      (bindE (CloseWithError (Some err) (st_body (sc_objs sc2 i))) (\<lambda>body.
       bindE (go_close (st_cw (sc_objs sc2 i))) (\<lambda>cw.
         let sc3 = update_stream i (\<lambda>st. st\<lparr>st_body := body, st_ctxDone := True, st_cw := cw\<rparr>) sc2
         in bindE (CloseStream i (sc_writeSched sc3)) (\<lambda>ws. Inr (sc3\<lparr>sc_writeSched := ws\<rparr>)))))"
    if 2: "keeps (body_len (sc_objs sc i)) sc1 sc2" for sc2
  proof -
    have st2: "state_of sc2 i = StateClosed" "st_cw (sc_objs sc2 i) = ChanOpen"
      using stays_settled [OF keepsD(2) [OF 2] st1] cw1 by simp_all
    obtain body where body: "CloseWithError (Some err) (st_body (sc_objs sc2 i)) = Inr body" "pipe_inv db_inv body"
      using body_close session_invD(5) [OF keepsD(1) [OF 2], of i] unfolding stream_chans_ok_def by blast
    define sc3 where "sc3 = update_stream i (\<lambda>st. st\<lparr>st_body := body, st_ctxDone := True, st_cw := ChanClosed\<rparr>) sc2"
    have 3: "session_inv sc3" "to_write sc3 = to_write sc2" "stays sc sc3"
      using closed_update [OF keepsD(1) [OF 2] st2(1), of "\<lambda>st. st\<lparr>st_body := body, st_ctxDone := True, st_cw := ChanClosed\<rparr>"]
        body(2) st2 session_invD(5) [OF keepsD(1) [OF 2], of i] stays_trans [OF d(2) keepsD(2) [OF 2]] \<open>live (state_of sc i)\<close>
      by (auto simp: sc3_def stream_chans_ok_def)
    have "safely (\<lambda>ws. keeps 0 sc (sc3\<lparr>sc_writeSched := ws\<rparr>)) (CloseStream i (sc_writeSched sc3))"
      using CloseStream_safely [OF session_invD(1) [OF 3(1)]]
    proof (rule safely_mono)
      fix ws assume "run_inv (ws, sc_flow sc3) \<and> size (queued ws) \<le> size (queued (sc_writeSched sc3))"
      then have "keeps 0 sc3 (sc3\<lparr>sc_writeSched := ws\<rparr>)" using keeps_sched [OF 3(1), of ws 0] by simp
      moreover have "keeps 0 sc sc3" using 3 d(3) 2 by (simp add: keeps_def)
      ultimately show "keeps 0 sc (sc3\<lparr>sc_writeSched := ws\<rparr>)" using keeps_trans by fastforce
    qed
    then show ?thesis using body(1) st2(2) by (simp add: go_close_def sc3_def Let_def)
  qed
  have "safely (keeps (body_len (sc_objs sc i)) sc1) (sendWindowUpdate (sched env) None n sc1)"
    using sendWindowUpdate_keeps [OF env d(1) call1 n(1)] n(2) by simp
  from safely_mono [OF this upd]
  show ?thesis
    using False unfolding closeStream_def Let_def sc1_def [symmetric] n_def [symmetric] by simp
qed

lemma frameWritten_keeps:
  assumes env: "env_ok env" and inv: "session_inv sc" and call: "callable sc"
  shows "safely (keeps 0 sc) (frameWritten env (sched env) wr sc)"
proof -
  have close: "safely (keeps 0 sc) (closeStream env (sched env) i err sc)" for i err
    by (rule closeStream_keeps [OF env inv call])
  have reset: "safely (keeps 0 sc)
      (resetStream (sched env) i ErrCodeNo (update_stream i (st_state_update (\<lambda>_. StateHalfClosedLocal)) sc))"
    if "state_of sc i = StateOpen" for i
  proof -
    note h = halfClose_keeps [OF inv that]
    from resetStream_keeps [OF env h(1) callable_loop [OF call]]
    have "safely (keeps 1 (update_stream i (st_state_update (\<lambda>_. StateHalfClosedLocal)) sc))
        (resetStream (sched env) i ErrCodeNo (update_stream i (st_state_update (\<lambda>_. StateHalfClosedLocal)) sc))" by simp
    then show ?thesis
      by (rule safely_mono) (use h(3) stays_trans [OF h(2)] in \<open>auto simp: keeps_def\<close>)
  qed
  show ?thesis
  proof (cases "wr_write wr")
    case None
    then show ?thesis by (simp add: frameWritten_def writeEndsStream_def)
  next
    case (Some w)
    then show ?thesis
      using close reset inv
      by (cases w; cases "wr_stream wr"; cases "state_of sc (the (wr_stream wr))")
        (auto simp: frameWritten_def writeEndsStream_def)
  qed
qed

lemma wroteFrame_keeps:
  assumes env: "env_ok env" and "sc_writingFrame sc" and call: "callable sc"
    and inv: "session_inv (sc\<lparr>sc_writingFrame := False, sc_writingFrameAsync := False\<rparr>)"
  shows "safely (keeps 0 (sc\<lparr>sc_writingFrame := False, sc_writingFrameAsync := False\<rparr>))
    (wroteFrame env (sched env) wr err sc)"
proof -
  let ?sc1 = "sc\<lparr>sc_writingFrame := False, sc_writingFrameAsync := False\<rparr>"
  have call1: "callable ?sc1" using callable_loop [OF call] by simp
  have "safely (keeps 0 ?sc1) (bindE (frameWritten env (sched env) wr ?sc1) (\<lambda>sc2.
      bindE (reply_writer wr err sc2) (sched env)))"
  proof (rule keeps_bind [OF frameWritten_keeps [OF env inv call1]])
    fix sc2 assume 2: "keeps 0 ?sc1 sc2"
    show "safely (keeps 0 sc2) (bindE (reply_writer wr err sc2) (sched env))"
    proof (rule keeps_bind [OF reply_writer_keeps [OF keepsD(1) [OF 2]]])
      fix sc3 assume "keeps 0 sc2 sc3"
      with callable_keeps [OF call1 2] show "safely (keeps 0 sc3) (sched env sc3)"
        using sched_keeps [OF env keepsD(1)] callable_keeps by blast
    qed simp
  qed simp
  then show ?thesis using assms(2) by (simp add: wroteFrame_def)
qed

lemma beginWrite_keeps:
  assumes env: "env_ok env" and inv: "session_inv sc" and "\<not> sc_writingFrame sc" and call: "callable sc"
  shows "safely (keeps 0 sc) (beginWrite env (sched env) wr sc)"
proof (cases "wr_write wr")
  case (Some w)
  let ?sc1 = "sc\<lparr>sc_writingFrame := True, sc_needsFrameFlush := True\<rparr>"
  have idle: "\<not> sc_writingFrameAsync sc" "sc_async sc = None"
    using session_invD(6,7) [OF inv] assms(3) by auto
  show ?thesis
  proof (cases "staysWithinBuffer w (se_Available env (sc_wire ?sc1))")
    case True
    have "safely (keeps 0 sc) (wroteFrame env (sched env) wr err (?sc1\<lparr>sc_writingFrameAsync := False, sc_wire := c\<rparr>))"
      for err c
    proof -
      let ?sc2 = "?sc1\<lparr>sc_writingFrameAsync := False, sc_wire := c\<rparr>"
      have eq: "?sc2\<lparr>sc_writingFrame := False, sc_writingFrameAsync := False\<rparr> = sc\<lparr>sc_needsFrameFlush := True, sc_wire := c\<rparr>"
        using assms(3) idle(1) by simp
      have k: "keeps 0 sc (sc\<lparr>sc_needsFrameFlush := True, sc_wire := c\<rparr>)"
      proof -
        have 1: "keeps 0 sc (sc\<lparr>sc_needsFrameFlush := True\<rparr>)" using keeps_fields(4) [OF inv] .
        show ?thesis using keeps_trans [OF 1 keeps_fields(3) [OF keepsD(1) [OF 1]]] by simp
      qed
      have "callable ?sc2" using callable_loop [OF call] by simp
      from wroteFrame_keeps [OF env _ this, of wr err] k eq
      show ?thesis by (intro keeps_then [OF k]) (simp_all add: keepsD(1) [OF k])
    qed
    then show ?thesis
      using Some True writeFrame_may_panic
      by (cases "writeFrame (se_header env) (se_ctx env) w (sc_wire sc)") (auto simp: beginWrite_def write_wire_def)
  next
    case False
    have "keeps 0 sc (?sc1\<lparr>sc_writingFrameAsync := True, sc_async := Some wr\<rparr>)"
      using inv by (simp add: keeps_defs to_write_def)
    then show ?thesis using Some False by (simp add: beginWrite_def)
  qed
qed (simp add: beginWrite_def)

lemma startFrameWrite_keeps:
  assumes env: "env_ok env" and inv: "session_inv sc" and idle: "\<not> sc_writingFrame sc" and call: "callable sc"
  shows "safely (keeps 0 sc) (startFrameWrite env (sched env) wr sc)"
proof -
  have "safely (\<lambda>_. True) (mayStart wr sc)"
    by (simp add: mayStart_def split: option.split streamState.split writeFramer.split)
  moreover have "sc\<lparr>sc_writingFrameAsync := False\<rparr> = sc" using session_invD(6) [OF inv] idle by simp
  moreover note beginWrite_keeps [OF env inv idle call] reply_writer_keeps [OF inv]
  ultimately show ?thesis
    using idle by (auto simp: startFrameWrite_def elim!: safely_mono split: option.split writeFramer.split sum.split)
qed

text \<open>The loop ends before its fuel.\<close>

lemma flush_started:
  assumes "\<not> sc_writingFrame sc"
  shows "startFrameWrite env s (request FlushFrameWriter None) sc =
    Inr (sc\<lparr>sc_writingFrame := True, sc_needsFrameFlush := True, sc_writingFrameAsync := True,
            sc_async := Some (request FlushFrameWriter None)\<rparr>)"
  using assms by (simp add: startFrameWrite_def mayStart_def beginWrite_def)

lemma scheduleLoop_keeps:
  assumes env: "env_ok env" and "session_inv sc" "callable sc" "loop_turns sc + 2 \<le> fuel"
  shows "safely (keeps 0 sc) (scheduleLoop env (sched env) fuel sc)"
  using assms(2-)
proof (induction fuel arbitrary: sc)
  case (Suc fuel)
  show ?case
  proof (cases "sc_writingFrameAsync sc")
    case False
    then have idle: "\<not> sc_writingFrame sc" using session_invD(6) [OF Suc.prems(1)] by simp
    have turn: "safely (keeps 0 sc) (case nxt of
          NextFrame wr \<Rightarrow> bindE (startFrameWrite env (sched env) wr sc1) (scheduleLoop env (sched env) fuel)
        | NextFlush \<Rightarrow> bindE (startFrameWrite env (sched env) (request FlushFrameWriter None) sc1) (\<lambda>sc2.
            scheduleLoop env (sched env) fuel (sc2\<lparr>sc_needsFrameFlush := False\<rparr>))
        | NextNone \<Rightarrow> Inr sc1)"
      if 1: "keeps 0 sc sc1" and idle1: "sc_writingFrame sc1 = sc_writingFrame sc"
        and less: "case nxt of NextFrame wr \<Rightarrow> loop_turns sc1 < loop_turns sc | _ \<Rightarrow> True" for nxt sc1
    proof (cases nxt)
      case (NextFrame wr)
      have call1: "callable sc1" using callable_keeps [OF Suc.prems(2) 1] .
      have start: "safely (keeps 0 sc1) (startFrameWrite env (sched env) wr sc1)"
        using startFrameWrite_keeps [OF env keepsD(1) [OF 1] _ call1] idle idle1 by simp
      have rest: "safely (keeps 0 sc2) (scheduleLoop env (sched env) fuel sc2)" if 2: "keeps 0 sc1 sc2" for sc2
        using Suc.IH [OF keepsD(1) [OF 2] callable_keeps [OF call1 2]] loop_turns_keeps [OF 2] less NextFrame Suc.prems(3)
        by simp
      have "safely (keeps 0 sc1) (bindE (startFrameWrite env (sched env) wr sc1) (scheduleLoop env (sched env) fuel))"
        using start rest by (rule keeps_bind) simp_all
      then show ?thesis using NextFrame by (simp del: safely_bindE add: keeps_then [OF 1])
    next
      case NextFlush
      let ?sc2 = "sc1\<lparr>sc_writingFrame := True, sc_writingFrameAsync := True,
            sc_async := Some (request FlushFrameWriter None), sc_needsFrameFlush := False\<rparr>"
      obtain f where f: "fuel = Suc f" using Suc.prems(3) by (cases fuel) auto
      have "keeps 0 sc1 ?sc2" using keepsD(1) [OF 1] idle idle1 by (simp add: keeps_defs to_write_def)
      then have "keeps 0 sc ?sc2" using keeps_trans [OF 1] by simp
      then show ?thesis using NextFlush flush_started [of sc1] idle idle1 f by simp
    next
      case NextNone
      then show ?thesis using 1 by simp
    qed
    show ?thesis
      using nextWrite_keeps [OF env Suc.prems(1)] False turn
      by (simp del: fun_upd_apply) (auto elim!: safely_mono)
  qed (use Suc.prems in simp)
qed simp

end

text \<open>A nested call returns at once; the outer call runs the loop. Both fulfil the contract.\<close>

interpretation nested: frame_scheduler "\<lambda>env. scheduleFrameWrite env 0" sc_inFrameScheduleLoop
  by unfold_locales simp_all

lemma schedule_fuel_enough:
  assumes "session_inv sc"
  shows "loop_turns sc + 2 \<le> schedule_fuel env sc"
proof -
  have d: "distinct (sc_streams sc)" by (rule session_invD(3) [OF assms])
  have "(\<Sum>i \<in> set (sc_streams sc). end_frames (sc_objs sc i)) \<le>
      (\<Sum>i \<in> set (sc_streams sc). stream_frames env (sc_objs sc i))"
    by (intro sum_mono) (simp add: end_frames_def stream_frames_def body_Len)
  then show ?thesis
    by (simp add: loop_turns_def to_write_def schedule_fuel_def queued_atoms_size sum_list_distinct_conv_sum_set [OF d])
qed

lemma loop_flag [simp]:
  "session_inv (sc\<lparr>sc_inFrameScheduleLoop := b\<rparr>) \<longleftrightarrow> session_inv sc"
  "to_write (sc\<lparr>sc_inFrameScheduleLoop := b\<rparr>) = to_write sc"
  by (simp_all add: session_defs to_write_def)

lemma schedule_keeps:
  assumes "env_ok env" "session_inv sc"
  shows "safely (keeps 0 sc) (schedule env sc)"
proof (cases "sc_writingFrame sc \<or> sc_inFrameScheduleLoop sc")
  case False
  let ?sc1 = "sc\<lparr>sc_inFrameScheduleLoop := True\<rparr>"
  have inv: "session_inv ?sc1" using assms(2) by simp
  have "schedule_fuel env ?sc1 = schedule_fuel env sc" by (simp add: schedule_fuel_def)
  then have "safely (keeps 0 ?sc1) (scheduleLoop env (scheduleFrameWrite env 0) (schedule_fuel env sc) ?sc1)"
    using nested.scheduleLoop_keeps [OF assms(1) inv] schedule_fuel_enough [OF inv, of env] by simp
  moreover have "keeps 0 sc (sc2\<lparr>sc_inFrameScheduleLoop := False\<rparr>)" if "keeps 0 ?sc1 sc2" for sc2
    using that False by (auto simp: keeps_def stays_def) (auto simp: config_def)
  ultimately show ?thesis using False by (auto elim!: safely_mono)
qed (use assms in simp)

interpretation session: frame_scheduler schedule "\<lambda>_. True"
  by unfold_locales (rule TrueI, rule schedule_keeps)

end
