(* ===== verification/SessionSteps.thy ===== *)
theory SessionSteps
  imports SessionInv
begin

text \<open>
  Every turn of the serve loop keeps the invariant of \<open>SessionInv\<close> and moves the session forward:
  \<open>follows\<close> says that identifiers only grow, that a stream that is closed stays closed, and that the
  fields that are set once stay as they are. One lemma per handler, then the event, the loop and \<open>Serve\<close>.
\<close>

subsection \<open>Moving forward\<close>

definition follows :: "'c Session \<Rightarrow> 'c Session \<Rightarrow> bool" where
  "follows sc sc' \<longleftrightarrow> session_inv sc' \<and>
     sc_inFrameScheduleLoop sc' = sc_inFrameScheduleLoop sc \<and> sc_server sc' = sc_server sc \<and>
     sc_idleTimer sc' = sc_idleTimer sc \<and> sc_idleTimeout sc' = sc_idleTimeout sc \<and>
     sc_doneServing sc' = sc_doneServing sc \<and>
     sc_maxClientStreamID sc \<le> sc_maxClientStreamID sc' \<and> sc_maxPushPromiseID sc \<le> sc_maxPushPromiseID sc' \<and>
     (\<forall>i. state_of sc i = StateClosed \<longrightarrow> settled (sc_objs sc' i) = settled (sc_objs sc i)) \<and>
     (\<forall>i. i \<le> maxID i sc \<longrightarrow> live (state_of sc' i) \<longrightarrow> live (state_of sc i))"

lemma highest_mono: "p \<le> p' \<Longrightarrow> c \<le> c' \<Longrightarrow> i \<le> highest i p c \<Longrightarrow> i \<le> highest i p' c'"
  by (auto simp: highest_def split: if_splits)

lemma follows_refl [simp]: "follows sc sc \<longleftrightarrow> session_inv sc"
  by (simp add: follows_def)

lemma settled_closed: "settled st = settled st' \<Longrightarrow> st_state st' = StateClosed \<Longrightarrow> st_state st = StateClosed"
  by (auto simp: settled_def split: if_splits)

lemma follows_trans:
  assumes "follows s1 s2" "follows s2 s3"
  shows "follows s1 s3"
proof -
  have "settled (sc_objs s3 i) = settled (sc_objs s1 i)" if "state_of s1 i = StateClosed" for i
  proof -
    have 2: "settled (sc_objs s2 i) = settled (sc_objs s1 i)" using assms(1) that by (simp add: follows_def)
    from 2 that have "state_of s2 i = StateClosed" by (rule settled_closed)
    then show ?thesis using assms(2) 2 by (simp add: follows_def)
  qed
  moreover have "live (state_of s1 i)" if "i \<le> maxID i s1" "live (state_of s3 i)" for i
    using assms that highest_mono [of "sc_maxPushPromiseID s1" "sc_maxPushPromiseID s2" "sc_maxClientStreamID s1"
        "sc_maxClientStreamID s2" i] by (auto simp: follows_def)
  ultimately show ?thesis
    using assms order_trans [of "sc_maxClientStreamID s1" "sc_maxClientStreamID s2" "sc_maxClientStreamID s3"]
      order_trans [of "sc_maxPushPromiseID s1" "sc_maxPushPromiseID s2" "sc_maxPushPromiseID s3"]
    by (simp add: follows_def)
qed

lemma keeps_follows:
  assumes "keeps k sc sc'"
  shows "follows sc sc'"
proof -
  have "settled (sc_objs sc' i) = settled (sc_objs sc i)" if "state_of sc i = StateClosed" for i
    using assms that by (auto simp: keeps_def stays_def settled_def)
  moreover have "live (state_of sc i)" if "live (state_of sc' i)" for i
  proof (rule ccontr)
    assume "\<not> live (state_of sc i)"
    then have "settled (sc_objs sc i) = Some (state_of sc i, st_cw (sc_objs sc i), st_body (sc_objs sc i))"
      by (simp add: settled_def)
    then have "settled (sc_objs sc' i) \<noteq> None" using assms by (auto simp: keeps_def stays_def)
    then show False using that by (simp add: settled_def)
  qed
  ultimately show ?thesis using assms by (simp add: follows_def keeps_def stays_def config_def)
qed

lemma followsD: "follows sc sc' \<Longrightarrow> session_inv sc'"
  by (simp add: follows_def)

text \<open>The session is the second component of what a handler returns.\<close>

abbreviation goes :: "'c Session \<Rightarrow> go_panic + 'r \<times> 'c Session \<Rightarrow> bool" where
  "goes sc m \<equiv> safely (\<lambda>(_, sc'). follows sc sc') m"

lemma safely_follows: "safely (keeps k sc) m \<Longrightarrow> safely (follows sc) m"
  by (erule safely_mono) (rule keeps_follows)

lemma follows_then: "follows sc sc1 \<Longrightarrow> safely (follows sc1) m \<Longrightarrow> safely (follows sc) m"
  by (erule safely_mono) (rule follows_trans)

lemma goes_then: "follows sc sc1 \<Longrightarrow> goes sc1 m \<Longrightarrow> goes sc m"
  by (erule safely_mono) (auto intro: follows_trans)

lemma follows_bind:
  "safely (follows sc) m \<Longrightarrow> (\<And>sc1. follows sc sc1 \<Longrightarrow> safely (follows sc1) (f sc1)) \<Longrightarrow> safely (follows sc) (bindE m f)"
  unfolding safely_bindE by (erule safely_mono) (rule follows_then)

lemma goes_bind:
  "safely (follows sc) m \<Longrightarrow> (\<And>sc1. follows sc sc1 \<Longrightarrow> goes sc1 (f sc1)) \<Longrightarrow> goes sc (bindE m f)"
  unfolding safely_bindE by (erule safely_mono) (rule goes_then)

lemma goes_bind2:
  "goes sc m \<Longrightarrow> (\<And>r sc1. follows sc sc1 \<Longrightarrow> goes sc1 (f (r, sc1))) \<Longrightarrow> goes sc (bindE m f)"
  unfolding safely_bindE by (erule safely_mono) (auto intro: goes_then)

lemma goes_return: "safely (follows sc) m \<Longrightarrow> goes sc (bindE m (\<lambda>sc1. Inr (r, sc1)))"
  by simp

subsection \<open>Updates of a stream that is alive\<close>

lemma live_update:
  assumes "session_inv sc" "live (state_of sc i)" "live (st_state (f (sc_objs sc i)))"
    "stream_chans_ok (f (sc_objs sc i))"
  shows "session_inv (update_stream i f sc)" "follows sc (update_stream i f sc)"
proof -
  have st: "state_of (update_stream i f sc) j = (if j = i then st_state (f (sc_objs sc i)) else state_of sc j)" for j
    by simp
  have u: "sc_streams (update_stream i f sc) = sc_streams sc"
    "sc_curClientStreams (update_stream i f sc) = sc_curClientStreams sc"
    "sc_curPushedStreams (update_stream i f sc) = sc_curPushedStreams sc" "maxID j (update_stream i f sc) = maxID j sc" for j
    by (simp_all add: update_stream_def)
  have b: "i \<noteq> 0 \<and> i \<le> maxID i sc" using session_invD(8) [OF assms(1), of i] assms(2) by (metis live_simps(4))
  have "table_ok (update_stream i f sc)"
    using assms(1-3) b unfolding table_ok_def u st session_inv_def by auto
  moreover have "stream_chans_ok (sc_objs (update_stream i f sc) j)" for j
    using session_invD(5) [OF assms(1), of j] assms(4) by simp
  ultimately show inv: "session_inv (update_stream i f sc)"
    using assms(1) by (simp add: session_inv_def streams_ok_def del: update_stream_simps(1))
      (simp add: writing_ok_def queues_ok_def ids_ok_def update_stream_def)
  show "follows sc (update_stream i f sc)"
    using inv assms(2) by (auto simp: follows_def) (auto simp: update_stream_def)
qed

subsection \<open>Updates of other fields\<close>

lemma linked_flow_add [simp]: "linked (snd (flow_add f n s)) i \<longleftrightarrow> linked s i"
  by (auto simp: flow_add_def linked_def Let_def)

lemma linked_newStreamFlow: "\<forall>i. linked s i \<Longrightarrow> linked (newStreamFlow j n s) i"
  by (simp add: newStreamFlow_def) (simp add: linked_def setConnFlow_def zeroFlow_def)

lemma linked_growWindows: "linked (snd (growWindows g is fs)) i \<longleftrightarrow> linked fs i"
proof (induction "is" arbitrary: fs)
  case (Cons j "is")
  then show ?case using linked_flow_add [of "StreamFlow j" g fs i]
    by (cases "flow_add (StreamFlow j) g fs") (auto simp: Let_def)
qed simp

lemma run_inv_flows: "run_inv (ws, fs) \<Longrightarrow> \<forall>i. linked fs' i \<Longrightarrow> run_inv (ws, fs')"
  by (simp add: run_inv_def pop_inv_def flows_ok_def)

lemma session_linked: "session_inv sc \<Longrightarrow> linked (sc_flow sc) i"
  using session_invD(1) [of sc] by (simp add: run_inv_def)

lemma follows_flow:
  assumes "session_inv sc" "\<And>i. linked fs i"
  shows "follows sc (sc\<lparr>sc_flow := fs\<rparr>)"
proof -
  have "run_inv (sc_writeSched sc, fs)" using run_inv_flows [OF session_invD(1) [OF assms(1)]] assms(2) by blast
  then show ?thesis using assms(1) by (simp add: follows_def session_defs)
qed

lemma follows_sched:
  assumes "session_inv sc" "run_inv (ws, sc_flow sc)"
  shows "follows sc (sc\<lparr>sc_writeSched := ws\<rparr>)"
  using assms by (simp add: follows_def session_defs)

lemma follows_fields:
  assumes "session_inv sc"
  shows "follows sc (sc\<lparr>sc_inflow := f\<rparr>)" "follows sc (sc\<lparr>sc_wire := w\<rparr>)"
    "follows sc (sc\<lparr>sc_needToSendSettingsAck := b\<rparr>)" "follows sc (sc\<lparr>sc_unackedSettings := k\<rparr>)"
    "follows sc (sc\<lparr>sc_headerTableSize := n, sc_wire := w\<rparr>)" "follows sc (sc\<lparr>sc_pushEnabled := b\<rparr>)"
    "follows sc (sc\<lparr>sc_peerMaxStreams := n\<rparr>)" "follows sc (sc\<lparr>sc_peerMaxHeaderListSize := n\<rparr>)"
    "follows sc (sc\<lparr>sc_initialStreamSendWindowSize := z\<rparr>)" "follows sc (sc\<lparr>sc_handled := l\<rparr>)"
    "follows sc (sc\<lparr>sc_inGoAway := b, sc_needToSendGoAway := b', sc_goAwayCode := n\<rparr>)"
    "follows sc (sc\<lparr>sc_sawFirstSettings := True, sc_sessionReady := ch\<rparr>)" "follows sc (sc\<lparr>sc_shutdownTimer := b\<rparr>)"
    "0 < sint z \<Longrightarrow> follows sc (sc\<lparr>sc_maxFrameSize := z\<rparr>)" "follows sc (sc\<lparr>sc_handler := b\<rparr>)"
  using assms by (simp_all add: follows_def session_defs)

text \<open>Taking a new identifier.\<close>

lemma follows_raise:
  assumes "session_inv sc" "sc_maxPushPromiseID sc \<le> p" "sc_maxClientStreamID sc \<le> c"
    and "ids_ok (sc\<lparr>sc_maxPushPromiseID := p, sc_maxClientStreamID := c\<rparr>)"
  shows "follows sc (sc\<lparr>sc_maxPushPromiseID := p, sc_maxClientStreamID := c\<rparr>)"
  using assms(1-3) highest_mono [OF assms(2,3)] assms(4)
  by (auto simp: follows_def session_inv_def table_ok_def streams_ok_def writing_ok_def queues_ok_def)

subsection \<open>The write path again\<close>

lemmas writeFrame_follows = safely_follows [OF session.writeFrame_keeps [OF _ _ TrueI]]
lemmas sendWindowUpdate_follows = safely_follows [OF session.sendWindowUpdate_keeps [OF _ _ TrueI]]
lemmas sendWindowUpdate32_follows = safely_follows [OF session.sendWindowUpdate32_keeps [OF _ _ TrueI]]
lemmas resetStream_follows = safely_follows [OF session.resetStream_keeps [OF _ _ TrueI]]
lemmas closeStream_follows = safely_follows [OF session.closeStream_keeps [OF _ _ TrueI]]
lemmas schedule_follows = safely_follows [OF schedule_keeps]

lemma goAway_follows:
  assumes "env_ok env" "session_inv sc"
  shows "safely (follows sc) (goAway env code sc)"
proof (cases "sc_inGoAway sc")
  case False
  let ?sc1 = "sc\<lparr>sc_inGoAway := True, sc_needToSendGoAway := True, sc_goAwayCode := code\<rparr>"
  have 1: "follows sc ?sc1" by (rule follows_fields(11) [OF assms(2)])
  show ?thesis
    using follows_then [OF 1 schedule_follows [OF assms(1) followsD [OF 1]]] False by (simp only: goAway_def if_False)
qed (simp add: goAway_def assms(2))

subsection \<open>New streams\<close>

lemma newStreamObject_ok [simp]:
  "stream_chans_ok (newStreamObject st)" "st_state (newStreamObject st) = st"
  using byte_queue.pinv_newPipe [OF fresh_pool.dataBuffer_queue db_inv_emptyBuffer]
  by (simp_all add: newStreamObject_def stream_chans_ok_def)

text \<open>The identifier of a new stream is above the highest one of a session that \<open>sc\<close> follows.\<close>

lemma newStream_follows:
  assumes f: "follows sc0 sc" and up: "maxID i sc0 < i" and idle: "state_of sc i = StateIdle" and max: "i \<le> maxID i sc"
    and "live st"
  shows "safely (\<lambda>sc'. follows sc0 sc' \<and> sc_objs sc' = (sc_objs sc)(i := newStreamObject st) \<and>
    sc_streams sc' = i # sc_streams sc) (newStream i p st sc)"
proof (cases "i = 0")
  note assms = followsD [OF f] idle max \<open>live st\<close>
  case False
  have new: "i \<notin> set (sc_streams sc)" using session_invD(4) [OF assms(1), of i] assms(2) by simp
  define fs where "fs = newStreamFlow i (sc_initialStreamSendWindowSize sc) (sc_flow sc)"
  define ifs where "ifs = newStreamFlow i (sc_initialStreamRecvWindowSize sc) (sc_inflow sc)"
  have run: "run_inv (sc_writeSched sc, fs)"
    using run_inv_flows [OF session_invD(1) [OF assms(1)]] linked_newStreamFlow session_linked [OF assms(1)]
    by (simp add: fs_def)
  have ok: "follows sc0 (if isPushed i then sc1\<lparr>sc_curPushedStreams := sc_curPushedStreams sc + 1\<rparr>
      else sc1\<lparr>sc_curClientStreams := sc_curClientStreams sc + 1\<rparr>)" (is "follows sc0 ?sc'")
    if "run_inv (ws, fs)" and sc1: "sc1 = sc\<lparr>sc_objs := (sc_objs sc)(i := newStreamObject st), sc_flow := fs,
      sc_inflow := ifs, sc_streams := i # sc_streams sc, sc_writeSched := ws\<rparr>" for ws sc1
  proof -
    have st: "state_of ?sc' j = (if j = i then st else state_of sc j)" for j by (simp add: sc1)
    have "maxID j ?sc' = maxID j sc" for j by (simp add: sc1)
    then have "table_ok ?sc'"
      using assms new False unfolding table_ok_def st session_inv_def by (auto simp: sc1)
    moreover have "stream_chans_ok (sc_objs ?sc' j)" for j
      using session_invD(5) [OF assms(1), of j] by (simp add: sc1)
    ultimately have "session_inv ?sc'"
      using assms(1) that by (simp add: session_inv_def streams_ok_def writing_ok_def queues_ok_def ids_ok_def)
    moreover have "state_of sc0 i \<noteq> StateClosed" using f idle by (auto simp: follows_def settled_def split: if_splits)
    ultimately show ?thesis using f up by (auto simp: follows_def sc1)
  qed
  show ?thesis
    using OpenStream_safely [OF run, of i p]
  proof (cases "OpenStream i p (sc_writeSched sc)")
    case (Inr ws)
    then have "run_inv (ws, fs)" using OpenStream_safely [OF run, of i p] by simp
    from ok [OF this refl] show ?thesis
      using Inr False new
      by (cases "isPushed i") (simp_all add: newStream_def Let_def fs_def ifs_def List.insert_def)
  qed (use False in \<open>simp add: newStream_def Let_def\<close>)
qed (simp add: newStream_def)

lemma unused_above:
  assumes "session_inv sc" "maxID i sc < i"
  shows "state_of sc i = StateIdle"
  using session_invD(8) [OF assms(1), of i] assms(2) leD by blast

text \<open>The next own identifier is above the highest one, below \<open>2^31\<close> and of the right parity.\<close>

lemma isPushed_even: "isPushed i \<longleftrightarrow> even (uint i)"
proof -
  have "isPushed i \<longleftrightarrow> uint (i mod 2) = uint (0 :: u32)" unfolding isPushed_def by (rule word_uint_eq_iff)
  also have "uint (i mod 2) = uint i mod 2" by (simp add: uint_mod)
  finally show ?thesis by (simp add: even_iff_mod_2_eq_zero)
qed

lemma nextStreamID_ok:
  assumes "ids_ok sc" "ownMaxStreamID sc + 2 < 2147483648"
  shows "ownMaxStreamID sc < nextStreamID sc" "nextStreamID sc < 2147483648" "isPushed (nextStreamID sc) = sc_server sc"
proof -
  let ?m = "ownMaxStreamID sc"
  have m: "uint ?m < 2147483648" "sc_server sc \<Longrightarrow> even (uint ?m)" "\<not> sc_server sc \<Longrightarrow> ?m = 0 \<or> odd (uint ?m)"
    using assms(1) by (auto simp: ids_ok_def ownMaxStreamID_def isPushed_even word_less_def)
  then have p: "uint (?m + 2) = uint ?m + 2"
    by (simp add: uint_word_ariths take_bit_int_eq_self)
  have n: "nextStreamID sc = (if \<not> sc_server sc \<and> ?m = 0 then 1 else ?m + 2)"
    by (simp add: nextStreamID_def ownMaxStreamID_def)
  show "ownMaxStreamID sc < nextStreamID sc" "nextStreamID sc < 2147483648" "isPushed (nextStreamID sc) = sc_server sc"
    using m p assms(2) by (auto simp: n isPushed_even word_less_def)
qed

lemma setOwnMaxStreamID_ok:
  assumes "session_inv sc" "ownMaxStreamID sc < i" "i < 2147483648" "isPushed i = sc_server sc"
  shows "follows sc (setOwnMaxStreamID i sc)" "state_of (setOwnMaxStreamID i sc) i = StateIdle"
    "i \<le> maxID i (setOwnMaxStreamID i sc)" "maxID i sc < i"
proof -
  have "follows sc (sc\<lparr>sc_maxPushPromiseID := if sc_server sc then i else sc_maxPushPromiseID sc,
      sc_maxClientStreamID := if sc_server sc then sc_maxClientStreamID sc else i\<rparr>)"
    using assms by (intro follows_raise) (auto simp: ids_ok_def ownMaxStreamID_def session_inv_def)
  then show "follows sc (setOwnMaxStreamID i sc)" by (cases "sc_server sc") (simp_all add: setOwnMaxStreamID_def)
  show max: "maxID i sc < i" using assms(2,4) by (auto simp: highest_def ownMaxStreamID_def split: if_splits)
  from unused_above [OF assms(1) max]
  show "state_of (setOwnMaxStreamID i sc) i = StateIdle" by (simp add: setOwnMaxStreamID_def)
  show "i \<le> maxID i (setOwnMaxStreamID i sc)" using assms(4) by (auto simp: highest_def setOwnMaxStreamID_def)
qed

lemma setPeerMaxStreamID_ok:
  assumes "session_inv sc" "peerMaxStreamID sc < i" "isPushed i \<noteq> sc_server sc"
  shows "follows sc (setPeerMaxStreamID i sc)" "state_of (setPeerMaxStreamID i sc) i = StateIdle"
    "i \<le> maxID i (setPeerMaxStreamID i sc)" "maxID i sc < i"
proof -
  have "follows sc (sc\<lparr>sc_maxPushPromiseID := if sc_server sc then sc_maxPushPromiseID sc else i,
      sc_maxClientStreamID := if sc_server sc then i else sc_maxClientStreamID sc\<rparr>)"
    using assms by (intro follows_raise) (auto simp: ids_ok_def peerMaxStreamID_def session_inv_def)
  then show "follows sc (setPeerMaxStreamID i sc)" by (cases "sc_server sc") (simp_all add: setPeerMaxStreamID_def)
  show max: "maxID i sc < i" using assms(2,3) by (auto simp: highest_def peerMaxStreamID_def split: if_splits)
  from unused_above [OF assms(1) max]
  show "state_of (setPeerMaxStreamID i sc) i = StateIdle" by (simp add: setPeerMaxStreamID_def)
  show "i \<le> maxID i (setPeerMaxStreamID i sc)" using assms(3) by (auto simp: highest_def setPeerMaxStreamID_def)
qed

lemma resHeaders_request_ok [simp]: "request_ok (request (WriteResHeaders h) st)"
  by (simp add: request_ok_def DataSize_def)

subsection \<open>The handlers\<close>

lemma noteBodyRead_follows:
  assumes "env_ok env" "session_inv sc" "0 \<le> n"
  shows "safely (follows sc) (noteBodyRead env i n sc)"
  unfolding noteBodyRead_def
  using sendWindowUpdate_follows [OF assms]
proof (rule follows_bind)
  fix sc1 assume "follows sc sc1"
  from followsD [OF this] show "safely (follows sc1) (if state_of sc1 i \<notin> {StateHalfClosedRemote, StateClosed}
      then sendWindowUpdate (schedule env) (Some i) n sc1 else Inr sc1)"
    using sendWindowUpdate_follows [OF assms(1) _ assms(3)] by simp
qed

lemma endStream_follows:
  assumes "session_inv sc" "live (state_of sc i)"
  shows "safely (follows sc) (endStream i sc)"
proof -
  let ?f = "st_state_update (\<lambda>_. StateHalfClosedRemote)"
  have ok: "stream_chans_ok (sc_objs sc i)" by (rule session_invD(5) [OF assms(1)])
  have cw: "st_cw (sc_objs sc i) \<noteq> ChanClosed"
    using ok assms(2) by (auto simp: stream_chans_ok_def)
  have "stream_chans_ok (?f (sc_objs sc i))" using ok cw by (auto simp: stream_chans_ok_def)
  note 1 = live_update [OF assms, of ?f, OF _ this, simplified]
  obtain body where body: "CloseWithError (Some IoEOF) (st_body (sc_objs sc i)) = Inr body" "pipe_inv db_inv body"
    using body_close ok unfolding stream_chans_ok_def by blast
  let ?g = "st_body_update (\<lambda>_. body)" and ?sc1 = "update_stream i ?f sc"
  have "follows ?sc1 (update_stream i ?g ?sc1)"
    using ok cw body(2) by (intro live_update(2) [OF 1(1)]) (auto simp: stream_chans_ok_def)
  with 1(2) have "follows sc (update_stream i ?g ?sc1)" by (rule follows_trans)
  then show ?thesis using body(1) by (simp add: endStream_def Let_def)
qed

lemma quiet_update:
  assumes "session_inv sc" "core (f (sc_objs sc i)) = core (sc_objs sc i)"
  shows "follows sc (update_stream i f sc)"
  using keeps_follows [OF keeps_update [where f = f and i = i and k = 0, OF assms]] .

lemma processTrailerHeaders_follows:
  assumes "session_inv sc" "live (state_of sc i)"
  shows "goes sc (processTrailerHeaders i f sc)"
proof -
  let ?sc1 = "update_stream i (st_gotTrailerHeader_update (\<lambda>_. True)) sc"
  have 1: "follows sc ?sc1" using assms(1) by (intro quiet_update) (simp_all add: core_def)
  define sc2 where "sc2 = (case st_trailer (sc_objs ?sc1 i) of
                          None \<Rightarrow> ?sc1
                        | Some t \<Rightarrow>
                            update_stream i (st_trailer_update (\<lambda>_. Some (addFields (\<lambda>k. k) (mh_RegularFields f) t))) ?sc1)"
  have 2: "follows ?sc1 sc2" "state_of sc2 i = state_of sc i"
    using followsD [OF 1] by (auto simp: sc2_def core_def intro!: quiet_update split: option.split)
  have "safely (follows sc) (endStream i sc2)"
    using follows_then [OF follows_trans [OF 1 2(1)] endStream_follows [OF followsD [OF 2(1)]]] assms(2) 2(2) by simp
  then show ?thesis
    using assms(1) 1 unfolding processTrailerHeaders_def Let_def sc2_def [symmetric] by simp
qed

lemma adjust_priority_goes:
  assumes "session_inv sc"
  shows "goes sc (adjust_priority i p sc)"
  using AdjustStream_safely [OF session_invD(1) [OF assms], of i p] follows_sched [OF assms]
  by (auto simp: adjust_priority_def elim!: safely_mono)

lemma processReply_goes:
  assumes "session_inv sc" "mh_StreamID f \<in> set (sc_streams sc)"
  shows "goes sc (processReply env f sc)"
proof -
  let ?i = "mh_StreamID f"
  have l: "live (state_of sc ?i)" using session_invD(4) [OF assms(1)] assms(2) by blast
  have ok: "stream_chans_ok (sc_objs sc ?i)" by (rule session_invD(5) [OF assms(1)])
  show ?thesis
  proof (cases "st_resetQueued (sc_objs sc ?i) \<or> st_replied (sc_objs sc ?i)")
    case True
    then show ?thesis
      using processTrailerHeaders_follows [OF assms(1) l] assms(1) by (auto simp: processReply_def Let_def)
  next
    case False
    let ?f = "\<lambda>st. st\<lparr>st_replied := True, st_replyHeader := Some (addFields (se_CanonicalKey env) (mh_Fields f) []),
        st_readyCh := ChanClosed\<rparr>"
    have "st_readyCh (sc_objs sc ?i) = ChanOpen"
      using ok False by (cases "st_readyCh (sc_objs sc ?i)") (auto simp: stream_chans_ok_def)
    moreover have "follows sc (update_stream ?i ?f sc)"
      using ok l by (intro live_update(2) [OF assms(1)]) (auto simp: stream_chans_ok_def)
    ultimately show ?thesis using False by (simp add: processReply_def go_close_def Let_def)
  qed
qed

lemma acceptStream_goes:
  assumes "follows sc0 sc" "maxID (mh_StreamID f) sc0 < mh_StreamID f" "state_of sc (mh_StreamID f) = StateIdle"
    "mh_StreamID f \<le> maxID (mh_StreamID f) sc"
  shows "goes sc0 (acceptStream env f sc)"
proof -
  let ?i = "mh_StreamID f" and ?st = "if mh_StreamEnded f then StateHalfClosedRemote else StateOpen"
  have new: "safely (follows sc0) (newStream ?i 0 ?st sc)"
    using newStream_follows [OF assms, of ?st 0] by (auto elim: safely_mono)
  show ?thesis
    unfolding acceptStream_def Let_def
  proof (rule goes_bind [OF new])
    fix sc1 assume "follows sc0 sc1"
    let ?sc2 = "update_stream ?i (st_header_update (\<lambda>_. Some (addFields (se_CanonicalKey env) (mh_Fields f) []))) sc1"
    have 2: "follows sc1 ?sc2"
      using followsD [OF \<open>follows sc0 sc1\<close>] by (intro quiet_update) (simp_all add: core_def)
    have prio: "goes ?sc2 (case mh_Priority f of None \<Rightarrow> Inr (None, ?sc2)
        | Some p \<Rightarrow> (case checkPriority ?i p of Some err \<Rightarrow> Inr (Some err, ?sc2) | None \<Rightarrow> adjust_priority ?i p ?sc2))"
      using followsD [OF 2] adjust_priority_goes by (auto split: option.split)
    show "goes sc1 (bindE (case mh_Priority f of None \<Rightarrow> Inr (None, ?sc2)
        | Some p \<Rightarrow> (case checkPriority ?i p of Some err \<Rightarrow> Inr (Some err, ?sc2) | None \<Rightarrow> adjust_priority ?i p ?sc2))
        (\<lambda>(err, sc3). case err of Some e \<Rightarrow> Inr (Some e, sc3)
           | None \<Rightarrow> Inr (None, sc3\<lparr>sc_handled := sc_handled sc3 @ [?i]\<rparr>)))"
    proof (rule goes_then [OF 2], rule goes_bind2 [OF prio])
      fix r sc3 assume "follows ?sc2 sc3"
      from followsD [OF this] show "goes sc3 (case (r, sc3) of (err, sc3) \<Rightarrow> (case err of Some e \<Rightarrow> Inr (Some e, sc3)
           | None \<Rightarrow> Inr (None, sc3\<lparr>sc_handled := sc_handled sc3 @ [?i]\<rparr>)))"
        using follows_fields(10) by (auto split: option.split)
    qed
  qed
qed

lemma createStream_goes:
  assumes env: "env_ok env" and inv: "session_inv sc"
  shows "goes sc (createStream env parent h e sc)"
proof (cases "ownCurStreams sc + 1 > sc_peerMaxStreams sc")
  case False
  show ?thesis
  proof (cases "ownMaxStreamID sc + 2 \<ge> 2147483648")
    case True
    then show ?thesis
      using False goAway_follows [OF env inv, of ErrCodeNo]
      by (simp add: createStream_def startGracefulShutdownInternal_def)
  next
    case small: False
    let ?i = "nextStreamID sc" and ?st = "if e then StateHalfClosedRemote else StateOpen"
    have "ids_ok sc" using inv by (simp add: session_inv_def)
    from nextStreamID_ok [OF this] small
    have i: "ownMaxStreamID sc < ?i" "?i < 2147483648" "isPushed ?i = sc_server sc" by (auto simp: not_le)
    note 1 = setOwnMaxStreamID_ok [OF inv i]
    let ?sc1 = "setOwnMaxStreamID ?i sc"
    have new: "safely (follows sc) (newStream ?i parent ?st ?sc1)"
      using newStream_follows [OF 1(1,4,2,3), of ?st parent] by (auto elim: safely_mono)
    have "goes sc (bindE (newStream ?i parent ?st ?sc1) (\<lambda>sc2.
        bindE (Session_writeFrame (schedule env) (request (WriteResHeaders (resHeaders ?i 0 h e)) (Some ?i)) sc2) (\<lambda>sc3.
          Inr (Inr ?i, sc3))))"
      by (rule goes_bind [OF new], rule goes_return, rule writeFrame_follows [OF env followsD]) auto
    then show ?thesis
      using False small by (simp add: createStream_def Let_def del: safely_bindE)
  qed
qed (simp add: createStream_def inv)

lemma processHeaders_goes:
  assumes "session_inv sc"
  shows "goes sc (processHeaders env f sc)"
proof -
  let ?i = "mh_StreamID f"
  have accept: "goes sc (acceptStream env f (setPeerMaxStreamID ?i sc))" "follows sc (setPeerMaxStreamID ?i sc)"
    if "peerMaxStreamID sc < ?i" "isPushed ?i \<noteq> sc_server sc"
    using setPeerMaxStreamID_ok [OF assms that] acceptStream_goes by blast+
  have par: "isPushed ?i \<noteq> sc_server sc" if "\<not> (sc_server sc \<and> ?i mod 2 \<noteq> 1 \<or> \<not> sc_server sc \<and> ?i mod 2 \<noteq> 0)"
    using that odd_iff_mod_2_eq_one [of ?i] even_iff_mod_2_eq_zero [of ?i] unfolding isPushed_def by metis
  show ?thesis
  proof (cases "sc_server sc \<and> ?i mod 2 \<noteq> 1 \<or> \<not> sc_server sc \<and> ?i mod 2 \<noteq> 0")
    case True
    then show ?thesis
      unfolding processHeaders_def Let_def if_P [OF True] using assms processReply_goes [OF assms, of f env] by simp
  next
    case False
    then show ?thesis
      unfolding processHeaders_def Let_def if_not_P [OF False]
      using assms processReply_goes [OF assms, of f env] accept par [OF False] by (auto simp: not_le)
  qed
qed

lemma refuseData_goes:
  assumes "env_ok env" "session_inv sc"
  shows "goes sc (refuseData env f st sc)"
proof -
  have win: "goes sc (bindE (sendWindowUpdate (schedule env) None (uint (df_Length f)) (sc\<lparr>sc_inflow := fl\<rparr>)) (\<lambda>sc1.
      if st \<noteq> None \<and> st_resetQueued (sc_objs sc1 (df_StreamID f)) then Inr (None, sc1)
      else Inr (Some (streamError (df_StreamID f) ErrCodeStreamClosed), sc1)))" for fl
  proof -
    have 1: "follows sc (sc\<lparr>sc_inflow := fl\<rparr>)" by (rule follows_fields(1) [OF assms(2)])
    show ?thesis
      by (rule goes_then [OF 1], rule goes_bind [OF sendWindowUpdate_follows [OF assms(1) followsD [OF 1]]])
        (auto dest: followsD)
  qed
  show ?thesis
    using win assms(2) unfolding refuseData_def Let_def
    by (auto simp: flow_take_def Let_def split: option.split simp del: safely_bindE)
qed

end
