(* ===== verification/SessionTurns.thy ===== *)
theory SessionTurns
  imports SessionSteps
begin

text \<open>
  The handlers of DATA, SETTINGS and the control frames, the event of a turn, the serve loop and
  \<open>Serve\<close> keep the invariant of \<open>SessionInv\<close> and move the session forward.
\<close>

subsection \<open>DATA\<close>

lemma body_write:
  assumes "env_ok env" "pipe_inv db_inv p"
  shows "\<exists>r p'. pipe_Write (body_ops env) d p = Inr (r, p') \<and> pipe_inv db_inv p'"
proof -
  have "chunk_pool (se_chunks env)" using assms(1) by (simp add: env_ok_def)
  from byte_queue.write_step [OF chunk_pool.dataBuffer_queue [OF this] assms(2), of d] show ?thesis
    by auto
qed

lemma body_update:
  assumes "session_inv sc" "live (state_of sc i)" "pipe_inv db_inv body"
  shows "follows sc (update_stream i (st_body_update (\<lambda>_. body)) sc)"
  using assms session_invD(5) [OF assms(1), of i] by (intro live_update(2)) (auto simp: stream_chans_ok_def)

text \<open>Storing data leaves the states of the streams alone.\<close>

lemma storeData_goes:
  assumes "env_ok env" "session_inv sc" "live (state_of sc i)"
  shows "safely (\<lambda>(_, sc'). follows sc sc' \<and> (\<forall>j. state_of sc' j = state_of sc j)) (storeData env i d sc)"
proof -
  obtain r body where w: "pipe_Write (body_ops env) d (st_body (sc_objs sc i)) = Inr (r, body)" "pipe_inv db_inv body"
    using body_write [OF assms(1)] session_invD(5) [OF assms(2)] unfolding stream_chans_ok_def by blast
  let ?sc1 = "update_stream i (st_body_update (\<lambda>_. body)) sc"
  have 1: "follows sc ?sc1" using assms(2,3) w(2) by (rule body_update)
  moreover have "follows ?sc1 (update_stream i (st_bodyBytes_update (\<lambda>n. n + of_nat (length d))) ?sc1)"
    using followsD [OF 1] by (intro quiet_update) (simp_all add: core_def)
  ultimately have "follows sc (update_stream i (st_bodyBytes_update (\<lambda>n. n + of_nat (length d))) ?sc1)"
    by (rule follows_trans)
  then show ?thesis
    using w(1) 1 assms(2) by (cases r) (simp add: storeData_def Let_def)
qed

lemma returnPadding_follows:
  assumes "env_ok env" "session_inv sc"
  shows "safely (follows sc) (returnPadding env i pad sc)"
proof (cases "0 <s pad")
  case True
  then have "0 \<le> sint pad" by (simp add: word_sless_alt)
  note w = sendWindowUpdate32_follows [OF assms(1) _ this]
  from follows_bind [OF w [OF assms(2)] w [OF followsD]] show ?thesis
    using True by (simp only: returnPadding_def if_True)
qed (use assms in \<open>simp add: returnPadding_def\<close>)

text \<open>A DATA frame whose window updates can run the schedule loop is one with padding.\<close>

definition padding :: "DataFr \<Rightarrow> i32" where
  "padding f = df_Length f - of_nat (length (df_Data f))"

lemma receiveData_goes:
  assumes env: "env_ok env" and inv: "session_inv sc" and l: "live (state_of sc (df_StreamID f))"
  shows "safely (\<lambda>(_, sc'). follows sc sc' \<and> (\<not> 0 <s padding f \<longrightarrow> (\<forall>j. state_of sc' j = state_of sc j)))
    (receiveData env f sc)"
proof -
  let ?i = "df_StreamID f"
  have take: "safely (\<lambda>(_, sc'). follows sc sc' \<and> (\<not> 0 <s padding f \<longrightarrow> (\<forall>j. state_of sc' j = state_of sc j)))
      (bindE (storeData env ?i (df_Data f) (sc\<lparr>sc_inflow := fl\<rparr>)) (\<lambda>(err, sc1).
         if err \<noteq> None then Inr (err, sc1)
         else bindE (returnPadding env ?i (padding f) sc1) (\<lambda>sc2. Inr (None, sc2))))" for fl
  proof -
    have 1: "follows sc (sc\<lparr>sc_inflow := fl\<rparr>)" by (rule follows_fields(1) [OF inv])
    have st: "safely (\<lambda>(_, sc1). follows sc sc1 \<and> (\<forall>j. state_of sc1 j = state_of sc j))
        (storeData env ?i (df_Data f) (sc\<lparr>sc_inflow := fl\<rparr>))"
      using storeData_goes [OF env followsD [OF 1], of ?i "df_Data f"] l
      by (auto elim!: safely_mono intro: follows_trans [OF 1])
    have pad: "safely (\<lambda>sc2. follows sc sc2 \<and> (\<not> 0 <s padding f \<longrightarrow> (\<forall>j. state_of sc2 j = state_of sc j)))
        (returnPadding env ?i (padding f) sc1)"
      if "follows sc sc1" "\<forall>j. state_of sc1 j = state_of sc j" for sc1
      using follows_then [OF that(1) returnPadding_follows [OF env followsD [OF that(1)]], of ?i "padding f"] that
      by (cases "0 <s padding f") (auto simp: returnPadding_def)
    show ?thesis
      unfolding safely_bindE using st by (rule safely_mono) (auto intro: pad)
  qed
  show ?thesis
    using take inv unfolding receiveData_def Let_def padding_def [symmetric]
    by (auto simp: flow_take_def Let_def split: option.split simp del: safely_bindE)
qed

text \<open>The code ends the stream after the window updates of the padding, when the schedule loop may have
  closed it; hence the hypothesis.\<close>

definition data_ok :: "DataFr \<Rightarrow> bool" where
  "data_ok f \<longleftrightarrow> (df_StreamEnded f \<longrightarrow> \<not> 0 <s padding f)"

lemma processData_goes:
  assumes env: "env_ok env" and inv: "session_inv sc" and "data_ok f"
  shows "goes sc (processData env f sc)"
proof -
  let ?i = "df_StreamID f"
  have open_data: "goes sc (bindE (if 0 < df_Length f then receiveData env f sc else Inr (None, sc)) (\<lambda>(err, sc1).
      if err \<noteq> None then Inr (err, sc1)
      else if df_StreamEnded f then bindE (endStream ?i sc1) (\<lambda>sc2. Inr (None, sc2)) else Inr (None, sc1)))"
    if l: "live (state_of sc ?i)"
  proof -
    have st: "safely (\<lambda>(_, sc1). follows sc sc1 \<and> (df_StreamEnded f \<longrightarrow> live (state_of sc1 ?i)))
        (if 0 < df_Length f then receiveData env f sc else Inr (None, sc))"
      using receiveData_goes [OF env inv l] l inv assms(3) by (auto simp: data_ok_def elim!: safely_mono)
    have "safely (follows sc) (endStream ?i sc1)" if "follows sc sc1" "live (state_of sc1 ?i)" for sc1
      using that by (intro follows_then [OF that(1)] endStream_follows followsD)
    then show ?thesis
      unfolding safely_bindE by (intro safely_mono [OF st]) auto
  qed
  show ?thesis
    using open_data refuseData_goes [OF env inv, of f] inv session_invD(4) [OF inv, of ?i]
    by (auto simp: processData_def Session_state_def Let_def simp del: safely_bindE)
qed

subsection \<open>SETTINGS and the control frames\<close>

lemma processSetting_follows:
  assumes "env_ok env" "session_inv sc"
  shows "follows sc (snd (processSetting env s sc))"
proof -
  obtain sid val where s: "s = (sid, val)" by (cases s)
  have win: "follows sc (snd (processSettingInitialWindowSize env val sc))"
  proof -
    let ?sc1 = "sc\<lparr>sc_initialStreamSendWindowSize := val\<rparr>"
    obtain ok fs where g: "growWindows (val - sc_initialStreamSendWindowSize sc) (se_range env (sc_streams sc)) (sc_flow sc) = (ok, fs)"
      by (cases "growWindows (val - sc_initialStreamSendWindowSize sc) (se_range env (sc_streams sc)) (sc_flow sc)")
    have "linked fs i" for i
      using linked_growWindows [of "val - sc_initialStreamSendWindowSize sc" "se_range env (sc_streams sc)" "sc_flow sc" i]
        session_linked [OF assms(2), of i] g by simp
    with follows_flow [of ?sc1 fs] follows_fields(9) [OF assms(2), of val]
    have "follows sc (?sc1\<lparr>sc_flow := fs\<rparr>)" using follows_trans followsD by blast
    then show ?thesis using g by (simp add: processSettingInitialWindowSize_def Let_def)
  qed
  have "0 < sint val" if "se_Valid env s = None" "sid = SettingMaxFrameSize"
    using assms(1) that s by (simp add: env_ok_def)
  then show ?thesis
    using win follows_fields [OF assms(2)] assms(2) unfolding processSetting_def s
    by (auto simp: Let_def split: option.split)
qed

lemma ForeachSetting_follows:
  assumes "env_ok env" "session_inv sc"
  shows "follows sc (snd (ForeachSetting (processSetting env) ss sc))"
  using assms(2)
proof (induction ss arbitrary: sc)
  case (Cons s ss)
  have 1: "follows sc (snd (processSetting env s sc))" by (rule processSetting_follows [OF assms(1) Cons.prems])
  from follows_trans [OF 1 Cons.IH [OF followsD [OF 1]]] 1 show ?case
    by (auto split: prod.split option.split)
qed simp

lemma processSettings_goes:
  assumes "env_ok env" "session_inv sc"
  shows "goes sc (processSettings env isAck ss sc)"
proof (cases "ForeachSetting (processSetting env) ss sc")
  case (Pair err sc1)
  then have 1: "follows sc sc1" using ForeachSetting_follows [OF assms, of ss] by simp
  have ack: "follows sc1 (sc1\<lparr>sc_needToSendSettingsAck := True\<rparr>)" by (rule follows_fields(3) [OF followsD [OF 1]])
  have "safely (follows sc) (schedule env (sc1\<lparr>sc_needToSendSettingsAck := True\<rparr>))"
    by (rule follows_then [OF follows_trans [OF 1 ack] schedule_follows [OF assms(1) followsD [OF ack]]])
  then show ?thesis
    using Pair 1 follows_fields(4) [OF assms(2)]
    by (auto simp: processSettings_def Let_def simp del: scheduleFrameWrite.simps One_nat_def split: option.split)
qed

lemma processPing_goes:
  assumes "env_ok env" "session_inv sc"
  shows "goes sc (processPing env i isAck data sc)"
proof -
  have "request_ok (request (WritePingAck data) None)" by (simp add: request_ok_def DataSize_def)
  from goes_return [OF writeFrame_follows [OF assms this]] assms(2) show ?thesis
    unfolding processPing_def by (auto simp del: safely_bindE)
qed

lemma processWindowUpdate_goes:
  assumes "env_ok env" "session_inv sc"
  shows "goes sc (processWindowUpdate env i n sc)"
proof -
  have "goes sc (let (ok, fs) = flow_add p n (sc_flow sc)
      in if \<not> ok then Inr (err, sc) else bindE (schedule env (sc\<lparr>sc_flow := fs\<rparr>)) (\<lambda>sc1. Inr (None, sc1)))"
    for p and err :: "go_error option"
  proof (cases "flow_add p n (sc_flow sc)")
    case (Pair ok fs)
    then have "linked fs j" for j using linked_flow_add [of p n "sc_flow sc" j] session_linked [OF assms(2)] by simp
    then have 1: "follows sc (sc\<lparr>sc_flow := fs\<rparr>)" using follows_flow [OF assms(2)] by blast
    from goes_return [OF follows_then [OF 1 schedule_follows [OF assms(1) followsD [OF 1]]], of "None :: go_error option"]
    show ?thesis using Pair assms(2) by (simp del: safely_bindE scheduleFrameWrite.simps One_nat_def)
  qed
  then show ?thesis
    using assms(2) unfolding processWindowUpdate_def by (auto simp: Let_def split: prod.split simp del: safely_bindE)
qed

lemma processResetStream_goes:
  assumes "env_ok env" "session_inv sc"
  shows "goes sc (processResetStream env i code sc)"
  using goes_return [OF closeStream_follows [OF assms]] assms(2)
  unfolding processResetStream_def by (auto simp: Let_def split: prod.split simp del: safely_bindE)

lemma processGoAway_goes:
  assumes "env_ok env" "session_inv sc"
  shows "goes sc (processGoAway env sc)"
  unfolding processGoAway_def startGracefulShutdownInternal_def
  using goAway_follows [OF assms] by (rule goes_bind) (simp add: follows_fields followsD)

lemma processPriority_goes:
  assumes "session_inv sc"
  shows "goes sc (processPriority i p sc)"
  using adjust_priority_goes [OF assms, of i p] assms by (auto simp: processPriority_def split: option.split)

subsection \<open>Frames\<close>

fun frame_ok :: "Frame \<Rightarrow> bool" where
  "frame_ok (DataFrame f) = data_ok f"
| "frame_ok _ = True"

lemma dispatchFrame_goes:
  assumes "env_ok env" "session_inv sc" "frame_ok f"
  shows "goes sc (dispatchFrame env f sc)"
  using assms processSettings_goes [OF assms(1,2)] processHeaders_goes [OF assms(2)] processWindowUpdate_goes [OF assms(1,2)]
    processPing_goes [OF assms(1,2)] processData_goes [OF assms(1,2)] processResetStream_goes [OF assms(1,2)]
    processPriority_goes [OF assms(2)] processGoAway_goes [OF assms(1,2)]
  by (cases f) (simp_all add: dispatchFrame_def)

lemma processFrame_goes:
  assumes "env_ok env" "session_inv sc" "frame_ok f"
  shows "goes sc (processFrame env f sc)"
proof -
  have "goes sc (dispatchFrame env f (sc\<lparr>sc_sawFirstSettings := True, sc_sessionReady := ch\<rparr>))" for ch
  proof -
    have 1: "follows sc (sc\<lparr>sc_sawFirstSettings := True, sc_sessionReady := ch\<rparr>)" by (rule follows_fields(12) [OF assms(2)])
    show ?thesis by (rule goes_then [OF 1 dispatchFrame_goes [OF assms(1) followsD [OF 1] assms(3)]])
  qed
  moreover have "sc_sessionReady sc = ChanOpen \<or> sc_sawFirstSettings sc"
    using assms(2) by (cases "sc_sessionReady sc") (auto simp: session_inv_def streams_ok_def)
  ultimately show ?thesis
    using dispatchFrame_goes [OF assms] assms(2) by (auto simp: processFrame_def go_close_def)
qed

lemma handleError_goes:
  assumes "env_ok env" "session_inv sc"
  shows "goes sc (handleError env err sc)"
  using goes_return [OF resetStream_follows [OF assms]] goes_return [OF goAway_follows [OF assms]] assms(2)
  unfolding handleError_def by (auto split: go_error.split simp del: safely_bindE)

definition result_ok :: "readFrameResult \<Rightarrow> bool" where
  "result_ok res = (case res of Inl _ \<Rightarrow> True | Inr f \<Rightarrow> frame_ok f)"

lemma processFrameFromReader_goes:
  assumes "env_ok env" "session_inv sc" "result_ok res"
  shows "goes sc (processFrameFromReader env res sc)"
proof (cases res)
  case (Inl err)
  then show ?thesis
    using goes_return [OF goAway_follows [OF assms(1,2)]] handleError_goes [OF assms(1,2)] assms(2)
    by (auto simp: processFrameFromReader_def simp del: safely_bindE)
next
  case (Inr f)
  have "frame_ok f" using assms(3) Inr by (simp add: result_ok_def)
  from processFrame_goes [OF assms(1,2) this]
  have "goes sc (bindE (processFrame env f sc)
      (\<lambda>(err, sc1). case err of None \<Rightarrow> Inr (True, sc1) | Some e \<Rightarrow> handleError env e sc1))"
  proof (rule goes_bind2)
    fix r sc1 assume "follows sc sc1"
    from handleError_goes [OF assms(1) followsD [OF this]] followsD [OF this]
    show "goes sc1 (case (r, sc1) of (err, sc1) \<Rightarrow> case err of None \<Rightarrow> Inr (True, sc1) | Some e \<Rightarrow> handleError env e sc1)"
      by (auto split: option.split)
  qed
  then show ?thesis using Inr by (simp add: processFrameFromReader_def del: safely_bindE)
qed

subsection \<open>Turns of the serve loop\<close>

text \<open>What other goroutines send: DATA with its stream, and the number of bytes that a Read returned.\<close>

fun event_ok :: "serve_event \<Rightarrow> bool" where
  "event_ok (EvWantWrite wr) = request_ok wr"
| "event_ok (EvReadFrame res) = result_ok res"
| "event_ok (EvBodyRead i n) = (0 \<le> n)"
| "event_ok _ = True"

lemma writeFrameAsync_follows:
  assumes env: "env_ok env" and inv: "session_inv sc"
  shows "safely (follows sc) (writeFrameAsync env sc)"
proof (cases "sc_async sc")
  case (Some wr)
  then have w: "sc_writingFrame sc" using session_invD(6,7) [OF inv] by simp
  have "safely (follows sc) (wroteFrame env (schedule env) wr err (sc\<lparr>sc_wire := c, sc_async := None\<rparr>))" for err c
  proof -
    let ?sc1 = "sc\<lparr>sc_wire := c, sc_async := None\<rparr>"
    let ?sc2 = "?sc1\<lparr>sc_writingFrame := False, sc_writingFrameAsync := False\<rparr>"
    have 2: "follows sc ?sc2" using inv by (simp add: follows_def session_defs)
    from safely_follows [OF session.wroteFrame_keeps [OF env _ TrueI followsD [OF 2]], of wr err] w
    show ?thesis by (intro follows_then [OF 2]) simp
  qed
  then show ?thesis
    using Some writeFrame_may_panic
    by (cases "wr_write wr"; cases "writeFrame (se_header env) (se_ctx env) (the (wr_write wr)) (sc_wire sc)")
      (auto simp: writeFrameAsync_def write_wire_def simp del: scheduleFrameWrite.simps One_nat_def)
qed (use inv in \<open>simp add: writeFrameAsync_def\<close>)

lemma serve_select_goes:
  assumes env: "env_ok env" and inv: "session_inv sc" and "event_ok ev"
  shows "goes sc (serve_select env ev sc)"
proof -
  note ret = goes_return [where r = True]
  show ?thesis
  proof (cases ev)
    case (EvWantWrite wr)
    then show ?thesis
      using ret [OF writeFrame_follows [OF env inv, of wr]] ret [OF resetStream_follows [OF env inv]] assms(3)
      by (simp del: safely_bindE split: option.split writeFramer.split)
  next
    case (EvCreateStream p h e)
    have "goes sc (bindE (createStream env p h e sc) (\<lambda>(_, sc1). Inr (True, sc1)))"
      by (rule goes_bind2 [OF createStream_goes [OF env inv]]) (auto dest: followsD)
    then show ?thesis using EvCreateStream by (simp del: safely_bindE)
  next
    case (EvReadFrame res)
    then show ?thesis using processFrameFromReader_goes [OF env inv, of res] assms(3) by simp
  qed (use inv assms(3) ret [OF writeFrameAsync_follows [OF env inv]] ret [OF noteBodyRead_follows [OF env inv]]
      ret [OF goAway_follows [OF env inv]] in \<open>simp_all add: startGracefulShutdownInternal_def del: safely_bindE\<close>)
qed

lemma serve_step_goes:
  assumes "env_ok env" "session_inv sc" "event_ok ev"
  shows "goes sc (serve_step env ev sc)"
  unfolding serve_step_def
  using serve_select_goes [OF assms]
proof (rule goes_bind2)
  fix keep sc1 assume "follows sc sc1"
  from followsD [OF this] show "goes sc1 (case (keep, sc1) of (keep, sc1) \<Rightarrow>
      Inr (keep, if keep then afterTurn sc1 else sc1))"
    using follows_fields(13) by (auto simp: afterTurn_def shutDownIn_def Let_def)
qed

lemma serve_loop_goes:
  assumes "env_ok env" "session_inv sc" "\<forall>ev \<in> set evs. event_ok ev"
  shows "goes sc (serve_loop env evs sc)"
  using assms(2,3)
proof (induction evs arbitrary: sc)
  case (Cons ev evs)
  have "goes sc (bindE (serve_step env ev sc) (\<lambda>(keep, sc1). if keep then serve_loop env evs sc1 else Inr (False, sc1)))"
    using serve_step_goes [OF assms(1) Cons.prems(1)] Cons.prems(2)
    by (intro goes_bind2) (auto intro: Cons.IH dest: followsD)
  then show ?case by (simp del: safely_bindE)
qed simp

subsection \<open>The start and the end of the loop\<close>

lemma announce_follows:
  assumes "env_ok env" "session_inv sc"
  shows "safely (follows sc) (announce env sc)"
proof -
  have "request_ok (request (WriteSettings (firstSettings sc)) None)" by (simp add: request_ok_def DataSize_def)
  from writeFrame_follows [OF assms this] show ?thesis
    unfolding announce_def
  proof (rule follows_bind)
    fix sc1 assume "follows sc sc1"
    let ?sc2 = "sc1\<lparr>sc_unackedSettings := sc_unackedSettings sc1 + 1\<rparr>"
    let ?diff = "available (sc_inflow ?sc2) ConnFlow - defaultWindowSize"
    have 2: "follows sc1 ?sc2" by (rule follows_fields(4) [OF followsD [OF \<open>follows sc sc1\<close>]])
    have "safely (follows ?sc2) (if 0 <s ?diff then sendWindowUpdate (schedule env) None (sint ?diff) ?sc2 else Inr ?sc2)"
      using sendWindowUpdate_follows [OF assms(1) followsD [OF 2], of "sint ?diff"] followsD [OF 2]
      by (simp add: word_sless_alt)
    from follows_then [OF 2 this] show "safely (follows sc1) (let sc2 = ?sc2; diff = available (sc_inflow sc2) ConnFlow - defaultWindowSize
       in if 0 <s diff then sendWindowUpdate (schedule env) None (sint diff) sc2 else Inr sc2)"
      by (simp only: Let_def)
  qed
qed

lemma greet_wire: "snd (greet env greeting sc) = sc\<lparr>sc_wire := sc_wire (snd (greet env greeting sc))\<rparr>"
  by (simp add: greet_def Let_def split_def)

lemma serve_start_goes:
  assumes "env_ok env" "session_inv sc"
  shows "goes sc (serve_start env greeting sc)"
proof (cases "greet env greeting sc")
  case (Pair ok sc1)
  then have "sc1 = sc\<lparr>sc_wire := sc_wire sc1\<rparr>" using greet_wire [of env greeting sc] by simp
  then have 1: "follows sc sc1" using follows_fields(2) [OF assms(2)] by metis
  from goes_return [OF follows_then [OF 1 announce_follows [OF assms(1) followsD [OF 1]]], of True] 1
  show ?thesis using Pair by (simp add: serve_start_def split: bool.split del: safely_bindE)
qed

text \<open>A stream that \<open>closeStream\<close> has closed is closed for good: its \<open>cw\<close> is closed too.\<close>

lemma go_close_Inr [simp]: "go_close c = Inr c' \<longleftrightarrow> c = ChanOpen \<and> c' = ChanClosed"
  by (cases c) (auto simp: go_close_def)

lemma closeStream_result:
  assumes "closeStream env sched i err sc = Inr sc'"
  obtains sc2 where "sendWindowUpdate sched None (pipe_Len (body_ops env) (st_body (sc_objs (dropStream i sc) i)))
      (dropStream i sc) = Inr sc2" "state_of sc' i = state_of sc2 i" "st_cw (sc_objs sc' i) = ChanClosed"
  using assms by (auto simp: closeStream_def Let_def split: if_splits)

lemma safely_result: "safely P r \<Longrightarrow> (\<And>x. r = Inr x \<Longrightarrow> P x \<Longrightarrow> Q x) \<Longrightarrow> safely Q r"
  by (cases r) simp_all

lemma closeStream_closes:
  assumes env: "env_ok env" and inv: "session_inv sc" and "i \<in> set (sc_streams sc)"
  shows "safely (\<lambda>sc'. follows sc sc' \<and> state_of sc' i = StateClosed \<and> st_cw (sc_objs sc' i) = ChanClosed \<and>
    set (sc_streams sc') \<subseteq> set (sc_streams sc) - {i}) (closeStream env (schedule env) i err sc)"
  using session.closeStream_keeps [OF env inv TrueI, of i err]
proof (rule safely_result)
  fix sc' assume close: "closeStream env (schedule env) i err sc = Inr sc'" and k: "keeps 0 sc sc'"
  let ?sc1 = "dropStream i sc"
  have 1: "session_inv ?sc1" "state_of ?sc1 i = StateClosed"
    using dropStream_keeps(1) [OF inv assms(3)] by (simp_all add: dropStream_def Let_def)
  have len: "0 \<le> pipe_Len (body_ops env) (st_body (sc_objs ?sc1 i))"
    by (rule body_Len_nonneg [OF session_invD(5) [OF 1(1)]])
  obtain sc2 where 2: "sendWindowUpdate (schedule env) None (pipe_Len (body_ops env) (st_body (sc_objs ?sc1 i))) ?sc1 = Inr sc2"
      "state_of sc' i = state_of sc2 i" "st_cw (sc_objs sc' i) = ChanClosed"
    using closeStream_result [OF close] .
  have "follows ?sc1 sc2" using sendWindowUpdate_follows [OF env 1(1) len, of None] 2(1) by simp
  then have "settled (sc_objs sc2 i) = settled (sc_objs ?sc1 i)" using 1(2) by (simp add: follows_def)
  then have c: "state_of sc' i = StateClosed" using 1(2) 2(2) settled_closed by metis
  moreover have "i \<notin> set (sc_streams sc')" using session_invD(4) [OF keepsD(1) [OF k], of i] c by simp
  ultimately show "follows sc sc' \<and> state_of sc' i = StateClosed \<and> st_cw (sc_objs sc' i) = ChanClosed \<and>
      set (sc_streams sc') \<subseteq> set (sc_streams sc) - {i}"
    using keeps_follows [OF k] keepsD(2) [OF k] 2(3) by (auto simp: stays_def)
qed

lemma closeEach_closes:
  assumes "env_ok env" "session_inv sc"
  shows "safely (\<lambda>sc'. follows sc sc' \<and> set (sc_streams sc') \<subseteq> set (sc_streams sc) - set is) (closeEach env is sc)"
  using assms(2)
proof (induction "is" arbitrary: sc)
  case (Cons i "is")
  have "safely (\<lambda>sc1. follows sc sc1 \<and> set (sc_streams sc1) \<subseteq> set (sc_streams sc) - {i})
      (if i \<in> set (sc_streams sc) then closeStream env (schedule env) i errDisconnected sc else Inr sc)"
    using closeStream_closes [OF assms(1) Cons.prems, of i errDisconnected] Cons.prems
    by (auto elim!: safely_mono simp del: scheduleFrameWrite.simps One_nat_def)
  then have "safely (\<lambda>sc1. safely (\<lambda>sc'. follows sc sc' \<and> set (sc_streams sc') \<subseteq> set (sc_streams sc) - set (i # is))
      (closeEach env is sc1)) (if i \<in> set (sc_streams sc) then closeStream env (schedule env) i errDisconnected sc else Inr sc)"
  proof (rule safely_mono)
    fix sc1 assume 1: "follows sc sc1 \<and> set (sc_streams sc1) \<subseteq> set (sc_streams sc) - {i}"
    then have "session_inv sc1" using followsD by blast
    from Cons.IH [OF this] show "safely (\<lambda>sc'. follows sc sc' \<and>
        set (sc_streams sc') \<subseteq> set (sc_streams sc) - set (i # is)) (closeEach env is sc1)"
      by (rule safely_mono) (use 1 follows_trans in fastforce)
  qed
  then show ?case by simp
qed simp

lemma serve_end_closes:
  assumes "env_ok env" "session_inv sc" "sc_doneServing sc = ChanOpen"
  shows "safely (\<lambda>sc'. follows (sc\<lparr>sc_doneServing := ChanClosed\<rparr>) sc' \<and> session_inv sc' \<and> sc_doneServing sc' = ChanClosed \<and> sc_streams sc' = []) (serve_end env sc)"
proof -
  let ?sc1 = "sc\<lparr>sc_doneServing := ChanClosed\<rparr>"
  have "session_inv ?sc1" using assms(2) by (simp add: session_defs)
  from closeEach_closes [OF assms(1) this, of "se_range env (sc_streams sc)"]
  have "safely (\<lambda>sc'. follows ?sc1 sc' \<and> session_inv sc' \<and> sc_doneServing sc' = ChanClosed \<and> sc_streams sc' = [])
      (closeEach env (se_range env (sc_streams sc)) ?sc1)"
  proof (rule safely_mono)
    fix sc' assume s: "follows ?sc1 sc' \<and> set (sc_streams sc') \<subseteq> set (sc_streams ?sc1) - set (se_range env (sc_streams sc))"
    have "mset (se_range env (sc_streams sc)) = mset (sc_streams sc)" using assms(1) by (simp add: env_ok_def)
    then have "set (se_range env (sc_streams sc)) = set (sc_streams sc)" by (rule mset_eq_setD)
    with s show "follows ?sc1 sc' \<and> session_inv sc' \<and> sc_doneServing sc' = ChanClosed \<and> sc_streams sc' = []"
      by (auto simp: follows_def)
  qed
  then show ?thesis
    using assms(3) by (simp add: serve_end_def go_close_def stopShutdownTimer_def closeAllStreamsOnConnClose_def)
qed

subsection \<open>Serve\<close>

lemma sessionFlow_linked [simp]: "linked (sessionFlow n) i"
  by (simp add: sessionFlow_def) (simp add: linked_def zeroFlow_def)

lemma newSession_inv:
  assumes "0 < sint (cfg_MaxFrameSize cfg)"
  shows "session_inv (newSession wire server cfg)"
proof -
  have "run_inv (NewPriorityWriteScheduler None, sessionFlow n)" for n
    by (rule New_run_inv) (rule sessionFlow_linked)
  then show ?thesis
    using assms by (simp add: newSession_def session_defs isPushed_def)
qed

lemma bindE_assoc: "bindE (bindE m f) g = bindE m (\<lambda>x. bindE (f x) g)"
  by (cases m) simp_all

lemma Serve_eq: "Serve env handler greeting evs sc =
    bindE (bindE (serve_start env greeting (sc\<lparr>sc_handler := handler\<rparr>)) (\<lambda>(ok, sc1).
      if ok then serve_loop env evs sc1 else Inr (False, sc1))) (\<lambda>(keep, sc2).
       if keep then Inr (True, sc2) else bindE (serve_end env sc2) (\<lambda>sc3. Inr (False, sc3)))"
  by (simp add: Serve_def split_def bindE_assoc)

lemma serve_run_goes:
  assumes env: "env_ok env" and "session_inv sc" "\<forall>ev \<in> set evs. event_ok ev"
  shows "goes sc (bindE (serve_start env greeting (sc\<lparr>sc_handler := handler\<rparr>)) (\<lambda>(ok, sc1).
      if ok then serve_loop env evs sc1 else Inr (False, sc1)))"
proof -
  have 0: "follows sc (sc\<lparr>sc_handler := handler\<rparr>)" by (rule follows_fields(15) [OF assms(2)])
  show ?thesis
    by (rule goes_then [OF 0], rule goes_bind2 [OF serve_start_goes [OF env followsD [OF 0]]])
      (auto intro: serve_loop_goes [OF env followsD assms(3)] dest: followsD)
qed

lemma Serve_running:
  assumes "env_ok env" "session_inv sc" "\<forall>ev \<in> set evs. event_ok ev"
    and "Serve env handler greeting evs sc = Inr (True, sc')"
  shows "follows sc sc'"
proof -
  let ?m = "bindE (serve_start env greeting (sc\<lparr>sc_handler := handler\<rparr>)) (\<lambda>(ok, sc1).
      if ok then serve_loop env evs sc1 else Inr (False, sc1))"
  obtain r where m: "?m = Inr r" and r: "(case r of (keep, sc2) \<Rightarrow>
      if keep then Inr (True, sc2) else bindE (serve_end env sc2) (\<lambda>sc3. Inr (False, sc3))) = Inr (True, sc')"
    using assms(4) unfolding Serve_eq bindE_eq_Inr_iff [of ?m] by blast
  have "r = (True, sc')" using r by (cases r) (auto split: if_splits)
  with serve_run_goes [OF assms(1-3), of greeting handler] show ?thesis unfolding m by simp
qed

lemma Serve_goes:
  fixes sc :: "'c Session"
  assumes env: "env_ok env" and inv: "session_inv sc" and "sc_doneServing sc = ChanOpen" "\<forall>ev \<in> set evs. event_ok ev"
  shows "safely (\<lambda>(running, sc'). session_inv sc' \<and>
      (if running then sc_doneServing sc' = ChanOpen else sc_doneServing sc' = ChanClosed \<and> sc_streams sc' = []))
    (Serve env handler greeting evs sc)"
proof -
  have stop: "safely (\<lambda>(running, sc'). session_inv sc' \<and>
      (if running then sc_doneServing sc' = ChanOpen else sc_doneServing sc' = ChanClosed \<and> sc_streams sc' = []))
      (if keep then Inr (True, sc2) else bindE (serve_end env sc2) (\<lambda>sc3. Inr (False, sc3)))"
    if "follows sc sc2" for keep and sc2 :: "'c Session"
    using serve_end_closes [OF env followsD [OF that]] that assms(3)
    by (auto simp: follows_def elim: safely_mono)
  show ?thesis
    unfolding Serve_eq by (subst safely_bindE, rule safely_mono [OF serve_run_goes [OF env inv assms(4)]])
      (simp only: split_paired_all prod.case, rule stop)
qed

end
