(* ===== verification/SessionProps.thy ===== *)
theory SessionProps
  imports SessionTurns
begin

text \<open>
  The properties of the session: what \<open>Serve\<close> guarantees for every sequence of events, that the schedule
  loop ends and leaves nothing behind, how identifiers are given out, what SETTINGS and DATA do to the
  windows, and the ways in which the code departs from what it means to do.
\<close>

subsection \<open>An environment\<close>

text \<open>A connection that records the frames, with room for 4096 bytes in its buffer, for the witnesses.\<close>

definition demo_env :: "wire_log session_env" where
  "demo_env =
     \<lparr>se_ctx = log_context, se_header = plain_env, se_Available = (\<lambda>c. 4096 - int (wl_buffered c)),
      se_SetMaxDynamicTableSize = (\<lambda>_ c. c), se_sort = insertionSort, se_chunks = newChunk,
      se_Valid = (\<lambda>(i, v). if (i = SettingMaxFrameSize \<or> i = SettingInitialWindowSize) \<and> \<not> 0 <s v
                           then Some (ConnectionError ErrCodeProtocol) else None),
      se_CanonicalKey = id, se_range = id, se_ClientPreface = [80, 82, 73],
      se_bwWrite = (\<lambda>_ c. (None, c)), se_GOOS = ''linux'', se_ErrorText = (\<lambda>_. ''error'')\<rparr>"

lemma demo_env_ok: "env_ok demo_env"
  using insertionSort_ok fresh_pool.chunk_pool_axioms
  by (simp add: env_ok_def demo_env_def word_sless_alt)

abbreviation new_client :: "wire_log Session" where
  "new_client \<equiv> NewClientSession empty_log None"

lemma new_client_inv: "session_inv new_client"
  unfolding NewClientSession_def
  by (rule newSession_inv) (simp add: DefaultSessionConfig_def http2MaxFrameLen_def)

subsection \<open>Runs\<close>


text \<open>A client that opens a stream, gets the peer's SETTINGS and loses the connection.\<close>

definition demo_run :: "serve_event list" where
  "demo_run = [EvCreateStream 0 [(''k'', [''v''])] False, EvWroteFrame,
     EvReadFrame (Inr (SettingsFrame False [(SettingInitialWindowSize, 100)])), EvReadFrame (Inl IoEOF)]"

lemma demo_run_ok: "\<forall>ev \<in> set demo_run. event_ok ev"
  by (simp add: demo_run_def result_ok_def)


text \<open>The state of a stream in terms of the objects.\<close>

lemma mod2_parity: "(i :: u32) mod 2 = 1 \<longleftrightarrow> \<not> isPushed i"
  using odd_iff_mod_2_eq_one [of i] even_iff_mod_2_eq_zero [of i] unfolding isPushed_def by metis

lemma Session_state_alt:
  assumes "session_inv sc"
  shows "fst (Session_state i sc) =
    (if live (state_of sc i) then state_of sc i else if i \<le> maxID i sc then StateClosed else StateIdle)"
  using session_invD(4) [OF assms, of i] unfolding Session_state_def mod2_parity
  by (auto simp: highest_def)

lemma closed_stays:
  assumes "session_inv sc" "follows sc sc'" "fst (Session_state i sc) = StateClosed"
  shows "fst (Session_state i sc') = StateClosed"
proof -
  have "\<not> live (state_of sc i)" "i \<le> maxID i sc"
    using assms(3) unfolding Session_state_alt [OF assms(1)] by (auto split: if_splits)
  moreover from this have "\<not> live (state_of sc' i)" "i \<le> maxID i sc'"
    using assms(2) highest_mono by (auto simp: follows_def)
  ultimately show ?thesis by (simp add: Session_state_alt [OF followsD [OF assms(2)]])
qed

lemma serve_loop_append: "serve_loop env (xs @ ys) sc =
    bindE (serve_loop env xs sc) (\<lambda>(keep, sc1). if keep then serve_loop env ys sc1 else Inr (False, sc1))"
proof (induction xs arbitrary: sc)
  case (Cons ev xs)
  have *: "bindE (if k then serve_loop env xs s else Inr (False, s)) (\<lambda>(keep, sc1). if keep then serve_loop env ys sc1 else Inr (False, sc1)) =
      (if k then serve_loop env (xs @ ys) s else Inr (False, s))" for k s
    by (simp add: Cons.IH)
  show ?case by (simp add: bindE_assoc split_def) (simp add: * [unfolded split_def])
qed simp

lemma Serve_append:
  assumes "Serve env h g evs sc = Inr (True, sc1)"
  shows "Serve env h g (evs @ evs') sc = bindE (serve_loop env evs' sc1) (\<lambda>(keep, sc2).
    if keep then Inr (True, sc2) else bindE (serve_end env sc2) (\<lambda>sc3. Inr (False, sc3)))"
proof -
  obtain sc0 where "serve_start env g (sc\<lparr>sc_handler := h\<rparr>) = Inr (True, sc0)" "serve_loop env evs sc0 = Inr (True, sc1)"
    using assms by (auto simp: Serve_def split: prod.splits if_splits)
  then show ?thesis by (simp add: Serve_def serve_loop_append)
qed

text \<open>C3: an identifier is never used twice. Once a stream is closed in the sense of RFC 7540 section 5.1
  (it has been closed, or skipped by a higher identifier), it is closed after every continuation of the run,
  the end of \<open>Serve\<close> included.\<close>

theorem stream_ids_not_reused:
  assumes "env_ok env" and "0 < sint (cfg_MaxFrameSize cfg)" and "\<forall>ev \<in> set (evs @ evs'). event_ok ev"
    and "Serve env handler greeting evs (newSession wire server cfg) = Inr (True, sc)"
    and "Serve env handler greeting (evs @ evs') (newSession wire server cfg) = Inr (running, sc')"
    and "fst (Session_state i sc) = StateClosed"
  shows "fst (Session_state i sc') = StateClosed"
proof -
  have inv: "session_inv sc" "sc_doneServing sc = ChanOpen"
    using Serve_goes [OF assms(1) newSession_inv [OF assms(2)], where evs = evs and handler = handler and greeting = greeting and
        wire1 = wire and server1 = server] assms(3,4)
    by (simp_all add: newSession_def)
  obtain keep sc2 where loop: "serve_loop env evs' sc = Inr (keep, sc2)"
      and fin: "(if keep then Inr (True, sc2) else bindE (serve_end env sc2) (\<lambda>sc3. Inr (False, sc3))) = Inr (running, sc')"
    using assms(5) unfolding Serve_append [OF assms(4)] by auto
  have f: "follows sc sc2" using serve_loop_goes [OF assms(1) inv(1), of evs'] assms(3) loop by simp
  from closed_stays [OF inv(1) f assms(6)] have 2: "fst (Session_state i sc2) = StateClosed" .
  show ?thesis
  proof (cases keep)
    case False
    then have "serve_end env sc2 = Inr sc'" using fin by simp
    moreover have "sc_doneServing sc2 = ChanOpen" using f inv(2) by (simp add: follows_def)
    ultimately have "follows (sc2\<lparr>sc_doneServing := ChanClosed\<rparr>) sc'"
      using serve_end_closes [OF assms(1) followsD [OF f]] by simp
    moreover have "session_inv (sc2\<lparr>sc_doneServing := ChanClosed\<rparr>)" using followsD [OF f] by (simp add: session_defs)
    moreover have "Session_state i (sc2\<lparr>sc_doneServing := ChanClosed\<rparr>) = Session_state i sc2"
      by (simp add: Session_state_def)
    then have "fst (Session_state i (sc2\<lparr>sc_doneServing := ChanClosed\<rparr>)) = StateClosed" using 2 by simp
    ultimately show ?thesis using closed_stays by blast
  qed (use 2 fin in simp)
qed


text \<open>The peer resets stream 1, which the client has opened; the client then opens stream 3.\<close>

definition reset_run :: "serve_event list" where
  "reset_run = [EvCreateStream 0 [(''k'', [''v''])] False, EvReadFrame (Inr (SettingsFrame False [])),
     EvReadFrame (Inr (RSTStreamFrame 1 0))]"

definition open_run :: "serve_event list" where
  "open_run = [EvCreateStream 0 [(''k'', [''v''])] False]"

lemma still_running [simp]: "(case r of Inr (True, x) \<Rightarrow> P x | _ \<Rightarrow> False) \<longleftrightarrow> (\<exists>x. r = Inr (True, x) \<and> P x)"
  by (auto split: sum.splits prod.splits bool.splits)

lemma reset_run_closed:
  "case Serve demo_env True (Inr []) reset_run (newSession empty_log False DefaultSessionConfig) of
     Inr (True, sc) \<Rightarrow> fst (Session_state 1 sc) = StateClosed \<and>
       (case serve_loop demo_env open_run sc of Inr (True, sc') \<Rightarrow> sc_streams sc' = [3] | _ \<Rightarrow> False)
   | _ \<Rightarrow> False"
  by code_simp

theorem stream_ids_not_reused_witness:
  "\<exists>sc'. Serve demo_env True (Inr []) (reset_run @ open_run) (newSession empty_log False DefaultSessionConfig) = Inr (True, sc') \<and>
    sc_streams sc' = [3] \<and> fst (Session_state 1 sc') = StateClosed"
proof -
  obtain sc sc' where run: "Serve demo_env True (Inr []) reset_run (newSession empty_log False DefaultSessionConfig) = Inr (True, sc)"
      "fst (Session_state 1 sc) = StateClosed" "serve_loop demo_env open_run sc = Inr (True, sc')" "sc_streams sc' = [3]"
    using reset_run_closed by auto
  have all: "Serve demo_env True (Inr []) (reset_run @ open_run) (newSession empty_log False DefaultSessionConfig) = Inr (True, sc')"
    using Serve_append [OF run(1), of open_run] run(3) by simp
  have "\<forall>ev \<in> set (reset_run @ open_run). event_ok ev" by (simp add: reset_run_def open_run_def result_ok_def)
  from stream_ids_not_reused [OF demo_env_ok _ this run(1) all run(2)] all run(4) show ?thesis
    by (simp add: DefaultSessionConfig_def http2MaxFrameLen_def)
qed

subsection \<open>Answers and queues have the shape their users rely on\<close>

text \<open>C14: after every run of \<open>Serve\<close>, what the handlers take from the session is well-formed. \<open>state\<close> returns a
  stream exactly with the states of a stream that is alive, it is the stream that was asked for, and without a
  stream the state is idle or closed; so no handler that has looked at the state uses a nil stream. DATA is queued only
  on the node of its own stream, never on that of the connection.\<close>

theorem Serve_well_typed:
  assumes "env_ok env" and "0 < sint (cfg_MaxFrameSize cfg)" and "\<forall>ev \<in> set evs. event_ok ev"
    and "Serve env handler greeting evs (newSession wire server cfg) = Inr (running, sc)"
  shows "(case Session_state i sc of
      (state, Some j) \<Rightarrow> j = i \<and> i \<noteq> 0 \<and> state \<in> {StateOpen, StateHalfClosedLocal, StateHalfClosedRemote}
    | (state, None) \<Rightarrow> state \<in> {StateIdle, StateClosed} \<and> st_state (sc_objs sc i) \<in> {StateIdle, StateClosed}) \<and>
    (\<forall>a < ws_fresh (sc_writeSched sc). \<forall>wr \<in> set (n_q (ws_heap (sc_writeSched sc) a)).
       0 < DataSize wr \<longrightarrow> wr_stream wr = Some (n_id (ws_heap (sc_writeSched sc) a)) \<and> a \<noteq> wsRoot)"
proof -
  have "sc_doneServing (newSession wire server cfg) = ChanOpen" by (simp add: newSession_def)
  from Serve_goes [OF assms(1) newSession_inv [OF assms(2)] this assms(3), of handler greeting]
  have inv: "session_inv sc" using assms(4) by (simp split: sum.splits)
  have dead: "s \<in> {StateIdle, StateClosed} \<longleftrightarrow> \<not> live s" "s \<in> {StateOpen, StateHalfClosedLocal, StateHalfClosedRemote} \<longleftrightarrow> live s"
    for s by (cases s; simp)+
  have "case Session_state i sc of
      (state, Some j) \<Rightarrow> j = i \<and> i \<noteq> 0 \<and> live state
    | (state, None) \<Rightarrow> \<not> live state \<and> \<not> live (st_state (sc_objs sc i))"
    using session_invD(4,8) [OF inv, of i] live_simps(4) by (cases "state_of sc i = StateIdle") (auto simp: Session_state_def)
  moreover have "heap_ok (ws_heap (sc_writeSched sc)) (ws_fresh (sc_writeSched sc))"
    using run_inv_ws [OF session_invD(1) [OF inv]] by (simp add: ws_inv_def)
  then have "\<forall>a < ws_fresh (sc_writeSched sc). \<forall>wr \<in> set (n_q (ws_heap (sc_writeSched sc) a)).
      0 < DataSize wr \<longrightarrow> wr_stream wr = Some (n_id (ws_heap (sc_writeSched sc) a)) \<and> a \<noteq> wsRoot"
    using heap_okD(3,4) unfolding queue_ok_def by blast
  ultimately show ?thesis unfolding dead by blast
qed

text \<open>A client that has opened stream 1 and queued DATA on it, which waits behind its HEADERS.\<close>

definition data_run :: "serve_event list" where
  "data_run = [EvCreateStream 0 [(''k'', [''v''])] False, EvWantWrite (dataRequest 1 [1, 2] False 0)]"

lemma data_run_queued:
  "case Serve demo_env True (Inr []) data_run (newSession empty_log False DefaultSessionConfig) of
     Inr (True, sc) \<Rightarrow> Session_state 1 sc = (StateOpen, Some 1) \<and> 1 < ws_fresh (sc_writeSched sc) \<and>
       map DataSize (n_q (ws_heap (sc_writeSched sc) 1)) = [0, 2] | _ \<Rightarrow> False"
  by code_simp

theorem Serve_well_typed_witness:
  "\<exists>sc wr. Serve demo_env True (Inr []) data_run (newSession empty_log False DefaultSessionConfig) = Inr (True, sc) \<and>
    Session_state 1 sc = (StateOpen, Some 1) \<and> wr \<in> set (n_q (ws_heap (sc_writeSched sc) 1)) \<and>
    wr_stream wr = Some (n_id (ws_heap (sc_writeSched sc) 1))"
proof -
  obtain sc where run: "Serve demo_env True (Inr []) data_run (newSession empty_log False DefaultSessionConfig) = Inr (True, sc)"
      "Session_state 1 sc = (StateOpen, Some 1)" "1 < ws_fresh (sc_writeSched sc)"
      "map DataSize (n_q (ws_heap (sc_writeSched sc) 1)) = [0, 2]"
    using data_run_queued by auto
  then obtain wr where wr: "wr \<in> set (n_q (ws_heap (sc_writeSched sc) 1))" "0 < DataSize wr" by force
  have "\<forall>ev \<in> set data_run. event_ok ev" by (simp add: data_run_def dataRequest_def request_ok_def StreamID_def)
  from Serve_well_typed [OF demo_env_ok _ this run(1), of 1] run wr show ?thesis
    by (auto simp: DefaultSessionConfig_def http2MaxFrameLen_def)
qed

subsection \<open>The schedule loop\<close>

text \<open>Nothing is left that could be written: no GOAWAY, no acknowledgement, nothing in the buffer, and no
  frame of the scheduler, unless the connection is going away with an error.\<close>

definition nothing_to_write :: "'c Session \<Rightarrow> bool" where
  "nothing_to_write sc \<longleftrightarrow> \<not> sc_needToSendGoAway sc \<and> \<not> sc_needToSendSettingsAck sc \<and> \<not> sc_needsFrameFlush sc \<and>
     (sc_inGoAway sc \<and> sc_goAwayCode sc \<noteq> ErrCodeNo \<or>
      \<not> (\<exists>y. in_tree (sc_writeSched sc) y \<and> node_ready (sc_flow sc) (ws_heap (sc_writeSched sc) y)))"

lemma nextWrite_none:
  assumes "env_ok env" "session_inv sc" "nextWrite env sc = Inr (NextNone, sc1)"
  shows "nothing_to_write sc1"
proof (cases "sc_inGoAway sc \<and> sc_goAwayCode sc \<noteq> ErrCodeNo")
  case True
  then show ?thesis using assms(3) by (auto simp: nextWrite_def nothing_to_write_def split: if_splits)
next
  case False
  obtain wr ws fs where p: "Pop (se_sort env) (sc_maxFrameSize sc) (sc_writeSched sc) (sc_flow sc) = Inr ((wr, False), ws, fs)"
      and sc1: "sc1 = sc\<lparr>sc_writeSched := ws, sc_flow := fs\<rparr>"
      "\<not> sc_needToSendGoAway sc" "\<not> sc_needToSendSettingsAck sc" "\<not> sc_needsFrameFlush sc"
    using assms(3) False by (auto simp: nextWrite_def split: if_splits prod.splits)
  have "pop_inv (sc_writeSched sc) (sc_flow sc)" "sort_ok (se_sort env)" "0 < sint (sc_maxFrameSize sc)"
    using session_invD(1,2) [OF assms(2)] assms(1) by (simp_all add: run_inv_def env_ok_def)
  from Pop_none [OF this p] sc1 show ?thesis by (simp add: nothing_to_write_def)
qed

lemma scheduleLoop_done:
  assumes env: "env_ok env" and "session_inv sc" "sc_inFrameScheduleLoop sc"
    "scheduleLoop env (scheduleFrameWrite env 0) fuel sc = Inr sc'"
  shows "sc_writingFrameAsync sc' \<or> nothing_to_write sc'"
  using assms(2-)
proof (induction fuel arbitrary: sc)
  case (Suc fuel)
  show ?case
  proof (cases "sc_writingFrameAsync sc")
    case False
    then obtain nxt sc1 where n: "nextWrite env sc = Inr (nxt, sc1)" using Suc.prems(3) by auto
    have 1: "keeps 0 sc sc1" "sc_writingFrame sc1 = sc_writingFrame sc"
      using nextWrite_keeps [OF env Suc.prems(1)] n by auto
    have idle: "\<not> sc_writingFrame sc1" "sc_inFrameScheduleLoop sc1"
      using False session_invD(6) [OF Suc.prems(1)] 1(2) keeps_loop [OF 1(1)] Suc.prems(2) by simp_all
    show ?thesis
    proof (cases nxt)
      case (NextFrame wr)
      then obtain sc2 where 2: "startFrameWrite env (scheduleFrameWrite env 0) wr sc1 = Inr sc2"
          "scheduleLoop env (scheduleFrameWrite env 0) fuel sc2 = Inr sc'"
        using Suc.prems(3) False n by (auto simp del: scheduleFrameWrite.simps)
      have "keeps 0 sc1 sc2"
        using nested.startFrameWrite_keeps [OF env keepsD(1) [OF 1(1)] idle, of wr] 2(1)
        by (simp del: scheduleFrameWrite.simps)
      then show ?thesis using Suc.IH [OF keepsD(1) _ 2(2)] keeps_loop idle(2) by blast
    next
      case NextFlush
      then have "scheduleLoop env (scheduleFrameWrite env 0) fuel (sc1\<lparr>sc_writingFrame := True, sc_writingFrameAsync := True,
            sc_async := Some (request FlushFrameWriter None), sc_needsFrameFlush := False\<rparr>) = Inr sc'"
        using Suc.prems(3) False n nested.flush_started [OF idle(1)]
        by (simp del: scheduleFrameWrite.simps)
      then show ?thesis by (cases fuel) auto
    next
      case NextNone
      then show ?thesis using Suc.prems False n nextWrite_none [OF env] by simp
    qed
  qed (use Suc.prems in simp)
qed simp

lemma scheduleLoop_more:
  "scheduleLoop env s f sc \<noteq> Inl OutOfFuel \<Longrightarrow> scheduleLoop env s (f + k) sc = scheduleLoop env s f sc"
proof (induction f arbitrary: sc)
  case (Suc f)
  show ?case
  proof (cases "sc_writingFrameAsync sc")
    case False
    have IH: "bindE m (\<lambda>sc2. scheduleLoop env s (f + k) (g sc2)) = bindE m (\<lambda>sc2. scheduleLoop env s f (g sc2))"
      if "bindE m (\<lambda>sc2. scheduleLoop env s f (g sc2)) \<noteq> Inl OutOfFuel" for m and g :: "'a Session \<Rightarrow> 'a Session"
      using that Suc.IH by (cases m) auto
    show ?thesis
    proof (cases "nextWrite env sc")
      case (Inr r)
      obtain nxt sc1 where r: "r = (nxt, sc1)" by (cases r)
      show ?thesis
        using Suc.prems False Inr r IH [of "startFrameWrite env s _ sc1" id] IH [of _ "sc_needsFrameFlush_update (\<lambda>_. False)"]
        by (cases nxt) auto
    qed simp
  qed simp
qed simp

text \<open>C5: the schedule loop ends. From any session that satisfies the invariant, with no write in progress,
  \<open>scheduleFrameWrite\<close> does not run out of fuel, more fuel makes no difference, and when it returns either a
  goroutine is writing or nothing is left to write.\<close>

theorem scheduleFrameWrite_returns:
  assumes "env_ok env" and "session_inv sc" and "\<not> sc_writingFrame sc" and "\<not> sc_inFrameScheduleLoop sc"
  shows "schedule env sc \<noteq> Inl OutOfFuel \<and>
    (\<forall>k. scheduleLoop env (scheduleFrameWrite env 0) (schedule_fuel env sc + k) (sc\<lparr>sc_inFrameScheduleLoop := True\<rparr>) =
         scheduleLoop env (scheduleFrameWrite env 0) (schedule_fuel env sc) (sc\<lparr>sc_inFrameScheduleLoop := True\<rparr>)) \<and>
    (\<forall>sc'. schedule env sc = Inr sc' \<longrightarrow> sc_writingFrame sc' \<or> nothing_to_write sc')"
proof -
  let ?loop = "\<lambda>f. scheduleLoop env (scheduleFrameWrite env 0) f (sc\<lparr>sc_inFrameScheduleLoop := True\<rparr>)"
  have eq: "schedule env sc = bindE (?loop (schedule_fuel env sc)) (\<lambda>sc1. Inr (sc1\<lparr>sc_inFrameScheduleLoop := False\<rparr>))"
    using assms(3,4) by simp
  have no: "schedule env sc \<noteq> Inl OutOfFuel" using schedule_keeps [OF assms(1,2)] by auto
  moreover have "?loop (schedule_fuel env sc) \<noteq> Inl OutOfFuel"
  proof
    assume "?loop (schedule_fuel env sc) = Inl OutOfFuel"
    with no show False unfolding eq by simp
  qed
  moreover have "sc_writingFrame sc' \<or> nothing_to_write sc'" if s: "schedule env sc = Inr sc'" for sc'
  proof -
    obtain sc1 where 1: "?loop (schedule_fuel env sc) = Inr sc1" "sc' = sc1\<lparr>sc_inFrameScheduleLoop := False\<rparr>"
      using s unfolding eq by (auto simp del: scheduleFrameWrite.simps)
    have "session_inv sc'" using schedule_keeps [OF assms(1,2)] s by (auto dest: keepsD(1))
    from session_invD(6) [OF this] scheduleLoop_done [OF assms(1) _ _ 1(1)] 1(2) assms(2) show ?thesis
      by (simp add: nothing_to_write_def)
  qed
  ultimately show ?thesis using scheduleLoop_more by metis
qed

text \<open>A client with its first SETTINGS queued.\<close>

theorem scheduleFrameWrite_returns_witness:
  "schedule demo_env (new_client\<lparr>sc_needToSendSettingsAck := True\<rparr>) \<noteq> Inl OutOfFuel"
proof -
  have "session_inv (new_client\<lparr>sc_needToSendSettingsAck := True\<rparr>)"
    using followsD [OF follows_fields(3) [OF new_client_inv]] .
  from scheduleFrameWrite_returns [OF demo_env_ok this] show ?thesis
    by (simp add: NewClientSession_def newSession_def del: scheduleFrameWrite.simps)
qed

subsection \<open>Opening streams\<close>

lemma createStream_result:
  assumes "createStream env p h e sc = Inr (r, sc')"
  shows "(\<exists>err. r = Inl err \<and> err = ErrStreamLimitReached \<and>
      (sc_peerMaxStreams sc < ownCurStreams sc + 1 \<or> 2147483648 \<le> ownMaxStreamID sc + 2)) \<or>
    (\<exists>sc2. r = Inr (nextStreamID sc) \<and> ownCurStreams sc + 1 \<le> sc_peerMaxStreams sc \<and> ownMaxStreamID sc + 2 < 2147483648 \<and>
      newStream (nextStreamID sc) p (if e then StateHalfClosedRemote else StateOpen) (setOwnMaxStreamID (nextStreamID sc) sc) = Inr sc2 \<and>
      Session_writeFrame (schedule env)
        (request (WriteResHeaders (resHeaders (nextStreamID sc) 0 h e)) (Some (nextStreamID sc))) sc2 = Inr sc')"
  using assms by (auto simp: createStream_def Let_def not_le not_less split: if_splits)

lemma newStream_maxima:
  assumes "newStream i p st sc = Inr sc2"
  shows "sc_server sc2 = sc_server sc" "sc_maxClientStreamID sc2 = sc_maxClientStreamID sc"
    "sc_maxPushPromiseID sc2 = sc_maxPushPromiseID sc"
  using assms by (cases "isPushed i"; auto simp: newStream_def Let_def split: if_splits)+

text \<open>C16: \<open>createStream\<close> gives out identifiers as RFC 7540 section 5.1.1 wants them. It refuses only when the
  peer's limit of concurrent streams is reached or no identifier below \<open>2^31\<close> is left; the identifier that it
  gives out is above all earlier ones of this side, below \<open>2^31\<close>, odd for a client and even for a server, belongs
  to no stream yet, and becomes the highest.\<close>

theorem createStream_allocates:
  assumes "env_ok env" and "session_inv sc" and "createStream env p h e sc = Inr (r, sc')"
  shows "case r of
      Inl err \<Rightarrow> err = ErrStreamLimitReached \<and>
        (sc_peerMaxStreams sc < ownCurStreams sc + 1 \<or> 2147483648 \<le> ownMaxStreamID sc + 2)
    | Inr i \<Rightarrow> ownCurStreams sc + 1 \<le> sc_peerMaxStreams sc \<and> ownMaxStreamID sc < i \<and> i < 2147483648 \<and>
        (i mod 2 = 0 \<longleftrightarrow> sc_server sc) \<and> fst (Session_state i sc) = StateIdle \<and> ownMaxStreamID sc' = i"
proof (cases r)
  case (Inr i)
  let ?i = "nextStreamID sc" and ?st = "if e then StateHalfClosedRemote else StateOpen"
  obtain sc2 where c: "i = ?i" "ownCurStreams sc + 1 \<le> sc_peerMaxStreams sc" "ownMaxStreamID sc + 2 < 2147483648"
      "newStream ?i p ?st (setOwnMaxStreamID ?i sc) = Inr sc2"
      "Session_writeFrame (schedule env) (request (WriteResHeaders (resHeaders ?i 0 h e)) (Some ?i)) sc2 = Inr sc'"
    using createStream_result [OF assms(3)] Inr by auto
  have "ids_ok sc" using assms(2) by (simp add: session_inv_def)
  note i = nextStreamID_ok [OF this c(3)]
  note 1 = setOwnMaxStreamID_ok [OF assms(2) i]
  have "safely (follows sc) (newStream ?i p ?st (setOwnMaxStreamID ?i sc))"
    using newStream_follows [OF 1(1,4,2,3), of ?st p] by (auto elim: safely_mono)
  then have inv2: "session_inv sc2" unfolding c(4) safely_Inr by (rule followsD)
  have max2: "sc_server sc2 = sc_server sc" "ownMaxStreamID sc2 = ?i"
    using newStream_maxima [OF c(4)] by (simp_all add: setOwnMaxStreamID_def ownMaxStreamID_def)
  have "keeps 1 sc2 sc'"
    using session.writeFrame_keeps [OF assms(1) inv2 TrueI resHeaders_request_ok, of "resHeaders ?i 0 h e" "Some ?i"] c(5)
    by (simp add: atoms_def)
  then have "ownMaxStreamID sc' = ownMaxStreamID sc2" by (simp add: keeps_def stays_def config_def ownMaxStreamID_def)
  moreover have "\<not> live (state_of sc ?i)"
    using unused_above [OF assms(2) 1(4)] by simp
  ultimately show ?thesis
    using Inr c(1,2) i 1(4) max2(2) by (auto simp: Session_state_alt [OF assms(2)] isPushed_def)
qed (use createStream_result [OF assms(3)] in auto)

theorem createStream_allocates_witness:
  "\<exists>sc'. createStream demo_env 0 [(''k'', [''v''])] False new_client = Inr (Inr 1, sc') \<and> ownMaxStreamID sc' = 1"
proof -
  have "case createStream demo_env 0 [(''k'', [''v''])] False new_client of Inr (Inr i, _) \<Rightarrow> i = 1 | _ \<Rightarrow> False"
    by code_simp
  then obtain sc' where "createStream demo_env 0 [(''k'', [''v''])] False new_client = Inr (Inr 1, sc')"
    by (auto split: sum.splits)
  with createStream_allocates [OF demo_env_ok new_client_inv this] show ?thesis by auto
qed

subsection \<open>Windows\<close>

lemma growWindows_exact:
  assumes "distinct is" "\<forall>i \<in> set is. 0 \<le> sint (flow_n (fs (StreamFlow i)))" "growWindows g is fs = (ok, fs')"
  shows "(ok \<longleftrightarrow> (\<forall>i \<in> set is. sint (flow_n (fs (StreamFlow i))) + sint g \<le> 2147483647)) \<and>
    (ok \<longrightarrow> (\<forall>i \<in> set is. sint (flow_n (fs' (StreamFlow i))) = sint (flow_n (fs (StreamFlow i))) + sint g) \<and>
      (\<forall>p. p \<notin> StreamFlow ` set is \<longrightarrow> fs' p = fs p))"
  using assms
proof (induction "is" arbitrary: fs)
  case (Cons i "is")
  show ?case
  proof (cases "sint (flow_n (fs (StreamFlow i))) + sint g \<le> 2147483647")
    case True
    define fs1 where "fs1 = fs(StreamFlow i := (fs (StreamFlow i))\<lparr>flow_n := flow_n (fs (StreamFlow i)) + g\<rparr>)"
    have add: "flow_add (StreamFlow i) g fs = (True, fs1)"
      using True Cons.prems(2) by (simp add: flow_add_nonneg fs1_def)
    have same: "fs1 p = fs p" if "p \<noteq> StreamFlow i" for p using that by (simp add: fs1_def)
    have i: "i \<notin> set is" "distinct is" using Cons.prems(1) by simp_all
    have win: "fs1 (StreamFlow j) = fs (StreamFlow j)" if "j \<in> set is" for j
      using same [of "StreamFlow j"] that i(1) by (cases "j = i") simp_all
    have sum: "sint (flow_n (fs1 (StreamFlow i))) = sint (flow_n (fs (StreamFlow i))) + sint g"
      using True Cons.prems(2) by (simp add: fs1_def sint_flow_add)
    have "growWindows g is fs1 = (ok, fs')" using Cons.prems(3) add by simp
    moreover have "\<forall>j \<in> set is. 0 \<le> sint (flow_n (fs1 (StreamFlow j)))" using Cons.prems(2) win by simp
    ultimately have IH: "ok \<longleftrightarrow> (\<forall>j \<in> set is. sint (flow_n (fs (StreamFlow j))) + sint g \<le> 2147483647)"
        "ok \<Longrightarrow> \<forall>j \<in> set is. sint (flow_n (fs' (StreamFlow j))) = sint (flow_n (fs (StreamFlow j))) + sint g"
        "ok \<Longrightarrow> \<forall>p. p \<notin> StreamFlow ` set is \<longrightarrow> fs' p = fs1 p"
      using Cons.IH [OF i(2), of fs1] win by simp_all
    have "fs' (StreamFlow i) = fs1 (StreamFlow i)" if ok using IH(3) [OF that] i(1) by auto
    then show ?thesis using True sum IH(1,2) IH(3) same by auto
  next
    case False
    then have "flow_add (StreamFlow i) g fs = (False, fs)" using Cons.prems(2) by (simp add: flow_add_nonneg)
    then show ?thesis using Cons.prems(3) False by auto
  qed
qed simp


text \<open>A client with stream 1 open, and the windows of 65535 raised to 100000.\<close>

abbreviation one_stream :: "wire_log Session" where
  "one_stream \<equiv> new_client\<lparr>sc_objs := (\<lambda>_. newStreamObject StateIdle)(1 := newStreamObject StateOpen), sc_streams := [1],
     sc_curClientStreams := 1, sc_maxClientStreamID := 1\<rparr>"

lemma one_stream_inv: "session_inv one_stream"
  using new_client_inv session_invD [OF new_client_inv]
  by (auto simp: session_defs isPushed_def highest_def NewClientSession_def newSession_def)


subsection \<open>Receiving DATA\<close>

lemma body_appends:
  assumes "env_ok env" "pipe_inv db_inv p" "p_err p = None" "p_breakErr p = None"
  obtains p' where "pipe_Write (body_ops env) d p = Inr ((length d, None), p')" "pipe_inv db_inv p'"
    "pending unread p' = pending unread p @ d" "p_err p' = None" "p_breakErr p' = None"
proof -
  have q: "byte_queue (body_ops env) unread db_inv"
    using assms(1) chunk_pool.dataBuffer_queue by (auto simp: env_ok_def)
  obtain b where b: "p_b p = Some b" "db_inv b"
    using assms(2-4) by (auto simp: pipe_inv_def split: option.splits)
  obtain b' where b': "buf_Write (body_ops env) d b = Inr ((length d, None), b')" "db_inv b'" "unread b' = unread b @ d"
    using byte_queue.Write_appends [OF q b(2)] by blast
  have "pipe_Write (body_ops env) d p = Inr ((length d, None), p\<lparr>p_b := Some b'\<rparr>)"
    using assms(3,4) b(1) b'(1) by (simp add: pipe_Write_def)
  then show ?thesis
    using that [of "p\<lparr>p_b := Some b'\<rparr>"] assms(2-4) b b' by (simp add: pending_def pipe_inv_def)
qed

lemma body_ends:
  assumes "env_ok env" "pipe_inv db_inv p" "p_err p = None"
  obtains p' where "CloseWithError (Some e) p = Inr p'" "pending unread p' = pending unread p" "p_err p' = Some e"
proof -
  have q: "byte_queue (body_ops env) unread db_inv"
    using assms(1) chunk_pool.dataBuffer_queue by (auto simp: env_ok_def)
  show ?thesis
    using byte_queue.close_step [OF q assms(2), of "pipe_call.CallClose e"] assms(3) that by (auto simp: is_break_def)
qed

text \<open>What a DATA frame without padding does to its stream.\<close>

definition received :: "DataFr \<Rightarrow> 'c Session \<Rightarrow> 'c Session \<Rightarrow> bool" where
  "received f sc sc' \<longleftrightarrow>
     (let i = df_StreamID f; st = sc_objs sc i; st' = sc_objs sc' i; n = int (length (df_Data f))
      in pending unread (st_body st') = pending unread (st_body st) @ df_Data f \<and>
         p_err (st_body st') = (if df_StreamEnded f then Some IoEOF else None) \<and>
         st_state st' = (if df_StreamEnded f then StateHalfClosedRemote else StateOpen) \<and>
         st_bodyBytes st' = st_bodyBytes st + of_nat (length (df_Data f)) \<and>
         (\<forall>j. j \<noteq> i \<longrightarrow> sc_objs sc' j = sc_objs sc j) \<and>
         sint (flow_n (sc_inflow sc' ConnFlow)) = sint (flow_n (sc_inflow sc ConnFlow)) - n \<and>
         sint (flow_n (sc_inflow sc' (StreamFlow i))) = sint (flow_n (sc_inflow sc (StreamFlow i))) - n \<and>
         sc_wire sc' = sc_wire sc \<and> sc_writeSched sc' = sc_writeSched sc)"

lemma processData_open:
  assumes "session_inv sc" "\<not> (sc_inGoAway sc \<and> sc_goAwayCode sc \<noteq> ErrCodeNo)" "state_of sc (df_StreamID f) = StateOpen"
    "\<not> st_gotTrailerHeader (sc_objs sc (df_StreamID f))" "\<not> st_resetQueued (sc_objs sc (df_StreamID f))"
  shows "processData env f sc =
    bindE (if 0 < df_Length f then receiveData env f sc else Inr (None, sc)) (\<lambda>(err, sc1).
      if err \<noteq> None then Inr (err, sc1)
      else if df_StreamEnded f then bindE (endStream (df_StreamID f) sc1) (\<lambda>sc2. Inr (None, sc2)) else Inr (None, sc1))"
proof -
  have "df_StreamID f \<in> set (sc_streams sc)" "df_StreamID f \<noteq> 0"
    using session_invD(4,8) [OF assms(1), of "df_StreamID f"] assms(3) by simp_all
  then show ?thesis
    using assms(2-5) unfolding processData_def Session_state_def Let_def by (auto simp del: bindE_eq_Inr_iff)
qed

lemma receiveData_stores:
  assumes env: "env_ok env" and "pipe_inv db_inv (st_body (sc_objs sc (df_StreamID f)))"
    and "p_err (st_body (sc_objs sc (df_StreamID f))) = None" "p_breakErr (st_body (sc_objs sc (df_StreamID f))) = None"
    and "linked (sc_inflow sc) (df_StreamID f)" and "df_Data f \<noteq> []"
    and n: "sint (df_Length f) = int (length (df_Data f))" "df_Length f = of_nat (length (df_Data f))"
    and fits: "sint (df_Length f) \<le> sint (available (sc_inflow sc) (StreamFlow (df_StreamID f)))"
  obtains body where
    "receiveData env f sc = Inr (None, update_stream (df_StreamID f)
       (\<lambda>st. st_bodyBytes_update (\<lambda>n. n + of_nat (length (df_Data f))) (st\<lparr>st_body := body\<rparr>))
       (sc\<lparr>sc_inflow := sub_n ConnFlow (df_Length f) (sub_n (StreamFlow (df_StreamID f)) (df_Length f) (sc_inflow sc))\<rparr>))"
    "pipe_inv db_inv body" "pending unread body = pending unread (st_body (sc_objs sc (df_StreamID f))) @ df_Data f"
    "p_err body = None" "p_breakErr body = None"
proof -
  obtain body where w: "pipe_Write (body_ops env) (df_Data f) (st_body (sc_objs sc (df_StreamID f))) = Inr ((length (df_Data f), None), body)"
      "pipe_inv db_inv body" "pending unread body = pending unread (st_body (sc_objs sc (df_StreamID f))) @ df_Data f"
      "p_err body = None" "p_breakErr body = None"
    using body_appends [OF env assms(2-4)] .
  have "\<not> available (sc_inflow sc) (StreamFlow (df_StreamID f)) <s df_Length f" using fits by (simp add: word_sless_alt)
  then show ?thesis
    using w flow_take_stream [OF assms(5) fits] assms(6) n(2)
    by (intro that [OF _ w(2-5)])
      (simp add: receiveData_def storeData_def returnPadding_def Let_def, simp add: update_stream_def)
qed

lemma data_finishes:
  assumes "env_ok env" "pipe_inv db_inv (st_body (sc_objs sc1 (df_StreamID f)))" "p_err (st_body (sc_objs sc1 (df_StreamID f))) = None"
    and rc: "received (f\<lparr>df_StreamEnded := False\<rparr>) sc sc1"
  shows "\<exists>sc'. (if df_StreamEnded f then bindE (endStream (df_StreamID f) sc1) (\<lambda>sc2. Inr (None, sc2)) else Inr (None, sc1)) =
      Inr (None, sc') \<and> received f sc sc'"
proof (cases "df_StreamEnded f")
  case True
  obtain body where "CloseWithError (Some IoEOF) (st_body (sc_objs sc1 (df_StreamID f))) = Inr body"
      "pending unread body = pending unread (st_body (sc_objs sc1 (df_StreamID f)))" "p_err body = Some IoEOF"
    using body_ends [OF assms(1-3)] .
  then show ?thesis
    using True rc by (simp add: endStream_def received_def Let_def) (simp add: update_stream_def)
qed (use rc in \<open>simp add: received_def\<close>)

lemma receiveData_received:
  assumes env: "env_ok env" and inv: "pipe_inv db_inv (st_body (sc_objs sc (df_StreamID f)))"
    and "p_err (st_body (sc_objs sc (df_StreamID f))) = None" "p_breakErr (st_body (sc_objs sc (df_StreamID f))) = None"
    and "linked (sc_inflow sc) (df_StreamID f)" and "df_Data f \<noteq> []" and "st_state (sc_objs sc (df_StreamID f)) = StateOpen"
    and n: "sint (df_Length f) = int (length (df_Data f))" "df_Length f = of_nat (length (df_Data f))"
    and fits: "sint (df_Length f) \<le> sint (available (sc_inflow sc) (StreamFlow (df_StreamID f)))"
  shows "\<exists>sc1. receiveData env f sc = Inr (None, sc1) \<and> received (f\<lparr>df_StreamEnded := False\<rparr>) sc sc1 \<and>
    pipe_inv db_inv (st_body (sc_objs sc1 (df_StreamID f))) \<and> p_err (st_body (sc_objs sc1 (df_StreamID f))) = None"
proof -
  obtain body where r: "receiveData env f sc = Inr (None, update_stream (df_StreamID f)
       (\<lambda>st. st_bodyBytes_update (\<lambda>n. n + of_nat (length (df_Data f))) (st\<lparr>st_body := body\<rparr>))
       (sc\<lparr>sc_inflow := sub_n ConnFlow (df_Length f) (sub_n (StreamFlow (df_StreamID f)) (df_Length f) (sc_inflow sc))\<rparr>))"
      (is "_ = Inr (None, ?sc1)")
    "pipe_inv db_inv body" "pending unread body = pending unread (st_body (sc_objs sc (df_StreamID f))) @ df_Data f"
    "p_err body = None" "p_breakErr body = None"
    using receiveData_stores [OF assms(1-6) n fits] .
  note w = flow_n_take_stream(1,2) [OF assms(5) _ fits flow_take_stream [OF assms(5) fits], unfolded n(1), simplified]
  have "received (f\<lparr>df_StreamEnded := False\<rparr>) sc ?sc1"
    using r(2-5) assms(7) w by (simp add: received_def) (simp add: update_stream_def)
  then show ?thesis using r by simp
qed

text \<open>C9: DATA without padding on an open stream. When both receive windows cover it, the bytes are
  appended to the stream's body, both windows shrink by exactly their number, END_STREAM closes the body with
  io.EOF and half-closes the stream, no other stream is touched and nothing is sent; otherwise it is a stream error
  FLOW_CONTROL_ERROR and the session is unchanged.\<close>

theorem processData_accounts:
  assumes "env_ok env" and "session_inv sc" and "\<not> (sc_inGoAway sc \<and> sc_goAwayCode sc \<noteq> ErrCodeNo)"
    and "st_state (sc_objs sc (df_StreamID f)) = StateOpen"
    and "\<not> st_gotTrailerHeader (sc_objs sc (df_StreamID f))" and "\<not> st_resetQueued (sc_objs sc (df_StreamID f))"
    and "p_err (st_body (sc_objs sc (df_StreamID f))) = None" and "p_breakErr (st_body (sc_objs sc (df_StreamID f))) = None"
    and "linked (sc_inflow sc) (df_StreamID f)"
    and "length (df_Data f) < 2 ^ 31" and "df_Length f = of_nat (length (df_Data f))"
  shows "if df_Data f = [] \<or> int (length (df_Data f)) \<le>
        min (sint (flow_n (sc_inflow sc ConnFlow))) (sint (flow_n (sc_inflow sc (StreamFlow (df_StreamID f)))))
    then \<exists>sc'. processData env f sc = Inr (None, sc') \<and> received f sc sc'
    else processData env f sc = Inr (Some (streamError (df_StreamID f) ErrCodeFlowControl), sc)"
proof -
  let ?i = "df_StreamID f" and ?d = "df_Data f"
  have n: "sint (df_Length f) = int (length ?d)" "uint (df_Length f) = int (length ?d)"
    using assms(10,11) by (simp_all add: signed_of_nat signed32_eq_self unsigned_of_nat take_bit_nat_eq_self of_nat_take_bit)
  have avail: "sint (available (sc_inflow sc) (StreamFlow ?i)) =
      min (sint (flow_n (sc_inflow sc ConnFlow))) (sint (flow_n (sc_inflow sc (StreamFlow ?i))))"
    by (rule available_stream [OF assms(9)])
  have pos: "0 < df_Length f \<longleftrightarrow> ?d \<noteq> []" using n(2) by (simp add: word_less_def)
  have inv: "pipe_inv db_inv (st_body (sc_objs sc ?i))"
    using session_invD(5) [OF assms(2), of ?i] by (simp add: stream_chans_ok_def)
  note eq = processData_open [OF assms(2-6), of env, unfolded pos]
  consider "?d = []" | (fits) "?d \<noteq> []" "sint (df_Length f) \<le> sint (available (sc_inflow sc) (StreamFlow ?i))"
    | (big) "?d \<noteq> []" "\<not> sint (df_Length f) \<le> sint (available (sc_inflow sc) (StreamFlow ?i))" by blast
  then show ?thesis
  proof cases
    case 1
    then have "received (f\<lparr>df_StreamEnded := False\<rparr>) sc sc" using assms(4,7) by (simp add: received_def)
    from data_finishes [OF assms(1) inv assms(7) this] 1 show ?thesis unfolding eq by simp
  next
    case fits
    from receiveData_received [OF assms(1) inv assms(7-9) fits(1) assms(4) n(1) assms(11) fits(2)]
    obtain sc1 where r: "receiveData env f sc = Inr (None, sc1)" "received (f\<lparr>df_StreamEnded := False\<rparr>) sc sc1"
      "pipe_inv db_inv (st_body (sc_objs sc1 ?i))" "p_err (st_body (sc_objs sc1 ?i)) = None" by blast
    from data_finishes [OF assms(1) r(3,4,2)] fits r(1) show ?thesis unfolding eq avail n by simp
  next
    case big
    then have "receiveData env f sc = Inr (Some (streamError ?i ErrCodeFlowControl), sc)"
      by (simp add: receiveData_def Let_def word_sless_alt)
    then show ?thesis using big unfolding eq avail n by simp
  qed
qed

text \<open>Three bytes with END_STREAM.\<close>

theorem processData_accounts_witness:
  "\<exists>sc sc'. processData demo_env \<lparr>df_StreamID = 1, df_Data = [7, 8, 9], df_Length = 3, df_StreamEnded = True\<rparr> sc = Inr (None, sc') \<and>
    pending unread (st_body (sc_objs sc' 1)) = [7, 8, 9] \<and> st_state (sc_objs sc' 1) = StateHalfClosedRemote"
proof -
  define sc where "sc = one_stream\<lparr>sc_inflow := newStreamFlow 1 65535 (sessionFlow 65535)\<rparr>"
  let ?f = "\<lparr>df_StreamID = 1, df_Data = [7, 8, 9], df_Length = 3, df_StreamEnded = True\<rparr>"
  have inv: "session_inv sc" unfolding sc_def by (rule followsD [OF follows_fields(1) [OF one_stream_inv]])
  have l: "linked (sc_inflow sc) 1" by (simp add: sc_def linked_newStreamFlow)
  have "flow_n (sc_inflow sc ConnFlow) = 65535" "flow_n (sc_inflow sc (StreamFlow 1)) = 65535"
    by (simp_all add: sc_def newStreamFlow_def setConnFlow_def sessionFlow_def flow_add_def max_int32_def zeroFlow_def)
  moreover have "sc_objs sc 1 = newStreamObject StateOpen" "\<not> sc_inGoAway sc"
    by (simp_all add: sc_def NewClientSession_def newSession_def)
  ultimately have "\<exists>sc'. processData demo_env ?f sc = Inr (None, sc') \<and> received ?f sc sc'"
    using processData_accounts [OF demo_env_ok inv, of ?f] l by (simp add: newStreamObject_def newPipe_def)
  moreover have "pending unread (st_body (sc_objs sc 1)) = []"
    by (simp add: sc_def newStreamObject_def pending_def newPipe_def emptyBuffer_def unread_def)
  ultimately show ?thesis by (auto simp: received_def Let_def)
qed

end
