(* ===== verification/SessionFaults.thy ===== *)
theory SessionFaults
  imports SessionProps
begin

text \<open>
  Ways in which the session departs from what it means to do: a configured idle timeout crashes the
  process when the last stream ends, a stream opened with END_STREAM is gone before its reply arrives,
  the end of a stream is signalled before the result of the write that ended it, and the first HEADERS on
  a stream are taken for a reply whatever they are; then smaller ones, each stated on its own.
\<close>

subsection \<open>The idle timer\<close>

lemma last_stream_panics:
  assumes "session_inv sc" "sc_streams sc = [i]" "sc_idleTimeout sc \<noteq> 0" "\<not> sc_idleTimer sc"
  shows "closeStream env sched i err sc = Inl NilDereference"
proof -
  have "live (state_of sc i)" using session_invD(4) [OF assms(1), of i] assms(2) by simp
  then have "state_of sc i \<notin> {StateIdle, StateClosed}" by auto
  then show ?thesis
    using assms(2-4) by (simp add: closeStream_def dropStream_def update_stream_def Let_def)
qed

text \<open>C29: a session configured with an idle timeout never creates the timer that \<open>closeStream\<close> resets. On every
  run, closing the last open stream dereferences nil, whether the peer resets the stream, a write ends it,
  or the connection ends.\<close>

theorem idle_timeout_panics:
  assumes "env_ok env" and "0 < sint (cfg_MaxFrameSize cfg)" and "cfg_IdleTimeout cfg \<noteq> 0" and "\<forall>ev \<in> set evs. event_ok ev"
    and "Serve env handler greeting evs (newSession wire server cfg) = Inr (True, sc)" and "sc_streams sc = [i]"
  shows "(\<forall>err. closeStream env (schedule env) i err sc = Inl NilDereference) \<and>
    (\<forall>code. processResetStream env i code sc = Inl NilDereference) \<and> serve_end env sc = Inl NilDereference"
proof -
  have f: "follows (newSession wire server cfg) sc"
    by (rule Serve_running [OF assms(1) newSession_inv [OF assms(2)] assms(4,5)])
  then have c: "sc_idleTimeout sc \<noteq> 0" "\<not> sc_idleTimer sc" "sc_doneServing sc = ChanOpen"
    using assms(3) by (simp_all add: follows_def newSession_def)
  have close: "closeStream env (schedule env) i err sc = Inl NilDereference" for err
    by (rule last_stream_panics [OF followsD [OF f] assms(6) c(1,2)])
  have "live (state_of sc i)" using session_invD(4) [OF followsD [OF f], of i] assms(6) by simp
  then have "processResetStream env i code sc = Inl NilDereference" for code
    using close assms(6) by (auto simp: processResetStream_def Session_state_def simp del: scheduleFrameWrite.simps One_nat_def)
  moreover have "serve_end env sc = Inl NilDereference"
  proof -
    let ?sc1 = "sc\<lparr>sc_doneServing := ChanClosed\<rparr>"
    have "mset (se_range env [i]) = mset [i]" using assms(1) by (simp add: env_ok_def del: mset.simps)
    then have "se_range env [i] = [i]" by simp
    moreover have "session_inv ?sc1" using followsD [OF f] by (simp add: session_defs)
    from last_stream_panics [OF this, of i] assms(6) c
    have "closeStream env (schedule env) i errDisconnected ?sc1 = Inl NilDereference" by simp
    ultimately show ?thesis
      using c(3) assms(6)
      by (simp add: serve_end_def go_close_def stopShutdownTimer_def closeAllStreamsOnConnClose_def del: scheduleFrameWrite.simps One_nat_def)
  qed
  ultimately show ?thesis using close by blast
qed

text \<open>A client with an idle timeout that opens one stream.\<close>

definition idle_config :: SessionConfig where
  "idle_config = DefaultSessionConfig\<lparr>cfg_IdleTimeout := 60000000000\<rparr>"

lemma idle_run:
  "case Serve demo_env True (Inr []) open_run (newSession empty_log False idle_config) of
     Inr (True, sc) \<Rightarrow> sc_streams sc = [1] | _ \<Rightarrow> False"
  by code_simp

theorem idle_timeout_panics_witness:
  "\<exists>sc. Serve demo_env True (Inr []) open_run (newSession empty_log False idle_config) = Inr (True, sc) \<and>
    serve_end demo_env sc = Inl NilDereference"
proof -
  obtain sc where run: "Serve demo_env True (Inr []) open_run (newSession empty_log False idle_config) = Inr (True, sc)"
      "sc_streams sc = [1]"
    using idle_run by auto
  have "0 < sint (cfg_MaxFrameSize idle_config)" "cfg_IdleTimeout idle_config \<noteq> 0" "\<forall>ev \<in> set open_run. event_ok ev"
    by (simp_all add: idle_config_def DefaultSessionConfig_def http2MaxFrameLen_def open_run_def)
  from idle_timeout_panics [OF demo_env_ok this run] run(1) show ?thesis by blast
qed

subsection \<open>Streams opened with END_STREAM\<close>

text \<open>A frame that ends a stream which the peer has half-closed, or which \<open>createStream\<close> has marked so.\<close>

lemma frameWritten_closes:
  assumes "frameWritten env sched wr sc = Inr sc'" "writeEndsStream (wr_write wr) = Inr True" "wr_stream wr = Some i"
    "state_of sc i = StateHalfClosedRemote"
  shows "closeStream env sched i errHandlerComplete sc = Inr sc'"
  using assms by (simp add: frameWritten_def)


definition get_request :: "wire_log Session" where
  "get_request = (case newStream 1 0 StateHalfClosedRemote (setOwnMaxStreamID 1 new_client) of Inr sc \<Rightarrow> sc | Inl _ \<Rightarrow> new_client)"

lemma get_request_written:
  "(case newStream 1 0 StateHalfClosedRemote (setOwnMaxStreamID 1 new_client) of Inr _ \<Rightarrow> True | Inl _ \<Rightarrow> False) \<and>
   (case frameWritten demo_env (schedule demo_env)
      (request (WriteResHeaders (resHeaders 1 0 [(''k'', [''v''])] True)) (Some 1)) get_request of Inr _ \<Rightarrow> True | Inl _ \<Rightarrow> False) \<and>
   (case frameWritten demo_env (schedule demo_env) (dataRequest 1 [5] True 4) get_request of
      Inr sc \<Rightarrow> sc_chans sc 4 = None | Inl _ \<Rightarrow> False) \<and>
   \<not> sc_server get_request \<and> \<not> sc_inGoAway get_request \<and> \<not> sc_writingFrame get_request \<and>
   state_of get_request 1 = StateHalfClosedRemote"
  by code_simp

lemma get_request_new: "newStream 1 0 StateHalfClosedRemote (setOwnMaxStreamID 1 new_client) = Inr get_request"
  using get_request_written by (auto simp: get_request_def split: sum.splits)

lemma get_request_inv: "session_inv get_request" "\<not> sc_server get_request" "\<not> sc_inGoAway get_request"
  "\<not> sc_writingFrame get_request" "state_of get_request 1 = StateHalfClosedRemote"
proof -
  have c: "ownMaxStreamID new_client < 1" "isPushed 1 = sc_server new_client"
    by (simp_all add: NewClientSession_def newSession_def ownMaxStreamID_def isPushed_def)
  note 1 = setOwnMaxStreamID_ok [OF new_client_inv c(1) _ c(2)]
  have "safely (follows new_client) (newStream 1 0 StateHalfClosedRemote (setOwnMaxStreamID 1 new_client))"
    by (rule safely_mono [OF newStream_follows [OF 1(1,4,2,3)]]) simp_all
  then have "follows new_client get_request" unfolding get_request_new by simp
  then show "session_inv get_request" by (rule followsD)
  show "\<not> sc_server get_request" "\<not> sc_inGoAway get_request" "\<not> sc_writingFrame get_request"
    "state_of get_request 1 = StateHalfClosedRemote"
    using get_request_written by blast+
qed


subsection \<open>The end of a write\<close>

text \<open>C34: when a DATA frame that ends the stream has been written on a stream that the peer has half-closed,
  \<open>wroteFrame\<close> closes \<open>cw\<close> first and answers the writer afterwards. In between the writer can see \<open>cw\<close>
  closed and no answer, and \<open>writeDataFromHandler\<close> may return \<open>errStreamClosed\<close> for a frame that was written
  without error.\<close>

theorem cw_closed_before_reply:
  assumes "env_ok env" and "session_inv sc" and "\<not> sc_writingFrame sc" and "state_of sc i = StateHalfClosedRemote"
    and "frameWritten env (schedule env) (dataRequest i data True ch) sc = Inr sc'"
  shows "wroteFrame env (schedule env) (dataRequest i data True ch) None (sc\<lparr>sc_writingFrame := True\<rparr>) =
      bindE (reply_writer (dataRequest i data True ch) None sc') (schedule env) \<and>
    st_cw (sc_objs sc' i) = ChanClosed \<and>
    (sc_chans sc' ch = None \<longrightarrow> Some errStreamClosed \<in> set (writeDataFromHandler i ch sc'))"
proof -
  have i: "i \<in> set (sc_streams sc)" using session_invD(4) [OF assms(2), of i] assms(4) by simp
  have "closeStream env (schedule env) i errHandlerComplete sc = Inr sc'"
    by (rule frameWritten_closes [OF assms(5)]) (simp_all add: writeEndsStream_def dataRequest_def assms(4))
  then have cw: "st_cw (sc_objs sc' i) = ChanClosed"
    using closeStream_closes [OF assms(1,2) i, of errHandlerComplete] by simp
  have "sc\<lparr>sc_writingFrame := False, sc_writingFrameAsync := False\<rparr> = sc"
    using session_invD(6) [OF assms(2)] assms(3) by simp
  then have "wroteFrame env (schedule env) (dataRequest i data True ch) None (sc\<lparr>sc_writingFrame := True\<rparr>) =
      bindE (reply_writer (dataRequest i data True ch) None sc') (schedule env)"
    using assms(5) by (simp add: wroteFrame_def)
  then show ?thesis using cw by (simp add: writeDataFromHandler_def)
qed

theorem cw_closed_before_reply_witness:
  "\<exists>sc'. frameWritten demo_env (schedule demo_env) (dataRequest 1 [5] True 4) get_request = Inr sc' \<and>
    Some errStreamClosed \<in> set (writeDataFromHandler 1 4 sc')"
proof -
  obtain sc' where w: "frameWritten demo_env (schedule demo_env) (dataRequest 1 [5] True 4) get_request = Inr sc'"
      "sc_chans sc' 4 = None"
    using get_request_written by (auto split: sum.splits)
  from cw_closed_before_reply [OF demo_env_ok get_request_inv(1,4,5) w(1)] w show ?thesis by blast
qed

subsection \<open>The first HEADERS\<close>

lemma empty_body_waits:
  assumes "pipe_inv db_inv p" "p_err p = None" "p_breakErr p = None" "pending unread p = []"
  shows "pipe_Read_pass (body_ops env) d p = Inr (None, p)"
proof -
  obtain b where b: "p_b p = Some b" "db_inv b" using assms(1-3) by (auto simp: pipe_inv_def split: option.splits)
  have "buf_Len (body_ops env) b = int (length (unread b))"
    using b(2) by (simp add: dataBuffer_ops_def dataBuffer_Len_def db_size_unread)
  then show ?thesis using assms(2-4) b(1) by (simp add: pipe_Read_pass_def pending_def)
qed

text \<open>C26: the first HEADERS frame on an open stream is taken for the peer's reply whatever it is. END_STREAM is
  not looked at: the stream keeps its state and its body stays open, so that a reader of an empty body
  waits although the peer has finished. On a stream that the peer has opened these are the trailers of
  its request; they mark the stream as replied, and the handler can no longer reply.\<close>

theorem first_headers_taken_as_reply:
  assumes "session_inv sc" and "\<not> sc_inGoAway sc" and "\<not> mh_Truncated f" and "mh_StreamID f \<in> set (sc_streams sc)"
    and "\<not> st_resetQueued (sc_objs sc (mh_StreamID f))" and "\<not> st_replied (sc_objs sc (mh_StreamID f))"
    and "p_err (st_body (sc_objs sc (mh_StreamID f))) = None" and "p_breakErr (st_body (sc_objs sc (mh_StreamID f))) = None"
    and "pending unread (st_body (sc_objs sc (mh_StreamID f))) = []"
  shows "\<exists>sc'. processHeaders env f sc = Inr (None, sc') \<and> state_of sc' (mh_StreamID f) = state_of sc (mh_StreamID f) \<and>
    stream_Read env (mh_StreamID f) d sc' = Inr (None, sc') \<and>
    Reply (mh_StreamID f) h e ch sc' =
      (if isPushed (mh_StreamID f) = sc_server sc then Inl (Panic ''Reply a local created stream'')
       else Inr (Inl (ErrorString ''stream has already replied''), sc'))"
proof -
  let ?i = "mh_StreamID f"
  have ok: "stream_chans_ok (sc_objs sc ?i)" by (rule session_invD(5) [OF assms(1)])
  then have open_ch: "go_close (st_readyCh (sc_objs sc ?i)) = Inr ChanClosed"
    using assms(6) by (cases "st_readyCh (sc_objs sc ?i)") (auto simp: stream_chans_ok_def go_close_def)
  let ?sc' = "update_stream ?i (\<lambda>st. st\<lparr>st_replied := True,
       st_replyHeader := Some (addFields (se_CanonicalKey env) (mh_Fields f) []), st_readyCh := ChanClosed\<rparr>) sc"
  have "processHeaders env f sc = Inr (None, ?sc')"
    using assms(2-6) open_ch by (simp add: processHeaders_def processReply_def Let_def)
  moreover have "pipe_Read_pass (body_ops env) d (st_body (sc_objs sc ?i)) = Inr (None, st_body (sc_objs sc ?i))"
    using empty_body_waits ok assms(7-9) unfolding stream_chans_ok_def by blast
  then have "stream_Read env ?i d ?sc' = Inr (None, ?sc')"
    by (simp add: stream_Read_def) (simp add: update_stream_def)
  moreover have "Reply ?i h e ch ?sc' = (if isPushed ?i = sc_server sc then Inl (Panic ''Reply a local created stream'')
       else Inr (Inl (ErrorString ''stream has already replied''), ?sc'))"
    by (simp add: Reply_def) (simp add: update_stream_def)
  ultimately show ?thesis by (intro exI [of _ ?sc']) simp
qed

text \<open>A server: the request of stream 1 is followed by its trailers before the handler has replied.\<close>

definition with_request :: "wire_log Session" where
  "with_request = (case newStream 1 0 StateOpen (setPeerMaxStreamID 1 (NewServerSession empty_log None)) of
     Inr sc \<Rightarrow> sc | Inl _ \<Rightarrow> NewServerSession empty_log None)"

definition trailers :: MetaHeaders where
  "trailers = \<lparr>mh_StreamID = 1, mh_PseudoFields = [], mh_RegularFields = [(''checksum'', ''7'')],
      mh_Truncated = False, mh_StreamEnded = True, mh_Priority = None\<rparr>"

lemma with_request_new: "newStream 1 0 StateOpen (setPeerMaxStreamID 1 (NewServerSession empty_log None)) =
  Inr with_request"
proof -
  have "case newStream 1 0 StateOpen (setPeerMaxStreamID 1 (NewServerSession empty_log None)) of
     Inr sc \<Rightarrow> True | Inl _ \<Rightarrow> False"
    by code_simp
  then show ?thesis by (auto simp: with_request_def split: sum.splits)
qed

lemma with_request_fields:
  "sc_streams with_request = [1] \<and> \<not> sc_inGoAway with_request \<and> sc_server with_request \<and>
   \<not> st_resetQueued (sc_objs with_request 1) \<and> \<not> st_replied (sc_objs with_request 1) \<and>
   p_err (st_body (sc_objs with_request 1)) = None \<and> p_breakErr (st_body (sc_objs with_request 1)) = None \<and>
   pending unread (st_body (sc_objs with_request 1)) = []"
  by code_simp

lemma with_request_inv: "session_inv with_request"
proof -
  have inv: "session_inv (NewServerSession empty_log None)"
    unfolding NewServerSession_def by (rule newSession_inv) (simp add: DefaultSessionConfig_def http2MaxFrameLen_def)
  have c: "peerMaxStreamID (NewServerSession empty_log None) < 1" "isPushed 1 \<noteq> sc_server (NewServerSession empty_log None)"
    by (simp_all add: NewServerSession_def newSession_def peerMaxStreamID_def isPushed_def)
  note 1 = setPeerMaxStreamID_ok [OF inv c]
  have "safely (follows (NewServerSession empty_log None)) (newStream 1 0 StateOpen (setPeerMaxStreamID 1 (NewServerSession empty_log None)))"
    by (rule safely_mono [OF newStream_follows [OF 1(1,4,2,3)]]) simp_all
  then show ?thesis unfolding with_request_new by (simp add: followsD)
qed

theorem first_headers_taken_as_reply_witness:
  "\<exists>sc'. processHeaders demo_env trailers with_request = Inr (None, sc') \<and> stream_Read demo_env 1 10 sc' = Inr (None, sc') \<and>
    Reply 1 [] False 2 sc' = Inr (Inl (ErrorString ''stream has already replied''), sc')"
  using first_headers_taken_as_reply [OF with_request_inv, of trailers demo_env 10 "[]" False 2] with_request_fields
  by (simp add: trailers_def isPushed_def) blast

subsection \<open>END_STREAM behind padding\<close>

text \<open>Why \<open>data_ok\<close> is needed. \<open>processData\<close> gives back the windows of the padding before it handles END_STREAM. When
  the stream's last DATA frame is queued and may be sent, the schedule loop of the first window update sends it,
  resets the stream and closes it; \<open>endStream\<close> then makes the closed stream half-closed. A session gets there
  during a graceful shutdown, when a SETTINGS frame raises the windows and has a later setting that is
  refused: the error is ignored and nothing is scheduled until the next frame.\<close>

definition queued_end :: "wire_log Session" where
  "queued_end =
     (case newStream 1 0 StateOpen (setOwnMaxStreamID 1 new_client) of
        Inl _ \<Rightarrow> new_client
      | Inr sc \<Rightarrow>
          (case Push (dataRequest 1 [8] True 4) (sc_writeSched sc) of
             Inl _ \<Rightarrow> new_client | Inr ws \<Rightarrow> sc\<lparr>sc_writeSched := ws\<rparr>))"

definition padded_end :: DataFr where
  "padded_end = \<lparr>df_StreamID = 1, df_Data = [], df_Length = 2, df_StreamEnded = True\<rparr>"

lemma queued_end_inv: "session_inv queued_end"
proof (cases "newStream 1 0 StateOpen (setOwnMaxStreamID 1 new_client)")
  case (Inr sc)
  have c: "ownMaxStreamID new_client < 1" "isPushed 1 = sc_server new_client"
    by (simp_all add: NewClientSession_def newSession_def ownMaxStreamID_def isPushed_def)
  note 1 = setOwnMaxStreamID_ok [OF new_client_inv c(1) _ c(2)]
  have "safely (follows new_client) (newStream 1 0 StateOpen (setOwnMaxStreamID 1 new_client))"
    by (rule safely_mono [OF newStream_follows [OF 1(1,4,2,3)]]) simp_all
  then have inv: "session_inv sc" unfolding Inr by (simp add: followsD)
  have "request_ok (dataRequest 1 [8] True 4)" by (simp add: request_ok_def dataRequest_def DataSize_def StreamID_def)
  from Push_safely [OF session_invD(1) [OF inv] this]
  have "session_inv (sc\<lparr>sc_writeSched := ws\<rparr>)" if "Push (dataRequest 1 [8] True 4) (sc_writeSched sc) = Inr ws" for ws
    using that keeps_sched [OF inv, of ws "length (atoms (dataRequest 1 [8] True 4))"] by (auto dest: keepsD(1))
  then show ?thesis using Inr new_client_inv by (simp add: queued_end_def split: sum.split)
qed (simp add: queued_end_def new_client_inv)

lemma padded_end_result:
  "case processData demo_env padded_end queued_end of
     Inr (None, sc) \<Rightarrow> sc_streams sc = [] \<and> state_of sc 1 = StateHalfClosedRemote | _ \<Rightarrow> False"
  by code_simp

theorem padded_end_revives:
  "session_inv queued_end \<and>
   (\<exists>sc. processData demo_env padded_end queued_end = Inr (None, sc) \<and> state_of sc 1 = StateHalfClosedRemote \<and> \<not> session_inv sc)"
proof -
  obtain sc where sc: "processData demo_env padded_end queued_end = Inr (None, sc)" "sc_streams sc = []"
      "state_of sc 1 = StateHalfClosedRemote"
    using padded_end_result by (auto split: sum.splits prod.splits option.splits)
  have "\<not> session_inv sc"
  proof
    assume "session_inv sc"
    from session_invD(4) [OF this, of 1] sc(2,3) show False by simp
  qed
  then show ?thesis using queued_end_inv sc by blast
qed

subsection \<open>Methods of a handler\<close>

text \<open>\<open>CloseWrite\<close> does not only close the local side: on an open stream RST_STREAM follows its frame.\<close>

theorem CloseWrite_resets:
  assumes "state_of sc i = StateOpen"
  shows "frameWritten env sched (CloseWrite i ch) sc =
    resetStream sched i ErrCodeNo (update_stream i (st_state_update (\<lambda>_. StateHalfClosedLocal)) sc)"
  using assms by (simp add: frameWritten_def CloseWrite_def WriteData_request_def dataRequest_def writeEndsStream_def)

text \<open>\<open>ResetWithError\<close> marks the stream as replied: \<open>ReplyHeader\<close> then reports a reply of the peer although none has
  come, while \<open>WaitForReply\<close> does not return nil.\<close>

theorem reset_claims_reply:
  assumes "session_inv sc" and "\<not> st_replied (sc_objs sc i)" and "ResetWithError i code sc = (Inr wr, sc')"
  shows "ReplyHeader i sc' = (st_replyHeader (sc_objs sc i), True) \<and> None \<notin> set (WaitForReply timeout i sc')"
proof -
  have "st_readyCh (sc_objs sc i) \<noteq> ChanClosed" using session_invD(5) [OF assms(1), of i] assms(2) by (auto simp: stream_chans_ok_def)
  moreover have "sc' = update_stream i (st_replied_update (\<lambda>_. True)) sc"
    using assms(3) by (simp add: ResetWithError_def split: if_splits)
  ultimately show ?thesis by (auto simp: ReplyHeader_def WaitForReply_def update_stream_def split: if_splits)
qed

text \<open>\<open>OpenStream\<close> looks only at whether the header is empty; when no value may be sent, the frame panics.\<close>

theorem OpenStream_unsendable_header:
  "Session_OpenStream [(''b'', [''bad''])] None False = Inr (EvCreateStream 0 [(''b'', [''bad''])] False) \<and>
   writeFrame plain_env log_context (WriteResHeaders (resHeaders 1 0 [(''b'', [''bad''])] False)) empty_log =
     Inl (Panic ''unexpected empty hpack'')"
proof
  show "writeFrame plain_env log_context (WriteResHeaders (resHeaders 1 0 [(''b'', [''bad''])] False)) empty_log =
     Inl (Panic ''unexpected empty hpack'')"
    by code_simp
qed (simp add: Session_OpenStream_def)

end
