(* ===== verification/SessionStart.thy ===== *)
theory SessionStart
  imports SessionProps
begin

text \<open>
  The start of a session: the window of the connection after \<open>serve\<close> has announced it. What is written while
  no stream exists leaves the receive windows alone; this is shown once for every function of the write
  path, for any function that it calls in place of \<open>scheduleFrameWrite\<close>.
\<close>

subsection \<open>Without streams\<close>

definition no_streams :: "flow_store \<Rightarrow> 'c Session \<Rightarrow> bool" where
  "no_streams fs sc \<longleftrightarrow> sc_streams sc = [] \<and> (\<forall>i. \<not> live (state_of sc i)) \<and> sc_inflow sc = fs"

definition results :: "('a \<Rightarrow> bool) \<Rightarrow> go_panic + 'a \<Rightarrow> bool" where
  "results P r \<longleftrightarrow> (\<forall>x. r = Inr x \<longrightarrow> P x)"

lemma results_simps [simp]:
  "results P (Inr x) \<longleftrightarrow> P x"
  "results P (Inl e) \<longleftrightarrow> True"
  "results P (bindE m f) \<longleftrightarrow> results (\<lambda>x. results P (f x)) m"
  by (auto simp: results_def)

lemma results_mono: "results P r \<Longrightarrow> (\<And>x. P x \<Longrightarrow> Q x) \<Longrightarrow> results Q r"
  by (auto simp: results_def)

lemma results_any: "(\<And>x. P x) \<Longrightarrow> results P r"
  by (auto simp: results_def)

lemma no_streams_fields [simp]:
  "no_streams fs (sc\<lparr>sc_wire := w\<rparr>) = no_streams fs sc"
  "no_streams fs (sc\<lparr>sc_chans := c\<rparr>) = no_streams fs sc"
  "no_streams fs (sc\<lparr>sc_writeSched := ws\<rparr>) = no_streams fs sc"
  "no_streams fs (sc\<lparr>sc_flow := out\<rparr>) = no_streams fs sc"
  "no_streams fs (sc\<lparr>sc_writingFrame := b\<rparr>) = no_streams fs sc"
  "no_streams fs (sc\<lparr>sc_writingFrameAsync := b\<rparr>) = no_streams fs sc"
  "no_streams fs (sc\<lparr>sc_async := a\<rparr>) = no_streams fs sc"
  "no_streams fs (sc\<lparr>sc_needsFrameFlush := b\<rparr>) = no_streams fs sc"
  "no_streams fs (sc\<lparr>sc_needToSendGoAway := b\<rparr>) = no_streams fs sc"
  "no_streams fs (sc\<lparr>sc_needToSendSettingsAck := b\<rparr>) = no_streams fs sc"
  "no_streams fs (sc\<lparr>sc_inFrameScheduleLoop := b\<rparr>) = no_streams fs sc"
  "no_streams fs (sc\<lparr>sc_unackedSettings := k\<rparr>) = no_streams fs sc"
  "no_streams fs (sc\<lparr>sc_handler := b\<rparr>) = no_streams fs sc"
  by (simp_all add: no_streams_def)

lemma reply_writer_quiet: "no_streams fs sc \<Longrightarrow> results (no_streams fs) (reply_writer wr err sc)"
  by (simp add: reply_writer_def results_any split_def)

lemma writeFrame_quiet:
  assumes "\<And>sc. no_streams fs sc \<Longrightarrow> results (no_streams fs) (sched sc)" "no_streams fs sc"
  shows "results (no_streams fs) (Session_writeFrame sched wr sc)"
proof -
  have "results (\<lambda>(_, sc1). no_streams fs sc1) (noteHeaders wr b sc)" for b
    using assms(2) by (auto simp: noteHeaders_def no_streams_def split: option.split writeFramer.split)
  then show ?thesis
    unfolding Session_writeFrame_def Let_def results_simps
    by (rule results_mono) (auto simp: results_any assms(1))
qed

lemma no_streamsD:
  assumes "no_streams fs sc"
  shows "state_of sc i = StateIdle \<or> state_of sc i = StateHalfClosedLocal \<or> state_of sc i = StateClosed" "i \<notin> set (sc_streams sc)"
  using assms by (cases "state_of sc i"; auto simp: no_streams_def dest: spec [of _ i])+

lemma closeStream_quiet: "no_streams fs sc \<Longrightarrow> results P (closeStream env sched i err sc)"
  using no_streamsD(1) [of fs sc i] by (auto simp: closeStream_def no_streams_def dest: spec [of _ i])

lemma frameWritten_quiet:
  assumes "no_streams fs sc"
  shows "results (no_streams fs) (frameWritten env sched wr sc)"
proof -
  have "results (no_streams fs) (case state_of sc i of
      StateOpen \<Rightarrow> resetStream sched i ErrCodeNo (update_stream i (st_state_update (\<lambda>_. StateHalfClosedLocal)) sc)
    | StateHalfClosedRemote \<Rightarrow> closeStream env sched i errHandlerComplete sc | _ \<Rightarrow> Inr sc)" for i
    using no_streamsD(1) [OF assms, of i] assms by auto
  moreover have "results (no_streams fs) (if i \<in> set (sc_streams sc) then closeStream env sched i err sc else Inr sc)" for i err
    using no_streamsD(2) [OF assms, of i] assms by simp
  moreover note closeStream_quiet [OF assms]
  ultimately show ?thesis
    using assms by (simp add: frameWritten_def results_any split: option.split writeFramer.split)
qed

lemma wroteFrame_quiet:
  assumes "\<And>sc. no_streams fs sc \<Longrightarrow> results (no_streams fs) (sched sc)" "no_streams fs sc"
  shows "results (no_streams fs) (wroteFrame env sched wr err sc)"
proof -
  have "results (\<lambda>sc2. results (\<lambda>sc3. results (no_streams fs) (sched sc3)) (reply_writer wr err sc2)) (frameWritten env sched wr sc1)"
    if "no_streams fs sc1" for sc1
    using frameWritten_quiet [OF that]
    by (rule results_mono) (rule results_mono [OF reply_writer_quiet assms(1)])
  then show ?thesis using assms(2) by (simp add: wroteFrame_def Let_def)
qed

lemma startFrameWrite_quiet:
  assumes "\<And>sc. no_streams fs sc \<Longrightarrow> results (no_streams fs) (sched sc)" "no_streams fs sc"
  shows "results (no_streams fs) (startFrameWrite env sched wr sc)"
proof -
  have "results (no_streams fs) (beginWrite env sched wr' sc)" for wr'
    using assms(2) wroteFrame_quiet [of fs sched, OF assms(1)]
    by (simp add: beginWrite_def write_wire_def Let_def split_def results_any split: option.split)
  then show ?thesis
    using assms(2)
    by (simp add: startFrameWrite_def results_any reply_writer_quiet split: option.split writeFramer.split sum.split)
qed

lemma nextWrite_quiet: "no_streams fs sc \<Longrightarrow> results (\<lambda>(_, sc1). no_streams fs sc1) (nextWrite env sc)"
  by (simp add: nextWrite_def results_any split_def)

lemma scheduleLoop_quiet:
  assumes "\<And>sc. no_streams fs sc \<Longrightarrow> results (no_streams fs) (sched sc)" "no_streams fs sc"
  shows "results (no_streams fs) (scheduleLoop env sched fuel sc)"
  using assms(2)
proof (induction fuel arbitrary: sc)
  case (Suc fuel)
  have "results (no_streams fs) (case nxt of
      NextFrame wr \<Rightarrow> bindE (startFrameWrite env sched wr sc1) (scheduleLoop env sched fuel)
    | NextFlush \<Rightarrow> bindE (startFrameWrite env sched (request FlushFrameWriter None) sc1) (\<lambda>sc2.
        scheduleLoop env sched fuel (sc2\<lparr>sc_needsFrameFlush := False\<rparr>))
    | NextNone \<Rightarrow> Inr sc1)" if "no_streams fs sc1" for nxt sc1
    using results_mono [OF startFrameWrite_quiet [of fs sched sc1, OF assms(1) that]] that Suc.IH
    by (cases nxt) (auto intro: results_mono)
  then show ?case
    using Suc.prems results_mono [OF nextWrite_quiet [OF Suc.prems]] by fastforce
qed simp

lemma schedule_quiet: "no_streams fs sc \<Longrightarrow> results (no_streams fs) (schedule env sc)"
  using scheduleLoop_quiet [of fs "scheduleFrameWrite env 0"] by (auto elim!: results_mono)

subsection \<open>The window of the connection\<close>

lemma writeFrame_no_streams:
  "no_streams fs sc \<Longrightarrow> Session_writeFrame (schedule env) wr sc = Inr sc' \<Longrightarrow> no_streams fs sc'"
  using writeFrame_quiet [of fs "schedule env", OF schedule_quiet] unfolding results_def by blast

lemma sendWindowUpdate_quiet:
  assumes "no_streams fs sc" "sendWindowUpdate (schedule env) None n sc = Inr sc'" "0 < n" "n < maxUint31"
  shows "flow_add ConnFlow (word_of_int n) fs = (True, sc_inflow sc')"
proof -
  have n: "(word_of_int n :: i32) \<noteq> 0" "\<not> (word_of_int n :: i32) <s 0"
    using assms(3,4) by (auto simp: maxUint31_def go_simps signed_of_int signed32_eq_self word_of_int_eq_0_iff zdvd_not_zless)
  have "sendWindowUpdate32 (schedule env) None (word_of_int n) sc = Inr sc'"
    using assms(2,4) by (subst (asm) sendWindowUpdate.simps) simp
  then obtain sc1 where w: "Session_writeFrame (schedule env) (request (WriteWindowUpdate 0 (word_of_int n)) None) sc = Inr sc1"
    and r: "(let (ok, inflow) = flow_add ConnFlow (word_of_int n) (sc_inflow sc1)
      in if \<not> ok then Inl (Panic ''internal error; sent too many window updates without decrements?'')
         else Inr (sc1\<lparr>sc_inflow := inflow\<rparr>)) = Inr sc'"
    using n unfolding sendWindowUpdate32_def by (auto simp: flow_of_def simp del: scheduleFrameWrite.simps One_nat_def)
  have "sc_inflow sc1 = fs" using writeFrame_no_streams [OF assms(1) w] by (simp add: no_streams_def)
  with r show ?thesis
    by (cases "flow_add ConnFlow (word_of_int n) (sc_inflow sc1)") (auto split: if_splits)
qed

lemma serve_start_window:
  assumes "serve_start env greeting sc = Inr (True, sc')" "no_streams fs sc" "flow_conn (fs ConnFlow) = None"
    "0 \<le> sint (flow_n (fs ConnFlow))"
  shows "if sint (flow_n (fs ConnFlow)) \<le> 65535 then sc_inflow sc' = fs
    else flow_add ConnFlow (flow_n (fs ConnFlow) - 65535) fs = (True, sc_inflow sc')"
proof -
  let ?diff = "flow_n (fs ConnFlow) - 65535"
  obtain sc1 where g: "greet env greeting sc = (True, sc1)" "announce env sc1 = Inr sc'"
    using assms(1) by (auto simp: serve_start_def split: prod.splits bool.splits)
  have 1: "no_streams fs sc1" using g(1) greet_wire [of env greeting sc] assms(2) no_streams_fields(1) by (metis snd_conv)
  obtain sc2 where 2: "no_streams fs sc2" "(if 0 <s ?diff then sendWindowUpdate (schedule env) None (sint ?diff) sc2 else Inr sc2) = Inr sc'"
  proof -
    obtain sc3 where w: "Session_writeFrame (schedule env) (request (WriteSettings (firstSettings sc1)) None) sc1 = Inr sc3"
      and r: "(if 0 <s available (sc_inflow sc3) ConnFlow - defaultWindowSize
        then sendWindowUpdate (schedule env) None (sint (available (sc_inflow sc3) ConnFlow - defaultWindowSize))
          (sc3\<lparr>sc_unackedSettings := sc_unackedSettings sc3 + 1\<rparr>)
        else Inr (sc3\<lparr>sc_unackedSettings := sc_unackedSettings sc3 + 1\<rparr>)) = Inr sc'"
      using g(2) by (auto simp: announce_def Let_def simp del: scheduleFrameWrite.simps One_nat_def cong: if_cong)
    have 3: "no_streams fs sc3"
      by (rule writeFrame_no_streams [OF 1 w])
    then have "available (sc_inflow sc3) ConnFlow - defaultWindowSize = ?diff"
      using assms(3) by (simp add: no_streams_def available_conn defaultWindowSize_def)
    with r 3 show ?thesis by (intro that [of "sc3\<lparr>sc_unackedSettings := sc_unackedSettings sc3 + 1\<rparr>"]) (simp_all only: no_streams_fields)
  qed
  have d: "sint ?diff = sint (flow_n (fs ConnFlow)) - 65535"
    using assms(4) sint32_bounds [of "flow_n (fs ConnFlow)"] by (subst sint32_minus) simp_all
  show ?thesis
  proof (cases "sint (flow_n (fs ConnFlow)) \<le> 65535")
    case True
    then show ?thesis using 2 d by (simp add: word_sless_alt no_streams_def)
  next
    case False
    then have "sendWindowUpdate (schedule env) None (sint ?diff) sc2 = Inr sc'" using 2(2) d by (simp add: word_sless_alt)
    from sendWindowUpdate_quiet [OF 2(1) this] False d sint32_bounds [of "flow_n (fs ConnFlow)"]
    show ?thesis by (simp add: maxUint31_def)
  qed
qed


text \<open>A client that configures a window of 1000000 bytes counts 1934465.\<close>

definition wide_config :: SessionConfig where
  "wide_config = DefaultSessionConfig\<lparr>cfg_InitialSessionWindowSize := 1000000\<rparr>"

lemma wide_start:
  "case serve_start demo_env (Inr []) (newSession empty_log False wide_config) of Inr (True, sc) \<Rightarrow> True | _ \<Rightarrow> False"
  by code_simp


end
