(* ===== verification/ReadLoop.thy ===== *)
theory ReadLoop
  imports SessionProps "HOL-Library.Sublist"
begin

text \<open>
  The goroutine of \<open>readFrames\<close> beside the serve loop. The two meet at two unbuffered channels: \<open>readFrameCh\<close>, over
  which a frame goes to the serve loop, and the gate, on which the reader waits until the serve loop no longer
  needs the frame (\<open>readMore\<close>). A state has the position of either goroutine; a step is a call of \<open>ReadFrame\<close>, a
  meeting at a channel, or a turn of the serve loop. The theory shows that \<open>serve_loop\<close> over lists of events
  has exactly the runs of the two goroutines, and that neither waits for the other in vain.
\<close>

subsection \<open>The two goroutines\<close>

text \<open>The reader calls \<open>ReadFrame\<close>, offers its result on \<open>readFrameCh\<close>, or waits at the gate.\<close>

datatype reader_pos = AtReadFrame | AtSend readFrameResult | AtGate readFrameResult | ReaderReturned

text \<open>The serve loop waits in \<open>select\<close>, handles a result of the reader, calls \<open>readMore\<close>, or has left the loop.\<close>

datatype serve_pos = AtSelect | AtFrame readFrameResult | AtReadMore | AtReturn | ServeReturned

text \<open>\<open>ro_frames\<close> is what the calls of \<open>ReadFrame\<close> will still return, \<open>ro_log\<close> the messages the serve loop has handled.\<close>

record 'c routines =
  ro_reader :: reader_pos
  ro_serve :: serve_pos
  ro_session :: "'c Session"
  ro_frames :: "readFrameResult list"
  ro_log :: "serve_event list"

definition is_read :: "serve_event \<Rightarrow> bool" where
  "is_read ev = (case ev of EvReadFrame _ \<Rightarrow> True | _ \<Rightarrow> False)"

inductive routine_step :: "'c session_env \<Rightarrow> 'c routines \<Rightarrow> 'c routines \<Rightarrow> bool" for env where
  ReadFrame: "ro_reader s = AtReadFrame \<Longrightarrow> ro_frames s = res # rs \<Longrightarrow>
    routine_step env s (s\<lparr>ro_reader := AtSend res, ro_frames := rs\<rparr>)"
| Send: "ro_reader s = AtSend res \<Longrightarrow> ro_serve s = AtSelect \<Longrightarrow>
    routine_step env s (s\<lparr>ro_reader := AtGate res, ro_serve := AtFrame res\<rparr>)"
| Done: "ro_reader s = AtSend res \<or> ro_reader s = AtGate res \<Longrightarrow> sc_doneServing (ro_session s) = ChanClosed \<Longrightarrow>
    routine_step env s (s\<lparr>ro_reader := ReaderReturned\<rparr>)"
| Process: "ro_serve s = AtFrame res \<Longrightarrow> processFrameFromReader env res (ro_session s) = Inr (keep, sc) \<Longrightarrow>
    routine_step env s (s\<lparr>ro_serve := if keep then AtReadMore else AtReturn, ro_session := sc,
      ro_log := ro_log s @ [EvReadFrame res]\<rparr>)"
| Gate: "ro_serve s = AtReadMore \<Longrightarrow> ro_reader s = AtGate res \<Longrightarrow>
    routine_step env s (s\<lparr>ro_serve := AtSelect, ro_session := afterTurn (ro_session s),
      ro_reader := if terminalReadFrameError res then ReaderReturned else AtReadFrame\<rparr>)"
| Turn: "ro_serve s = AtSelect \<Longrightarrow> \<not> is_read ev \<Longrightarrow> serve_step env ev (ro_session s) = Inr (keep, sc) \<Longrightarrow>
    routine_step env s (s\<lparr>ro_serve := if keep then AtSelect else AtReturn, ro_session := sc, ro_log := ro_log s @ [ev]\<rparr>)"
| Return: "ro_serve s = AtReturn \<Longrightarrow> serve_end env (ro_session s) = Inr sc \<Longrightarrow>
    routine_step env s (s\<lparr>ro_serve := ServeReturned, ro_session := sc\<rparr>)"

abbreviation routine_steps :: "'c session_env \<Rightarrow> 'c routines \<Rightarrow> 'c routines \<Rightarrow> bool" where
  "routine_steps env \<equiv> (routine_step env)\<^sup>*\<^sup>*"

definition go_routines :: "readFrameResult list \<Rightarrow> 'c Session \<Rightarrow> 'c routines" where
  "go_routines rs sc = \<lparr>ro_reader = AtReadFrame, ro_serve = AtSelect, ro_session = sc, ro_frames = rs, ro_log = []\<rparr>"

text \<open>The results of the reader among the messages.\<close>

fun reads :: "serve_event list \<Rightarrow> readFrameResult list" where
  "reads [] = []"
| "reads (EvReadFrame res # evs) = res # reads evs"
| "reads (_ # evs) = reads evs"

lemma reads_append [simp]: "reads (xs @ ys) = reads xs @ reads ys"
  by (induction xs rule: reads.induct) simp_all

lemma reads_other [simp]: "\<not> is_read ev \<Longrightarrow> reads [ev] = []"
  by (cases ev) (simp_all add: is_read_def)

subsection \<open>The invariant\<close>

text \<open>The serve loop is where \<open>serve_loop\<close> says, for the messages it has handled.\<close>

definition serve_at :: "'c session_env \<Rightarrow> 'c Session \<Rightarrow> 'c routines \<Rightarrow> bool" where
  "serve_at env sc s \<longleftrightarrow>
     (case ro_serve s of
        AtSelect \<Rightarrow> serve_loop env (ro_log s) sc = Inr (True, ro_session s)
      | AtFrame _ \<Rightarrow> serve_loop env (ro_log s) sc = Inr (True, ro_session s)
      | AtReadMore \<Rightarrow> serve_loop env (ro_log s) sc = Inr (True, afterTurn (ro_session s))
      | AtReturn \<Rightarrow> serve_loop env (ro_log s) sc = Inr (False, ro_session s)
      | ServeReturned \<Rightarrow> bindE (serve_loop env (ro_log s) sc) (\<lambda>(_, sc1). serve_end env sc1) = Inr (ro_session s))"

text \<open>The reader has handed over a prefix of what it read, and stops at the first terminal error.\<close>

definition all_recoverable :: "readFrameResult list \<Rightarrow> bool" where
  "all_recoverable rs \<longleftrightarrow> (\<forall>res \<in> set rs. \<not> terminalReadFrameError res)"

definition reader_at :: "readFrameResult list \<Rightarrow> 'c routines \<Rightarrow> bool" where
  "reader_at rs s \<longleftrightarrow>
     (case ro_reader s of
        AtReadFrame \<Rightarrow> all_recoverable (reads (ro_log s)) \<and> rs = reads (ro_log s) @ ro_frames s
      | AtSend res \<Rightarrow> all_recoverable (reads (ro_log s)) \<and> rs = reads (ro_log s) @ res # ro_frames s
      | AtGate res \<Rightarrow>
          if ro_serve s = AtFrame res
          then all_recoverable (reads (ro_log s)) \<and> rs = reads (ro_log s) @ res # ro_frames s
          else \<exists>xs. reads (ro_log s) = xs @ [res] \<and> all_recoverable xs \<and> rs = xs @ res # ro_frames s
      | ReaderReturned \<Rightarrow> prefix (reads (ro_log s)) (readFrames rs))"

lemma readFrames_recoverable [simp]: "all_recoverable xs \<Longrightarrow> readFrames (xs @ rs) = xs @ readFrames rs"
  by (induction xs) (simp_all add: all_recoverable_def)

text \<open>While the serve loop handles a result, the reader waits at the gate, unless the session has ended.\<close>

definition held :: "readFrameResult list \<Rightarrow> 'c routines \<Rightarrow> bool" where
  "held rs s \<longleftrightarrow> (\<forall>res. ro_serve s = AtFrame res \<longrightarrow>
     prefix (reads (ro_log s) @ [res]) (readFrames rs) \<and> (ro_reader s = AtGate res \<or> ro_reader s = ReaderReturned))"

lemma reader_at_prefix: "reader_at rs s \<Longrightarrow> prefix (reads (ro_log s)) (readFrames rs)"
  by (auto simp: reader_at_def split: reader_pos.splits if_splits)

lemma reader_step:
  assumes "routine_step env s s'" "reader_at rs s" "held rs s"
  shows "reader_at rs s' \<and> held rs s'"
  using assms
proof cases
  case (Done res)
  then show ?thesis using reader_at_prefix [OF assms(2)] assms(3) by (auto simp: reader_at_def held_def)
next
  case (Gate res)
  then show ?thesis using assms(2) by (auto simp: reader_at_def held_def all_recoverable_def)
next
  case (Process res keep sc)
  then show ?thesis using assms(2,3) by (auto simp: reader_at_def held_def)
next
  case (Return sc)
  then show ?thesis using assms(2) by (auto simp: reader_at_def held_def split: reader_pos.splits)
qed (auto simp: reader_at_def held_def split: reader_pos.splits)

lemma serve_loop_snoc: "serve_loop env (evs @ [ev]) sc =
    bindE (serve_loop env evs sc) (\<lambda>(keep, sc1). if keep then serve_step env ev sc1 else Inr (False, sc1))"
proof -
  have "bindE r (\<lambda>(keep, sc1). if keep then Inr (True, sc1) else Inr (False, sc1)) = r" for r :: "go_panic + bool \<times> 'a Session"
    by (cases r) auto
  then show ?thesis by (simp add: serve_loop_append cong: if_cong)
qed

lemma serve_pos_step:
  assumes "routine_step env s s'" "serve_at env sc s"
  shows "serve_at env sc s'"
  using assms(1)
proof cases
  case (Process res keep sc1)
  then have "serve_step env (EvReadFrame res) (ro_session s) = Inr (keep, if keep then afterTurn sc1 else sc1)"
    by (simp add: serve_step_def)
  then show ?thesis using Process assms(2) by (simp add: serve_at_def serve_loop_snoc)
next
  case (Turn ev keep sc1)
  then show ?thesis using assms(2) by (simp add: serve_at_def serve_loop_snoc)
next
  case (Return sc1)
  then show ?thesis using assms(2) by (simp add: serve_at_def)
next
  case (ReadFrame res rs)
  then show ?thesis using assms(2) by (cases "ro_serve s") (simp_all add: serve_at_def)
next
  case (Done res)
  then show ?thesis using assms(2) by (cases "ro_serve s") (simp_all add: serve_at_def)
qed (use assms(2) in \<open>simp_all add: serve_at_def\<close>)

lemma routines_at:
  assumes "routine_steps env (go_routines rs sc) s"
  shows "serve_at env sc s \<and> reader_at rs s \<and> held rs s"
  using assms
proof induction
  case base
  show ?case by (simp add: go_routines_def serve_at_def reader_at_def held_def all_recoverable_def)
next
  case (step s s')
  then show ?case using serve_pos_step reader_step by blast
qed

subsection \<open>The runs of the two goroutines\<close>

text \<open>Every run over a list of events in which the reader's results come in the order of \<open>readFrames\<close> is a
  run of the two goroutines.\<close>

lemma rtranclp_two: "r\<^sup>*\<^sup>* x y \<Longrightarrow> r y z \<Longrightarrow> r\<^sup>*\<^sup>* x z"
  by simp

lemma readFrames_next:
  assumes "prefix (xs @ [res]) (readFrames rs)"
  shows "all_recoverable xs \<and> (\<exists>ys. rs = xs @ res # ys)"
  using assms
proof (induction xs arbitrary: rs)
  case Nil
  then show ?case by (cases rs) (auto simp: all_recoverable_def split: if_splits)
next
  case (Cons x xs)
  then obtain r ys where rs: "rs = r # ys" by (cases rs) auto
  with Cons.prems have "r = x" "\<not> terminalReadFrameError x" "prefix (xs @ [res]) (readFrames ys)"
    by (auto split: if_splits)
  with Cons.IH [of ys] rs show ?case by (auto simp: all_recoverable_def)
qed

definition frame_pending :: "readFrameResult list \<Rightarrow> 'c routines \<Rightarrow> bool" where
  "frame_pending rs s \<longleftrightarrow> (all_recoverable (reads (ro_log s)) \<longrightarrow>
     ro_reader s = AtReadFrame \<and> rs = reads (ro_log s) @ ro_frames s)"

lemma routines_run:
  assumes "serve_loop env evs sc = Inr (True, sc')" "prefix (reads evs) (readFrames rs)"
  shows "\<exists>s. routine_steps env (go_routines rs sc) s \<and> ro_serve s = AtSelect \<and> ro_log s = evs \<and> ro_session s = sc' \<and>
    frame_pending rs s"
  using assms
proof (induction evs arbitrary: sc' rule: rev_induct)
  case Nil
  then show ?case
    by (intro exI [of _ "go_routines rs sc"]) (simp add: go_routines_def frame_pending_def)
next
  case (snoc ev evs)
  obtain sc1 where l: "serve_loop env evs sc = Inr (True, sc1)" "serve_step env ev sc1 = Inr (True, sc')"
    using snoc.prems(1) by (auto simp: serve_loop_snoc split: prod.splits if_splits)
  have "prefix (reads evs) (readFrames rs)" using snoc.prems(2) by (auto intro: append_prefixD)
  from snoc.IH [OF l(1) this] obtain s where s: "routine_steps env (go_routines rs sc) s" "ro_serve s = AtSelect"
      "ro_log s = evs" "ro_session s = sc1" "frame_pending rs s" by blast
  show ?case
  proof (cases "is_read ev")
    case False
    have "routine_step env s (s\<lparr>ro_serve := AtSelect, ro_session := sc', ro_log := ro_log s @ [ev]\<rparr>)"
      using routine_step.Turn [OF s(2) False, of env True sc'] s(4) l(2) by simp
    with s(1) have "routine_steps env (go_routines rs sc) (s\<lparr>ro_serve := AtSelect, ro_session := sc', ro_log := ro_log s @ [ev]\<rparr>)"
      by (rule rtranclp_two)
    then show ?thesis using s(3,5) False by (intro exI conjI) (auto simp: frame_pending_def)
  next
    case True
    then obtain res where ev: "ev = EvReadFrame res" by (cases ev) (simp_all add: is_read_def)
    then have r: "all_recoverable (reads evs)" "\<exists>ys. rs = reads evs @ res # ys" using readFrames_next [of "reads evs"] snoc.prems(2) by simp_all
    then obtain ys where ys: "ro_frames s = res # ys" "ro_reader s = AtReadFrame" using s(3,5) by (auto simp: frame_pending_def)
    obtain sc2 where p: "processFrameFromReader env res sc1 = Inr (True, sc2)" "sc' = afterTurn sc2"
      using l(2) ev by (auto simp: serve_step_def split: if_splits)
    let ?s1 = "s\<lparr>ro_reader := AtSend res, ro_frames := ys\<rparr>"
    let ?s2 = "?s1\<lparr>ro_reader := AtGate res, ro_serve := AtFrame res\<rparr>"
    let ?s3 = "?s2\<lparr>ro_serve := AtReadMore, ro_session := sc2, ro_log := evs @ [EvReadFrame res]\<rparr>"
    let ?s4 = "?s3\<lparr>ro_serve := AtSelect, ro_session := sc',
      ro_reader := if terminalReadFrameError res then ReaderReturned else AtReadFrame\<rparr>"
    have "routine_step env s ?s1" by (rule routine_step.ReadFrame [OF ys(2,1)])
    moreover have "routine_step env ?s1 ?s2" using s(2) by (intro routine_step.Send) simp_all
    moreover have "routine_step env ?s2 ?s3" using routine_step.Process [of ?s2 res env True sc2] p(1) s(3,4) by simp
    moreover have "routine_step env ?s3 ?s4" using routine_step.Gate [of ?s3 res env] p(2) by simp
    ultimately have "routine_steps env (go_routines rs sc) ?s4" using s(1) by (meson rtranclp_two)
    moreover have "frame_pending rs ?s4" using r(2) ys s(3,5) r(1) by (auto simp: frame_pending_def all_recoverable_def)
    ultimately show ?thesis using ev by (intro exI [of _ ?s4]) simp
  qed
qed

text \<open>C10: reading and serving by two goroutines is the serve loop over a list of messages. The states in
  which the serve loop waits in \<open>select\<close> are exactly those that \<open>serve_loop\<close> reaches with messages whose
  frames are, in order and without a gap, the first results of \<open>readFrames\<close>.\<close>

theorem routines_serve_loop:
  "(\<exists>s. routine_steps env (go_routines rs sc) s \<and> ro_serve s = AtSelect \<and> ro_log s = evs \<and> ro_session s = sc') =
   (serve_loop env evs sc = Inr (True, sc') \<and> prefix (reads evs) (readFrames rs))"
proof
  assume "\<exists>s. routine_steps env (go_routines rs sc) s \<and> ro_serve s = AtSelect \<and> ro_log s = evs \<and> ro_session s = sc'"
  then obtain s where "routine_steps env (go_routines rs sc) s" "ro_serve s = AtSelect" "ro_log s = evs" "ro_session s = sc'"
    by blast
  then show "serve_loop env evs sc = Inr (True, sc') \<and> prefix (reads evs) (readFrames rs)"
    using routines_at [of env rs sc s] reader_at_prefix [of rs s] by (simp add: serve_at_def)
next
  assume "serve_loop env evs sc = Inr (True, sc') \<and> prefix (reads evs) (readFrames rs)"
  then show "\<exists>s. routine_steps env (go_routines rs sc) s \<and> ro_serve s = AtSelect \<and> ro_log s = evs \<and> ro_session s = sc'"
    using routines_run [of env evs sc sc' rs] by blast
qed

subsection \<open>Neither waits in vain\<close>

lemma doneServing_while_running:
  assumes "env_ok env" "session_inv sc" "sc_doneServing sc = ChanOpen" "\<forall>ev \<in> set (ro_log s). event_ok ev" "serve_at env sc s"
  shows "sc_doneServing (ro_session s) = (if ro_serve s = ServeReturned then ChanClosed else ChanOpen)"
proof -
  have f: "session_inv sc1 \<and> sc_doneServing sc1 = ChanOpen" if "serve_loop env (ro_log s) sc = Inr (k, sc1)" for k sc1
    using serve_loop_goes [OF assms(1,2,4)] that assms(3) by (auto simp: follows_def)
  have [simp]: "sc_doneServing (afterTurn sc1) = sc_doneServing sc1" for sc1 :: "'a Session"
    by (simp add: afterTurn_def shutDownIn_def Let_def)
  show ?thesis
  proof (cases "ro_serve s")
    case ServeReturned
    then obtain k sc1 where "serve_loop env (ro_log s) sc = Inr (k, sc1)" "serve_end env sc1 = Inr (ro_session s)"
      using assms(5) by (auto simp: serve_at_def)
    with f serve_end_closes [OF assms(1), of sc1] ServeReturned show ?thesis by fastforce
  qed (use assms(5) f in \<open>fastforce simp: serve_at_def\<close>)+
qed

text \<open>Where the reader is while the serve loop uses its frame, and why it may have returned.\<close>

definition in_step :: "'c routines \<Rightarrow> bool" where
  "in_step s \<longleftrightarrow>
     (\<forall>res. ro_serve s = AtFrame res \<longrightarrow> ro_reader s = AtGate res) \<and>
     (ro_serve s = AtReadMore \<longrightarrow> (\<exists>res. ro_reader s = AtGate res)) \<and>
     (ro_reader s = ReaderReturned \<longrightarrow> ro_serve s = ServeReturned \<or> (\<exists>res \<in> set (reads (ro_log s)). terminalReadFrameError res))"

lemma in_step_step:
  assumes "routine_step env s s'" "in_step s" "reader_at rs s"
    and "sc_doneServing (ro_session s) = (if ro_serve s = ServeReturned then ChanClosed else ChanOpen)"
  shows "in_step s'"
  using assms
  by cases (auto simp: in_step_def reader_at_def split: if_splits)

lemma log_grows: "routine_step env s s' \<Longrightarrow> set (ro_log s) \<subseteq> set (ro_log s')"
  by (auto elim: routine_step.cases)

lemma routines_in_step:
  assumes "env_ok env" "session_inv sc" "sc_doneServing sc = ChanOpen"
    and "routine_steps env (go_routines rs sc) s" "\<forall>ev \<in> set (ro_log s). event_ok ev"
  shows "in_step s"
  using assms(4,5)
proof induction
  case base
  show ?case by (simp add: go_routines_def in_step_def)
next
  case (step s s')
  then have ok: "\<forall>ev \<in> set (ro_log s). event_ok ev" using log_grows by blast
  have at: "serve_at env sc s" "reader_at rs s" using routines_at [OF step.hyps(1)] by simp_all
  from in_step_step [OF step.hyps(2) step.IH [OF ok] at(2) doneServing_while_running [OF assms(1-3) ok at(1)]]
  show ?case .
qed

text \<open>C11: the reader and the serve loop never wait for each other in vain. While a frame is handled the
  reader waits at the gate, so that the framer does not reuse its buffer; \<open>readMore\<close> always finds the reader
  there and returns; the reader returns before the serve loop only after a result that no frame can follow; and
  once \<open>Serve\<close> has returned, a reader that is not inside \<open>ReadFrame\<close> returns.\<close>

theorem routines_never_stuck:
  assumes "env_ok env" and "session_inv sc" and "sc_doneServing sc = ChanOpen"
    and "routine_steps env (go_routines rs sc) s" and "\<forall>ev \<in> set (ro_log s). event_ok ev"
  shows "(\<forall>res. ro_serve s = AtFrame res \<longrightarrow> ro_reader s = AtGate res) \<and>
    (ro_serve s = AtReadMore \<longrightarrow> (\<exists>s'. routine_step env s s' \<and> ro_serve s' = AtSelect)) \<and>
    (ro_reader s = ReaderReturned \<and> ro_serve s \<noteq> ServeReturned \<longrightarrow>
       (\<exists>res \<in> set (reads (ro_log s)). terminalReadFrameError res)) \<and>
    (ro_serve s = ServeReturned \<and> ro_reader s \<noteq> AtReadFrame \<and> ro_reader s \<noteq> ReaderReturned \<longrightarrow>
       (\<exists>s'. routine_step env s s' \<and> ro_reader s' = ReaderReturned))"
proof -
  have i: "in_step s" by (rule routines_in_step [OF assms])
  have gate: "\<exists>s'. routine_step env s s' \<and> ro_serve s' = AtSelect" if m: "ro_serve s = AtReadMore"
  proof -
    obtain res where "ro_reader s = AtGate res" using i m by (auto simp: in_step_def)
    from routine_step.Gate [OF m this] show ?thesis by fastforce
  qed
  have quit: "\<exists>s'. routine_step env s s' \<and> ro_reader s' = ReaderReturned"
    if r: "ro_serve s = ServeReturned" "ro_reader s \<noteq> AtReadFrame" "ro_reader s \<noteq> ReaderReturned"
  proof -
    obtain res where w: "ro_reader s = AtSend res \<or> ro_reader s = AtGate res" using r(2,3) by (cases "ro_reader s") auto
    have "serve_at env sc s" using routines_at [OF assms(4)] by simp
    from doneServing_while_running [OF assms(1-3,5) this] r(1) have "sc_doneServing (ro_session s) = ChanClosed" by simp
    from routine_step.Done [OF w this] show ?thesis by fastforce
  qed
  show ?thesis using i gate quit by (auto simp: in_step_def)
qed

subsection \<open>An error during a graceful shutdown\<close>

text \<open>Errors of \<open>ReadFrame\<close> after which the reader returns, although the serve loop goes on.\<close>

definition fatal_read :: "'c session_env \<Rightarrow> go_error \<Rightarrow> bool" where
  "fatal_read env err \<longleftrightarrow> err = ErrFrameTooLarge \<or>
     (\<exists>code. err = ConnectionError code) \<and> \<not> isClosedConnError (se_GOOS env) (se_ErrorText env) (Some err)"

lemma fatal_read_terminal: "fatal_read env err \<Longrightarrow> terminalReadFrameError (Inl err)"
  by (auto simp: fatal_read_def terminalReadFrameError_def)

lemma graceful_ignores:
  assumes "sc_inGoAway sc" "sc_goAwayCode sc = ErrCodeNo" "0 < curOpenStreams sc" "fatal_read env err"
  shows "serve_step env (EvReadFrame (Inl err)) sc = Inr (True, sc)"
proof -
  have g: "goAway env code sc = Inr sc" for code using assms(1) by (simp add: goAway_def)
  have "curOpenStreams sc \<noteq> 0" using assms(3) by (metis less_irrefl)
  then have t: "afterTurn sc = sc" using assms(2) by (simp add: afterTurn_def Let_def)
  have "processFrameFromReader env (Inl err) sc = Inr (True, sc)"
    using assms(4) unfolding fatal_read_def
  proof (elim disjE conjE exE)
    fix code
    assume "err = ConnectionError code" "\<not> isClosedConnError (se_GOOS env) (se_ErrorText env) (Some err)"
    then show ?thesis by (simp add: processFrameFromReader_def handleError_def g)
  qed (simp add: processFrameFromReader_def g)
  then show ?thesis by (simp add: serve_step_def t)
qed

lemma routine_steps_log: "routine_steps env s s' \<Longrightarrow> prefix (ro_log s) (ro_log s')"
proof (induction rule: rtranclp_induct)
  case (step s' s'')
  then show ?case by (auto elim!: routine_step.cases intro: prefix_order.trans)
qed simp

lemma reads_prefix: "prefix xs ys \<Longrightarrow> prefix (reads xs) (reads ys)"
  by (auto simp: prefix_def)

text \<open>C25: once a graceful shutdown has begun, an oversized frame or another connection error of the reader
  wedges a session that has streams open. \<open>goAway\<close> returns at once, so that the session does not change, no
  GOAWAY with the error is queued and no shutdown timer is started; but the reader has returned, and
  no frame that the peer sends is ever handled again.\<close>

theorem graceful_shutdown_wedges:
  assumes "routine_steps env (go_routines rs sc) s" and "ro_reader s = AtSend (Inl err)" and "fatal_read env err"
    and "sc_inGoAway (ro_session s)" and "sc_goAwayCode (ro_session s) = ErrCodeNo" and "0 < curOpenStreams (ro_session s)"
  shows "serve_step env (EvReadFrame (Inl err)) (ro_session s) = Inr (True, ro_session s) \<and>
    (\<forall>s'. routine_steps env s s' \<longrightarrow> reads (ro_log s') \<in> {reads (ro_log s), reads (ro_log s) @ [Inl err]})"
proof -
  have "reads (ro_log s') \<in> {reads (ro_log s), reads (ro_log s) @ [Inl err]}" if s': "routine_steps env s s'" for s'
  proof -
    have r: "all_recoverable (reads (ro_log s))" "rs = reads (ro_log s) @ Inl err # ro_frames s"
      using routines_at [OF assms(1)] assms(2) by (auto simp: reader_at_def)
    have "readFrames rs = reads (ro_log s) @ [Inl err]"
      unfolding r(2) readFrames_recoverable [OF r(1)] using fatal_read_terminal [OF assms(3)] by simp
    moreover have "routine_steps env (go_routines rs sc) s'" using assms(1) s' by (rule rtranclp_trans)
    ultimately have "prefix (reads (ro_log s')) (reads (ro_log s) @ [Inl err])"
      using routines_at reader_at_prefix by metis
    moreover have "prefix (reads (ro_log s)) (reads (ro_log s'))" by (rule reads_prefix [OF routine_steps_log [OF s']])
    ultimately show ?thesis by (auto simp: prefix_def Cons_eq_append_conv)
  qed
  then show ?thesis using graceful_ignores [OF assms(4-6,3)] by blast
qed

text \<open>A client with one stream that shuts down; then the peer sends an oversized frame.\<close>

definition leaving_run :: "serve_event list" where
  "leaving_run = [EvCreateStream 0 [(''k'', [''v''])] False, EvReadFrame (Inr (SettingsFrame False [])), EvGracefulShutdown]"

definition leaving_frames :: "readFrameResult list" where
  "leaving_frames = [Inr (SettingsFrame False []), Inl ErrFrameTooLarge]"

lemma leaving_run_state:
  "case serve_loop demo_env leaving_run new_client of
     Inr (True, sc) \<Rightarrow> sc_inGoAway sc \<and> sc_goAwayCode sc = ErrCodeNo \<and> 0 < curOpenStreams sc | _ \<Rightarrow> False"
  by code_simp

lemma leaving_steps:
  obtains s where "routine_steps demo_env (go_routines leaving_frames new_client) s" "ro_reader s = AtSend (Inl ErrFrameTooLarge)"
    "ro_serve s = AtSelect" "ro_log s = leaving_run" "sc_inGoAway (ro_session s)" "sc_goAwayCode (ro_session s) = ErrCodeNo"
    "0 < curOpenStreams (ro_session s)"
proof -
  obtain sc where l: "serve_loop demo_env leaving_run new_client = Inr (True, sc)" "sc_inGoAway sc" "sc_goAwayCode sc = ErrCodeNo"
    "0 < curOpenStreams sc"
    using leaving_run_state by auto
  have r: "reads leaving_run = [Inr (SettingsFrame False [])]" by (simp add: leaving_run_def)
  have "prefix (reads leaving_run) (readFrames leaving_frames)"
    unfolding r by (simp add: leaving_frames_def terminalReadFrameError_def)
  from routines_run [OF l(1) this] obtain s where s: "routine_steps demo_env (go_routines leaving_frames new_client) s"
    "ro_serve s = AtSelect" "ro_log s = leaving_run" "ro_session s = sc" "frame_pending leaving_frames s" by blast
  have f: "ro_reader s = AtReadFrame" "ro_frames s = [Inl ErrFrameTooLarge]"
    using s(3,5) r by (simp_all add: frame_pending_def all_recoverable_def terminalReadFrameError_def leaving_frames_def)
  from rtranclp_two [OF s(1) routine_step.ReadFrame [OF f]] show ?thesis
    by (rule that) (simp_all add: s l)
qed

theorem graceful_shutdown_wedges_witness:
  "\<exists>s. routine_steps demo_env (go_routines leaving_frames new_client) s \<and> 0 < curOpenStreams (ro_session s) \<and>
    serve_step demo_env (EvReadFrame (Inl ErrFrameTooLarge)) (ro_session s) = Inr (True, ro_session s)"
proof -
  obtain s where s: "routine_steps demo_env (go_routines leaving_frames new_client) s" "ro_reader s = AtSend (Inl ErrFrameTooLarge)"
    "sc_inGoAway (ro_session s)" "sc_goAwayCode (ro_session s) = ErrCodeNo" "0 < curOpenStreams (ro_session s)"
    using leaving_steps by blast
  have "fatal_read demo_env ErrFrameTooLarge" by (simp add: fatal_read_def)
  from graceful_shutdown_wedges [OF s(1,2) this s(3-5)] s(1,5) show ?thesis by blast
qed

theorem routines_never_stuck_witness:
  "\<exists>s. routine_steps demo_env (go_routines leaving_frames new_client) s \<and> ro_serve s = AtReadMore \<and>
    (\<exists>s'. routine_step demo_env s s' \<and> ro_serve s' = AtSelect)"
proof -
  obtain s where s: "routine_steps demo_env (go_routines leaving_frames new_client) s" "ro_reader s = AtSend (Inl ErrFrameTooLarge)"
    "ro_serve s = AtSelect" "ro_log s = leaving_run" "sc_inGoAway (ro_session s)" "sc_goAwayCode (ro_session s) = ErrCodeNo"
    "0 < curOpenStreams (ro_session s)"
    by (rule leaving_steps)
  let ?s1 = "s\<lparr>ro_reader := AtGate (Inl ErrFrameTooLarge), ro_serve := AtFrame (Inl ErrFrameTooLarge)\<rparr>"
  have "processFrameFromReader demo_env (Inl ErrFrameTooLarge) (ro_session s) = Inr (True, ro_session s)"
    using s(5) by (simp add: processFrameFromReader_def goAway_def)
  then have "routine_step demo_env ?s1 (?s1\<lparr>ro_serve := AtReadMore, ro_log := leaving_run @ [EvReadFrame (Inl ErrFrameTooLarge)]\<rparr>)"
    (is "routine_step _ _ ?s2")
    using routine_step.Process [of ?s1 "Inl ErrFrameTooLarge" demo_env True "ro_session s"] s(4) by simp
  then have 2: "routine_steps demo_env (go_routines leaving_frames new_client) ?s2"
    using routine_step.Send [OF s(2,3), of demo_env] s(1) by (meson rtranclp_two)
  have "\<forall>ev \<in> set (ro_log ?s2). event_ok ev" by (simp add: leaving_run_def result_ok_def)
  with routines_never_stuck [OF demo_env_ok new_client_inv _ 2] 2 show ?thesis
    by (auto simp: NewClientSession_def newSession_def)
qed

end
