(* ===== verification/WireBlind.thy ===== *)
theory WireBlind
  imports ReadLoop
begin

text \<open>
  While a frame is being written, no handler of the serve loop reads or changes the connection. Two sessions
  that differ only in the connection (and in the note that a goroutine has been started) take the same turns. The
  one exception is a SETTINGS frame with SETTINGS_HEADER_TABLE_SIZE, whose handler resizes the
  HPACK encoder.
\<close>

subsection \<open>Sessions that differ in the connection\<close>

definition unwired :: "FrameWriteRequest option \<times> 'c \<Rightarrow> 'c \<Rightarrow> 'c Session \<Rightarrow> 'c Session \<Rightarrow> bool" where
  "unwired a w sc sc' \<longleftrightarrow> sc' = sc\<lparr>sc_wire := w, sc_async := None\<rparr> \<and> sc_writingFrame sc \<and>
     (sc_async sc, sc_wire sc) = a"

text \<open>Two results: the same panic, or values that are related.\<close>

abbreviation alike :: "('a \<Rightarrow> 'b \<Rightarrow> bool) \<Rightarrow> go_panic + 'a \<Rightarrow> go_panic + 'b \<Rightarrow> bool" where
  "alike R \<equiv> rel_sum (=) R"

lemma alike_bind:
  assumes "alike R m m'" "\<And>x y. R x y \<Longrightarrow> alike Q (f x) (g y)"
  shows "alike Q (bindE m f) (bindE m' g)"
  using assms by (cases m; cases m') auto

lemma alike_bind2:
  assumes "alike (rel_prod (=) R) m m'" "\<And>r x y. R x y \<Longrightarrow> alike Q (f (r, x)) (g (r, y))"
  shows "alike Q (bindE m f) (bindE m' g)"
  using assms(1) by (rule alike_bind) (auto intro: assms(2))

lemma alike_same: "(\<And>x. alike Q (f x) (g x)) \<Longrightarrow> alike Q (bindE m f) (bindE m g)"
  by (cases m) auto

lemma unwiredI [intro]: "sc_writingFrame sc \<Longrightarrow> unwired (sc_async sc, sc_wire sc) w sc (sc\<lparr>sc_wire := w, sc_async := None\<rparr>)"
  by (simp add: unwired_def)

named_theorems same_wire

declare scheduleFrameWrite.simps [simp del] One_nat_def [simp del] bindE_eq_Inr_iff [simp del]

lemma schedule_unwired [same_wire]: "unwired a w sc sc' \<Longrightarrow> alike (unwired a w) (schedule env sc) (schedule env sc')"
  by (auto simp: unwired_def scheduleFrameWrite.simps One_nat_def)

lemma Session_state_wire [simp]: "Session_state i (sc\<lparr>sc_wire := w\<rparr>) = Session_state i sc" "Session_state i (sc\<lparr>sc_async := a\<rparr>) = Session_state i sc"
  by (simp_all add: Session_state_def)

lemma update_stream_wire [simp]:
  "update_stream i f (sc\<lparr>sc_wire := w\<rparr>) = (update_stream i f sc)\<lparr>sc_wire := w\<rparr>"
  "update_stream i f (sc\<lparr>sc_async := a\<rparr>) = (update_stream i f sc)\<lparr>sc_async := a\<rparr>"
  by (simp_all add: update_stream_def)

lemma unwired_update [same_wire]: "unwired a w sc sc' \<Longrightarrow> unwired a w (update_stream i f sc) (update_stream i f sc')"
  by (auto simp: unwired_def) (simp_all add: update_stream_def)

lemma noteHeaders_unwired:
  "unwired a w sc sc' \<Longrightarrow> alike (rel_prod (=) (unwired a w)) (noteHeaders wr b sc) (noteHeaders wr b sc')"
  using unwired_update [of a w sc sc']
  by (auto simp: noteHeaders_def unwired_def split: option.split writeFramer.split)

lemma writeFrame_unwired [same_wire]:
  assumes "unwired a w sc sc'"
  shows "alike (unwired a w) (Session_writeFrame (schedule env) wr sc) (Session_writeFrame (schedule env) wr sc')"
proof -
  have "Session_state i sc' = Session_state i sc" for i using assms by (auto simp: unwired_def)
  moreover have "alike (unwired a w)
      (bindE (if b then bindE (Push wr (sc_writeSched s)) (\<lambda>ws. Inr (s\<lparr>sc_writeSched := ws\<rparr>)) else Inr s) (schedule env))
      (bindE (if b then bindE (Push wr (sc_writeSched s')) (\<lambda>ws. Inr (s'\<lparr>sc_writeSched := ws\<rparr>)) else Inr s') (schedule env))"
    if "unwired a w s s'" for b s s'
  proof (rule alike_bind [of "unwired a w"])
    show "alike (unwired a w) (if b then bindE (Push wr (sc_writeSched s)) (\<lambda>ws. Inr (s\<lparr>sc_writeSched := ws\<rparr>)) else Inr s)
        (if b then bindE (Push wr (sc_writeSched s')) (\<lambda>ws. Inr (s'\<lparr>sc_writeSched := ws\<rparr>)) else Inr s')"
      using that by (auto simp: unwired_def intro: alike_same)
  qed (rule schedule_unwired)
  ultimately show ?thesis
    unfolding Session_writeFrame_def Let_def
    by (simp only: prod.case) (rule alike_bind2 [OF noteHeaders_unwired [OF assms]], simp only: prod.case)
qed

text \<open>What the two sessions share.\<close>

lemma unwired_fields:
  assumes "unwired a w sc sc'"
  shows "sc_streams sc' = sc_streams sc" "sc_objs sc' = sc_objs sc" "sc_inflow sc' = sc_inflow sc" "sc_flow sc' = sc_flow sc"
    "sc_writeSched sc' = sc_writeSched sc" "sc_inGoAway sc' = sc_inGoAway sc" "sc_goAwayCode sc' = sc_goAwayCode sc"
    "sc_server sc' = sc_server sc" "sc_unackedSettings sc' = sc_unackedSettings sc" "sc_handler sc' = sc_handler sc"
    "sc_advMaxStreams sc' = sc_advMaxStreams sc" "sc_peerMaxStreams sc' = sc_peerMaxStreams sc"
    "sc_maxClientStreamID sc' = sc_maxClientStreamID sc" "sc_maxPushPromiseID sc' = sc_maxPushPromiseID sc"
    "sc_curClientStreams sc' = sc_curClientStreams sc" "sc_curPushedStreams sc' = sc_curPushedStreams sc"
    "sc_initialStreamSendWindowSize sc' = sc_initialStreamSendWindowSize sc"
    "sc_initialStreamRecvWindowSize sc' = sc_initialStreamRecvWindowSize sc"
    "sc_idleTimeout sc' = sc_idleTimeout sc" "sc_idleTimer sc' = sc_idleTimer sc" "sc_handled sc' = sc_handled sc"
    "sc_sawFirstSettings sc' = sc_sawFirstSettings sc" "sc_sessionReady sc' = sc_sessionReady sc"
    "sc_needToSendGoAway sc' = sc_needToSendGoAway sc" "sc_writingFrame sc' = sc_writingFrame sc"
    "sc_shutdownTimer sc' = sc_shutdownTimer sc" "Session_state i sc' = Session_state i sc"
    "sc_writingFrame sc"
  using assms by (auto simp: unwired_def)

lemma sendWindowUpdate32_unwired [same_wire]:
  assumes "unwired a w sc sc'"
  shows "alike (unwired a w) (sendWindowUpdate32 (schedule env) st n sc) (sendWindowUpdate32 (schedule env) st n sc')"
proof -
  have "alike (unwired a w) (let (ok, inflow) = flow_add (flow_of st) n (sc_inflow x)
      in if \<not> ok then Inl e else Inr (x\<lparr>sc_inflow := inflow\<rparr>)) (let (ok, inflow) = flow_add (flow_of st) n (sc_inflow y)
      in if \<not> ok then Inl e else Inr (y\<lparr>sc_inflow := inflow\<rparr>))" if "unwired a w x y" for x y e
    using that by (auto simp: unwired_def Let_def split: prod.split)
  then show ?thesis
    using assms unfolding sendWindowUpdate32_def Let_def [of "case st of None \<Rightarrow> 0 | Some i \<Rightarrow> i"]
    by (auto intro: alike_bind [OF writeFrame_unwired])
qed

lemma sendWindowUpdate_unwired [same_wire]:
  "unwired a w sc sc' \<Longrightarrow> alike (unwired a w) (sendWindowUpdate (schedule env) st n sc) (sendWindowUpdate (schedule env) st n sc')"
proof (induction "nat n" arbitrary: n sc sc' rule: less_induct)
  case less
  show ?case
  proof (cases "n \<ge> maxUint31")
    case True
    have "alike (unwired a w) (sendWindowUpdate (schedule env) st (n - maxUint31) x) (sendWindowUpdate (schedule env) st (n - maxUint31) y)"
      if "unwired a w x y" for x y
      using less.hyps [OF _ that, of "n - maxUint31"] True by (simp add: maxUint31_def)
    then have "alike (unwired a w)
        (bindE (sendWindowUpdate32 (schedule env) st (word_of_int maxUint31) sc) (sendWindowUpdate (schedule env) st (n - maxUint31)))
        (bindE (sendWindowUpdate32 (schedule env) st (word_of_int maxUint31) sc') (sendWindowUpdate (schedule env) st (n - maxUint31)))"
      by (rule alike_bind [OF sendWindowUpdate32_unwired [OF less.prems]])
    then show ?thesis using True by (subst (1 2) sendWindowUpdate.simps) simp
  next
    case False
    then show ?thesis
      using sendWindowUpdate32_unwired [OF less.prems] by (subst (1 2) sendWindowUpdate.simps) simp
  qed
qed

lemma resetStream_unwired [same_wire]:
  assumes "unwired a w sc sc'"
  shows "alike (unwired a w) (resetStream (schedule env) i code sc) (resetStream (schedule env) i code sc')"
  unfolding resetStream_def
  by (rule alike_bind [OF writeFrame_unwired [OF assms]]) (simp add: unwired_fields unwired_update)

lemma closeStream_unwired [same_wire]:
  assumes "unwired a w sc sc'"
  shows "alike (unwired a w) (closeStream env (schedule env) i err sc) (closeStream env (schedule env) i err sc')"
proof -
  note f = unwired_fields [OF assms]
  have d: "unwired a w (dropStream i sc) (dropStream i sc')"
    using assms by (auto simp: unwired_def dropStream_def Let_def update_stream_def)
  have "alike (unwired a w)
      (bindE (CloseWithError (Some err) (st_body (sc_objs x i))) (\<lambda>body.
       bindE (go_close (st_cw (sc_objs x i))) (\<lambda>cw.
         let sc3 = update_stream i (\<lambda>st. st\<lparr>st_body := body, st_ctxDone := True, st_cw := cw\<rparr>) x
         in bindE (CloseStream i (sc_writeSched sc3)) (\<lambda>ws. Inr (sc3\<lparr>sc_writeSched := ws\<rparr>)))))
      (bindE (CloseWithError (Some err) (st_body (sc_objs y i))) (\<lambda>body.
       bindE (go_close (st_cw (sc_objs y i))) (\<lambda>cw.
         let sc3 = update_stream i (\<lambda>st. st\<lparr>st_body := body, st_ctxDone := True, st_cw := cw\<rparr>) y
         in bindE (CloseStream i (sc_writeSched sc3)) (\<lambda>ws. Inr (sc3\<lparr>sc_writeSched := ws\<rparr>)))))"
    if "unwired a w x y" for x y
  proof -
    have y: "y = x\<lparr>sc_wire := w, sc_async := None\<rparr>" "sc_writingFrame x" "(sc_async x, sc_wire x) = a" using that by (simp_all add: unwired_def)
    show ?thesis unfolding y(1) Let_def
      by (intro alike_same | simp)+ (use y(2,3) in \<open>simp add: unwired_def update_stream_def\<close>)
  qed
  from alike_bind [OF sendWindowUpdate_unwired [OF d] this] show ?thesis
    unfolding closeStream_def Let_def unwired_fields [OF d] by (simp add: f)
qed

lemma goAway_unwired [same_wire]:
  assumes "unwired a w sc sc'"
  shows "alike (unwired a w) (goAway env code sc) (goAway env code sc')"
proof -
  let ?f = "\<lambda>sc. sc\<lparr>sc_inGoAway := True, sc_needToSendGoAway := True, sc_goAwayCode := code\<rparr>"
  have "unwired a w (?f sc) (?f sc')" using assms by (auto simp: unwired_def)
  from schedule_unwired [OF this] assms show ?thesis unfolding goAway_def unwired_fields [OF assms] by simp
qed

lemma newStream_unwired:
  assumes "unwired a w sc sc'"
  shows "alike (unwired a w) (newStream i p st sc) (newStream i p st sc')"
  using assms by (auto simp: newStream_def unwired_def Let_def intro!: alike_same)

lemma noteBodyRead_unwired [same_wire]:
  assumes "unwired a w sc sc'"
  shows "alike (unwired a w) (noteBodyRead env i n sc) (noteBodyRead env i n sc')"
  unfolding noteBodyRead_def
  by (rule alike_bind [OF sendWindowUpdate_unwired [OF assms]]) (auto simp: unwired_fields sendWindowUpdate_unwired)

text \<open>Handlers that return an error with the session.\<close>

abbreviation alike2 where "alike2 a w \<equiv> alike (rel_prod (=) (unwired a w))"

lemma alike_return: "alike (unwired a w) m m' \<Longrightarrow> alike2 a w (bindE m (\<lambda>sc. Inr (r, sc))) (bindE m' (\<lambda>sc. Inr (r, sc)))"
  by (rule alike_bind) simp_all

lemma createStream_unwired:
  assumes "unwired a w sc sc'"
  shows "alike2 a w (createStream env p h e sc) (createStream env p h e sc')"
proof -
  let ?i = "nextStreamID sc" and ?st = "if e then StateHalfClosedRemote else StateOpen"
  have s: "unwired a w (setOwnMaxStreamID ?i sc) (setOwnMaxStreamID ?i sc')" "nextStreamID sc' = ?i"
    "ownCurStreams sc' = ownCurStreams sc" "ownMaxStreamID sc' = ownMaxStreamID sc"
    using assms by (auto simp: setOwnMaxStreamID_def unwired_def nextStreamID_def ownMaxStreamID_def ownCurStreams_def)
  have "alike2 a w
      (bindE (newStream ?i p ?st (setOwnMaxStreamID ?i sc)) (\<lambda>sc2.
        bindE (Session_writeFrame (schedule env) (request (WriteResHeaders (resHeaders ?i 0 h e)) (Some ?i)) sc2) (\<lambda>sc3. Inr (r, sc3))))
      (bindE (newStream ?i p ?st (setOwnMaxStreamID ?i sc')) (\<lambda>sc2.
        bindE (Session_writeFrame (schedule env) (request (WriteResHeaders (resHeaders ?i 0 h e)) (Some ?i)) sc2) (\<lambda>sc3. Inr (r, sc3))))"
    for r :: "go_error + u32"
    by (rule alike_bind [OF newStream_unwired [OF s(1)]]) (intro alike_return writeFrame_unwired)
  then show ?thesis
    using alike_return [OF goAway_unwired [OF assms]] assms
    unfolding createStream_def s unwired_fields [OF assms] startGracefulShutdownInternal_def Let_def
    by auto
qed

lemma endStream_unwired:
  assumes "unwired a w sc sc'"
  shows "alike (unwired a w) (endStream i sc) (endStream i sc')"
  using assms by (auto simp: endStream_def unwired_def Let_def update_stream_def intro!: alike_same)

lemma processTrailerHeaders_unwired:
  assumes "unwired a w sc sc'"
  shows "alike2 a w (processTrailerHeaders i f sc) (processTrailerHeaders i f sc')"
proof -
  note u = unwired_update [OF assms]
  show ?thesis
    unfolding processTrailerHeaders_def Let_def unwired_fields [OF assms] unwired_fields [OF u]
    using assms u alike_return [OF endStream_unwired [OF u]] alike_return [OF endStream_unwired [OF unwired_update [OF u]]]
    by (auto split: option.split)
qed

lemma processReply_unwired:
  assumes "unwired a w sc sc'"
  shows "alike2 a w (processReply env f sc) (processReply env f sc')"
  unfolding processReply_def Let_def unwired_fields [OF assms]
  using assms processTrailerHeaders_unwired [OF assms] unwired_update [OF assms] by (auto intro!: alike_same)

lemma adjust_priority_unwired:
  assumes "unwired a w sc sc'"
  shows "alike2 a w (adjust_priority i p sc) (adjust_priority i p sc')"
  unfolding adjust_priority_def unwired_fields [OF assms]
  using assms by (auto simp: unwired_def intro!: alike_same)

lemma acceptStream_unwired:
  assumes "unwired a w sc sc'"
  shows "alike2 a w (acceptStream env f sc) (acceptStream env f sc')"
proof -
  have fin: "alike2 a w (case err of Some e \<Rightarrow> Inr (Some e, x) | None \<Rightarrow> Inr (None, x\<lparr>sc_handled := sc_handled x @ [i]\<rparr>))
      (case err of Some e \<Rightarrow> Inr (Some e, y) | None \<Rightarrow> Inr (None, y\<lparr>sc_handled := sc_handled y @ [i]\<rparr>))"
    if "unwired a w x y" for x y i and err :: "go_error option"
    using that by (auto simp: unwired_def split: option.split)
  have prio: "alike2 a w
      (case mh_Priority f of None \<Rightarrow> Inr (None, x) | Some p \<Rightarrow>
        (case checkPriority i p of Some err \<Rightarrow> Inr (Some err, x) | None \<Rightarrow> adjust_priority i p x))
      (case mh_Priority f of None \<Rightarrow> Inr (None, y) | Some p \<Rightarrow>
        (case checkPriority i p of Some err \<Rightarrow> Inr (Some err, y) | None \<Rightarrow> adjust_priority i p y))"
    if "unwired a w x y" for x y i
    using that adjust_priority_unwired [OF that] by (auto split: option.split)
  show ?thesis
    unfolding acceptStream_def Let_def
    by (rule alike_bind [OF newStream_unwired [OF assms]], rule alike_bind2 [OF prio [OF unwired_update]])
      (simp_all add: fin)
qed

lemma processHeaders_unwired:
  assumes "unwired a w sc sc'"
  shows "alike2 a w (processHeaders env f sc) (processHeaders env f sc')"
proof -
  let ?i = "mh_StreamID f"
  have s: "unwired a w (setPeerMaxStreamID ?i sc) (setPeerMaxStreamID ?i sc')" "peerMaxStreamID sc' = peerMaxStreamID sc"
    "peerCurStreams sc' = peerCurStreams sc"
    using assms by (auto simp: setPeerMaxStreamID_def unwired_def peerMaxStreamID_def peerCurStreams_def)
  show ?thesis
    unfolding processHeaders_def Let_def s unwired_fields [OF assms] unwired_fields [OF s(1)]
    using assms s(1) processReply_unwired [OF assms] acceptStream_unwired [OF s(1)] by auto
qed

lemma unwired_inflow: "unwired a w sc sc' \<Longrightarrow> unwired a w (sc\<lparr>sc_inflow := f\<rparr>) (sc'\<lparr>sc_inflow := f\<rparr>)"
  and unwired_flow: "unwired a w sc sc' \<Longrightarrow> unwired a w (sc\<lparr>sc_flow := f\<rparr>) (sc'\<lparr>sc_flow := f\<rparr>)"
  by (auto simp: unwired_def)

lemma refuseData_unwired:
  assumes "unwired a w sc sc'"
  shows "alike2 a w (refuseData env f st sc) (refuseData env f st sc')"
proof -
  have "alike2 a w
      (bindE (sendWindowUpdate (schedule env) None n (sc\<lparr>sc_inflow := i\<rparr>)) (\<lambda>sc1.
         if st \<noteq> None \<and> st_resetQueued (sc_objs sc1 j) then Inr (None, sc1) else Inr (Some e, sc1)))
      (bindE (sendWindowUpdate (schedule env) None n (sc'\<lparr>sc_inflow := i\<rparr>)) (\<lambda>sc1.
         if st \<noteq> None \<and> st_resetQueued (sc_objs sc1 j) then Inr (None, sc1) else Inr (Some e, sc1)))"
    for i n j and e :: go_error
    by (rule alike_bind [OF sendWindowUpdate_unwired [OF unwired_inflow [OF assms]]]) (auto simp: unwired_def)
  then show ?thesis
    using assms unfolding refuseData_def Let_def unwired_fields [OF assms] by (auto intro!: alike_same)
qed

lemma storeData_unwired:
  assumes "unwired a w sc sc'"
  shows "alike2 a w (storeData env i d sc) (storeData env i d sc')"
  unfolding storeData_def Let_def unwired_fields [OF assms]
  using assms by (auto simp: unwired_update split: prod.split intro!: alike_same)

lemma returnPadding_unwired:
  assumes "unwired a w sc sc'"
  shows "alike (unwired a w) (returnPadding env i pad sc) (returnPadding env i pad sc')"
  using assms by (auto simp: returnPadding_def intro!: alike_bind [OF sendWindowUpdate32_unwired] sendWindowUpdate32_unwired)

lemma receiveData_unwired:
  assumes "unwired a w sc sc'"
  shows "alike2 a w (receiveData env f sc) (receiveData env f sc')"
proof -
  have store: "alike2 a w
      (bindE (storeData env i d (sc\<lparr>sc_inflow := fs\<rparr>)) (\<lambda>(err, sc1).
         if err \<noteq> None then Inr (err, sc1) else bindE (returnPadding env i pad sc1) (\<lambda>sc2. Inr (None, sc2))))
      (bindE (storeData env i d (sc'\<lparr>sc_inflow := fs\<rparr>)) (\<lambda>(err, sc1).
         if err \<noteq> None then Inr (err, sc1) else bindE (returnPadding env i pad sc1) (\<lambda>sc2. Inr (None, sc2))))"
    for i d fs pad
    by (rule alike_bind2 [OF storeData_unwired [OF unwired_inflow [OF assms]]]) (auto intro!: alike_return returnPadding_unwired)
  show ?thesis
    using assms unfolding receiveData_def Let_def unwired_fields [OF assms] by (auto intro!: alike_same store simp del: not_None_eq)
qed

lemma alike_if:
  "(c \<Longrightarrow> alike Q m m') \<Longrightarrow> (\<not> c \<Longrightarrow> alike Q n n') \<Longrightarrow> alike Q (if c then m else n) (if c then m' else n')"
  by simp

lemma processData_unwired:
  assumes "unwired a w sc sc'"
  shows "alike2 a w (processData env f sc) (processData env f sc')"
proof -
  have "alike2 a w
      (bindE (if 0 < df_Length f then receiveData env f sc else Inr (None, sc)) (\<lambda>(err, sc1).
         if err \<noteq> None then Inr (err, sc1)
         else if df_StreamEnded f then bindE (endStream i sc1) (\<lambda>sc2. Inr (None, sc2)) else Inr (None, sc1)))
      (bindE (if 0 < df_Length f then receiveData env f sc' else Inr (None, sc')) (\<lambda>(err, sc1).
         if err \<noteq> None then Inr (err, sc1)
         else if df_StreamEnded f then bindE (endStream i sc1) (\<lambda>sc2. Inr (None, sc2)) else Inr (None, sc1)))" for i
    by (rule alike_bind2 [of "unwired a w"]) (use assms receiveData_unwired [OF assms] in \<open>auto intro!: alike_return endStream_unwired\<close>)
  note rest = this
  obtain state st where q: "Session_state (df_StreamID f) sc = (state, st)" by (cases "Session_state (df_StreamID f) sc")
  show ?thesis
    unfolding processData_def Let_def unwired_fields [OF assms] q prod.case
    by (intro alike_if rest refuseData_unwired assms) (simp_all add: assms)
qed

subsection \<open>SETTINGS\<close>

text \<open>SETTINGS_HEADER_TABLE_SIZE is the one message whose handler uses the HPACK encoder.\<close>

definition resizes :: "setting list \<Rightarrow> bool" where
  "resizes ss \<longleftrightarrow> SettingHeaderTableSize \<in> fst ` set ss"

lemma processSetting_unwired:
  assumes "unwired a w sc sc'" "fst s \<noteq> SettingHeaderTableSize"
  shows "rel_prod (=) (unwired a w) (processSetting env s sc) (processSetting env s sc')"
  using assms
  by (auto simp: processSetting_def processSettingInitialWindowSize_def unwired_def Let_def split: option.split prod.split)

lemma ForeachSetting_unwired:
  assumes "unwired a w sc sc'" "\<not> resizes ss"
  shows "rel_prod (=) (unwired a w) (ForeachSetting (processSetting env) ss sc) (ForeachSetting (processSetting env) ss sc')"
  using assms
proof (induction ss arbitrary: sc sc')
  case (Cons s ss)
  have n: "fst s \<noteq> SettingHeaderTableSize" "\<not> resizes ss" using Cons.prems(2) by (auto simp: resizes_def)
  obtain e x y where "processSetting env s sc = (e, x)" "processSetting env s sc' = (e, y)" "unwired a w x y"
    using processSetting_unwired [OF Cons.prems(1) n(1), of env]
    by (cases "processSetting env s sc"; cases "processSetting env s sc'") auto
  then show ?case using Cons.IH [OF _ n(2), of x y] by (auto split: option.split)
qed simp

lemma processSettings_unwired:
  assumes "unwired a w sc sc'" "\<not> resizes ss"
  shows "alike2 a w (processSettings env ack ss sc) (processSettings env ack ss sc')"
proof -
  obtain e x y where f: "ForeachSetting (processSetting env) ss sc = (e, x)" "ForeachSetting (processSetting env) ss sc' = (e, y)"
    "unwired a w x y"
    using ForeachSetting_unwired [OF assms, of env]
    by (cases "ForeachSetting (processSetting env) ss sc"; cases "ForeachSetting (processSetting env) ss sc'") auto
  have "unwired a w (x\<lparr>sc_needToSendSettingsAck := True\<rparr>) (y\<lparr>sc_needToSendSettingsAck := True\<rparr>)"
    using f(3) by (auto simp: unwired_def)
  from alike_return [OF schedule_unwired [OF this, of env], of "None :: go_error option"]
  have "alike2 a w (case e of Some err \<Rightarrow> Inr (Some err, x)
        | None \<Rightarrow> bindE (schedule env (x\<lparr>sc_needToSendSettingsAck := True\<rparr>)) (\<lambda>sc2. Inr (None, sc2)))
      (case e of Some err \<Rightarrow> Inr (Some err, y)
        | None \<Rightarrow> bindE (schedule env (y\<lparr>sc_needToSendSettingsAck := True\<rparr>)) (\<lambda>sc2. Inr (None, sc2)))"
    using f(3) by (auto split: option.split)
  then show ?thesis
    using assms(1) unfolding processSettings_def f(1,2) by (auto simp: unwired_def Let_def split: option.splits)
qed

subsection \<open>Turns of the serve loop\<close>

lemma processWindowUpdate_unwired:
  assumes "unwired a w sc sc'"
  shows "alike2 a w (processWindowUpdate env i n sc) (processWindowUpdate env i n sc')"
proof -
  have "alike2 a w (bindE (schedule env (sc\<lparr>sc_flow := fs\<rparr>)) (\<lambda>sc1. Inr (None, sc1)))
      (bindE (schedule env (sc'\<lparr>sc_flow := fs\<rparr>)) (\<lambda>sc1. Inr (None, sc1)))" for fs
    by (intro alike_return schedule_unwired unwired_flow assms)
  then show ?thesis
    using assms unfolding processWindowUpdate_def Let_def unwired_fields [OF assms] by (auto split: prod.split)
qed

lemma processGoAway_unwired:
  assumes "unwired a w sc sc'"
  shows "alike2 a w (processGoAway env sc) (processGoAway env sc')"
  unfolding processGoAway_def startGracefulShutdownInternal_def
  by (rule alike_bind [OF goAway_unwired [OF assms]]) (auto simp: unwired_def)

lemma processPing_unwired:
  assumes "unwired a w sc sc'"
  shows "alike2 a w (processPing env i ack d sc) (processPing env i ack d sc')"
  using assms unfolding processPing_def unwired_fields [OF assms] by (auto intro!: alike_return writeFrame_unwired)

lemma processResetStream_unwired:
  assumes "unwired a w sc sc'"
  shows "alike2 a w (processResetStream env i code sc) (processResetStream env i code sc')"
  using assms unfolding processResetStream_def Let_def unwired_fields [OF assms]
  by (auto intro!: alike_return closeStream_unwired split: prod.split)

lemma processPriority_unwired:
  assumes "unwired a w sc sc'"
  shows "alike2 a w (processPriority i p sc) (processPriority i p sc')"
  using assms adjust_priority_unwired [OF assms] unfolding processPriority_def unwired_fields [OF assms]
  by (auto split: option.split)

text \<open>The messages that leave the encoder alone. Messages of the writer are not among them.\<close>

fun wire_free :: "serve_event \<Rightarrow> bool" where
  "wire_free EvWroteFrame = False"
| "wire_free (EvReadFrame (Inr (SettingsFrame _ ss))) = (\<not> resizes ss)"
| "wire_free _ = True"

lemma dispatchFrame_unwired:
  assumes "unwired a w sc sc'" "wire_free (EvReadFrame (Inr f))"
  shows "alike2 a w (dispatchFrame env f sc) (dispatchFrame env f sc')"
  using assms processSettings_unwired [OF assms(1)] processHeaders_unwired [OF assms(1)] processWindowUpdate_unwired [OF assms(1)]
    processPing_unwired [OF assms(1)] processData_unwired [OF assms(1)] processResetStream_unwired [OF assms(1)]
    processPriority_unwired [OF assms(1)] processGoAway_unwired [OF assms(1)]
  by (cases f) (simp_all add: dispatchFrame_def)

lemma processFrame_unwired:
  assumes "unwired a w sc sc'" "wire_free (EvReadFrame (Inr f))"
  shows "alike2 a w (processFrame env f sc) (processFrame env f sc')"
proof -
  have "unwired a w (sc\<lparr>sc_sawFirstSettings := True, sc_sessionReady := r\<rparr>) (sc'\<lparr>sc_sawFirstSettings := True, sc_sessionReady := r\<rparr>)" for r
    using assms(1) by (auto simp: unwired_def)
  from dispatchFrame_unwired [OF this assms(2)] dispatchFrame_unwired [OF assms] assms(1)
  show ?thesis unfolding processFrame_def unwired_fields [OF assms(1)] by (auto intro!: alike_same)
qed

lemma handleError_unwired:
  assumes "unwired a w sc sc'"
  shows "alike2 a w (handleError env err sc) (handleError env err sc')"
  using assms alike_return [OF resetStream_unwired [OF assms]] alike_return [OF goAway_unwired [OF assms]]
  by (cases err) (simp_all add: handleError_def)

lemma processFrameFromReader_unwired:
  assumes "unwired a w sc sc'" "wire_free (EvReadFrame res)"
  shows "alike2 a w (processFrameFromReader env res sc) (processFrameFromReader env res sc')"
proof (cases res)
  case (Inl err)
  then show ?thesis
    using assms by (auto simp: processFrameFromReader_def intro!: alike_return goAway_unwired handleError_unwired alike_if)
next
  case (Inr f)
  have "alike2 a w
      (bindE (processFrame env f sc) (\<lambda>(err, sc1). case err of None \<Rightarrow> Inr (True, sc1) | Some e \<Rightarrow> handleError env e sc1))
      (bindE (processFrame env f sc') (\<lambda>(err, sc1). case err of None \<Rightarrow> Inr (True, sc1) | Some e \<Rightarrow> handleError env e sc1))"
    by (rule alike_bind2 [OF processFrame_unwired]) (use assms Inr in \<open>auto split: option.split intro!: handleError_unwired\<close>)
  then show ?thesis using Inr by (simp add: processFrameFromReader_def)
qed

lemma afterTurn_unwired: "unwired a w sc sc' \<Longrightarrow> unwired a w (afterTurn sc) (afterTurn sc')"
  by (auto simp: unwired_def afterTurn_def shutDownIn_def curOpenStreams_def Let_def)

lemma serve_step_unwired:
  assumes "unwired a w sc sc'" "wire_free ev"
  shows "alike2 a w (serve_step env ev sc) (serve_step env ev sc')"
proof -
  have "alike2 a w (bindE (createStream env p h e sc) (\<lambda>(_, sc1). Inr (True, sc1)))
      (bindE (createStream env p h e sc') (\<lambda>(_, sc1). Inr (True, sc1)))" for p h e
    by (rule alike_bind2 [OF createStream_unwired [OF assms(1)]]) simp
  then have "alike2 a w (serve_select env ev sc) (serve_select env ev sc')"
    using assms alike_return [OF writeFrame_unwired [OF assms(1)]] alike_return [OF resetStream_unwired [OF assms(1)]]
      alike_return [OF goAway_unwired [OF assms(1)]] alike_return [OF noteBodyRead_unwired [OF assms(1)]]
      processFrameFromReader_unwired [OF assms(1)]
    by (cases ev) (auto simp: startGracefulShutdownInternal_def split: option.split writeFramer.split)
  note select = this
  show ?thesis unfolding serve_step_def by (intro alike_bind2 [OF select]) (simp add: afterTurn_unwired)
qed

lemma closeEach_unwired:
  "unwired a w sc sc' \<Longrightarrow> alike (unwired a w) (closeEach env is sc) (closeEach env is sc')"
proof (induction "is" arbitrary: sc sc')
  case (Cons i "is")
  then show ?case by (auto simp: unwired_fields(1) intro!: alike_bind [OF closeStream_unwired])
qed simp

lemma serve_end_unwired:
  assumes "unwired a w sc sc'"
  shows "alike (unwired a w) (serve_end env sc) (serve_end env sc')"
proof -
  have "unwired a w (sc\<lparr>sc_doneServing := ch\<rparr>) (sc'\<lparr>sc_doneServing := ch\<rparr>)" for ch using assms by (auto simp: unwired_def)
  moreover have "sc_doneServing sc' = sc_doneServing sc" using assms by (auto simp: unwired_def)
  ultimately show ?thesis
    unfolding serve_end_def closeAllStreamsOnConnClose_def stopShutdownTimer_def
    by (auto simp: unwired_fields(1) [OF assms] intro!: alike_same closeEach_unwired)
qed

end
