(* ===== verification/WriteLoop.thy ===== *)
theory WriteLoop
  imports WireBlind
begin

text \<open>
  The goroutines of \<open>writeFrameAsync\<close> beside the serve loop, and the channel \<open>wroteFrameCh\<close> over which they
  report. The serve loop goes on handling messages while a frame is being written; the model of \<open>serve_loop\<close>
  makes the write and the handling of its result one step. The theory shows that this loses nothing:
  the write may be moved to the moment at which its result is handled, at most one of the goroutines runs at a
  time, and neither side waits for the other in vain.
\<close>

declare bindE_eq_Inr_iff [simp]

subsection \<open>The goroutines\<close>

text \<open>What \<open>writeFrameAsync\<close> reports.\<close>

record frameWriteResult =
  res_wr :: FrameWriteRequest
  res_err :: "go_error option"

text \<open>A goroutine writes its frame, then sends the result.\<close>

datatype writer_pos = AtWrite FrameWriteRequest | AtReport frameWriteResult

record 'c writing =
  wl_writers :: "writer_pos list"
  wl_wroteFrameCh :: "frameWriteResult list"
  wl_session :: "'c Session"
  wl_serving :: bool
  wl_log :: "serve_event list"

text \<open>The \<open>go\<close> statement of \<open>startFrameWrite\<close>: \<open>sc_async\<close> holds the frame of the goroutine that a turn has
  started. The goroutine takes it, whether or not another one is running.\<close>

definition go_write :: "'c writing \<Rightarrow> 'c writing" where
  "go_write s = (case sc_async (wl_session s) of
     None \<Rightarrow> s
   | Some wr \<Rightarrow> s\<lparr>wl_writers := wl_writers s @ [AtWrite wr], wl_session := (wl_session s)\<lparr>sc_async := None\<rparr>\<rparr>)"

definition start_writing :: "'c Session \<Rightarrow> 'c writing" where
  "start_writing sc = go_write \<lparr>wl_writers = [], wl_wroteFrameCh = [], wl_session = sc, wl_serving = True, wl_log = []\<rparr>"

text \<open>\<open>wroteFrameCh\<close> has room for one result.\<close>

definition wroteFrameCh_cap :: nat where
  "wroteFrameCh_cap = 1"

text \<open>The serve loop receives a result, or handles another message.\<close>

definition serve_wrote :: "'c session_env \<Rightarrow> frameWriteResult \<Rightarrow> 'c scheduling" where
  "serve_wrote env res sc =
     bindE (wroteFrame env (schedule env) (res_wr res) (res_err res) sc) (\<lambda>sc1. Inr (afterTurn sc1))"

inductive write_step :: "'c session_env \<Rightarrow> 'c writing \<Rightarrow> 'c writing \<Rightarrow> bool" for env where
  Write: "wl_writers s = xs @ AtWrite wr # ys \<Longrightarrow> wr_write wr = Some w \<Longrightarrow>
    writeFrame (se_header env) (se_ctx env) w (sc_wire (wl_session s)) = Inr (err, c) \<Longrightarrow>
    write_step env s (s\<lparr>wl_writers := xs @ AtReport \<lparr>res_wr = wr, res_err = err\<rparr> # ys,
      wl_session := (wl_session s)\<lparr>sc_wire := c\<rparr>\<rparr>)"
| Report: "wl_writers s = xs @ AtReport res # ys \<Longrightarrow> length (wl_wroteFrameCh s) < wroteFrameCh_cap \<Longrightarrow>
    write_step env s (s\<lparr>wl_writers := xs @ ys, wl_wroteFrameCh := wl_wroteFrameCh s @ [res]\<rparr>)"
| Wrote: "wl_serving s \<Longrightarrow> wl_wroteFrameCh s = res # rest \<Longrightarrow> serve_wrote env res (wl_session s) = Inr sc \<Longrightarrow>
    write_step env s (go_write (s\<lparr>wl_wroteFrameCh := rest, wl_session := sc, wl_log := wl_log s @ [EvWroteFrame]\<rparr>))"
| Turn: "wl_serving s \<Longrightarrow> ev \<noteq> EvWroteFrame \<Longrightarrow> serve_step env ev (wl_session s) = Inr (keep, sc) \<Longrightarrow>
    write_step env s (go_write (s\<lparr>wl_serving := keep, wl_session := sc, wl_log := wl_log s @ [ev]\<rparr>))"

abbreviation write_steps :: "'c session_env \<Rightarrow> 'c writing \<Rightarrow> 'c writing \<Rightarrow> bool" where
  "write_steps env \<equiv> (write_step env)\<^sup>*\<^sup>*"

text \<open>A condition on each message and the state in which the serve loop handles it.\<close>

fun along :: "(serve_event \<Rightarrow> 'c Session \<Rightarrow> bool) \<Rightarrow> 'c session_env \<Rightarrow> serve_event list \<Rightarrow> 'c Session \<Rightarrow> bool" where
  "along P env [] sc = True"
| "along P env (ev # evs) sc =
     (P ev sc \<and> (case serve_step env ev sc of Inr (True, sc1) \<Rightarrow> along P env evs sc1 | _ \<Rightarrow> True))"

text \<open>No SETTINGS_HEADER_TABLE_SIZE is handled while a frame is being written, and a message of a writer comes
  only when there is one.\<close>

fun no_race :: "serve_event \<Rightarrow> 'c Session \<Rightarrow> bool" where
  "no_race EvWroteFrame sc = True"
| "no_race ev sc = (sc_async sc = None \<or> wire_free ev)"

fun awaited :: "serve_event \<Rightarrow> 'c Session \<Rightarrow> bool" where
  "awaited EvWroteFrame sc = (sc_async sc \<noteq> None)"
| "awaited ev sc = True"

definition race_free :: "'c session_env \<Rightarrow> serve_event list \<Rightarrow> 'c Session \<Rightarrow> bool" where
  "race_free = along no_race"

subsection \<open>The serve loop that writes in one step\<close>

text \<open>\<open>in_flight env a s\<close>: the goroutines are in \<open>s\<close> where the serve loop is in \<open>a\<close>. A frame that the serve loop
  has still to write has been written in \<open>s\<close> or not, and if it has, its result is on its way.\<close>

definition in_flight :: "'c session_env \<Rightarrow> 'c Session \<Rightarrow> 'c writing \<Rightarrow> bool" where
  "in_flight env a s \<longleftrightarrow>
     (case sc_async a of
        None \<Rightarrow> wl_writers s = [] \<and> wl_wroteFrameCh s = [] \<and> wl_session s = a
      | Some wr \<Rightarrow>
          wl_writers s = [AtWrite wr] \<and> wl_wroteFrameCh s = [] \<and> wl_session s = a\<lparr>sc_async := None\<rparr> \<or>
          (\<exists>w err c. wr_write wr = Some w \<and> writeFrame (se_header env) (se_ctx env) w (sc_wire a) = Inr (err, c) \<and>
             wl_session s = a\<lparr>sc_wire := c, sc_async := None\<rparr> \<and>
             (wl_writers s = [AtReport \<lparr>res_wr = wr, res_err = err\<rparr>] \<and> wl_wroteFrameCh s = [] \<or>
              wl_writers s = [] \<and> wl_wroteFrameCh s = [\<lparr>res_wr = wr, res_err = err\<rparr>])))"

lemma go_write_in_flight:
  "wl_writers s = [] \<Longrightarrow> wl_wroteFrameCh s = [] \<Longrightarrow> in_flight env (wl_session s) (go_write s)"
  by (auto simp: in_flight_def go_write_def split: option.split)

lemma go_write_simps [simp]: "wl_log (go_write s) = wl_log s" "wl_serving (go_write s) = wl_serving s"
  by (simp_all add: go_write_def split: option.split)

lemma along_snoc:
  "along P env (evs @ [ev]) sc \<longleftrightarrow> along P env evs sc \<and> (\<forall>a. serve_loop env evs sc = Inr (True, a) \<longrightarrow> P ev a)"
proof (induction evs arbitrary: sc)
  case (Cons e evs)
  show ?case
  proof (cases "serve_step env e sc")
    case (Inr r)
    then show ?thesis by (cases r; cases "fst r") (simp_all add: Cons.IH)
  qed simp
qed (simp split: sum.split prod.split bool.split)

lemma along_prefix: "along P env (xs @ ys) sc \<Longrightarrow> along P env xs sc"
  by (induction ys rule: rev_induct) (simp_all add: along_snoc flip: append_assoc)

lemma no_race_turn: "ev \<noteq> EvWroteFrame \<Longrightarrow> no_race ev sc \<longleftrightarrow> sc_async sc = None \<or> wire_free ev"
  by (cases ev) simp_all

lemma same_connection [simp]:
  "sc\<lparr>sc_wire := w, sc_async := x\<rparr> = sc\<lparr>sc_wire := c, sc_async := x\<rparr> \<longleftrightarrow> w = c"
  "sc\<lparr>sc_wire := w, sc_async := x\<rparr> = sc\<lparr>sc_async := x\<rparr> \<longleftrightarrow> w = sc_wire sc"
  by (auto dest: arg_cong [where f = sc_wire])

text \<open>What the serve loop does without the connection, while a frame is in flight.\<close>

definition wire_blind :: "('c Session \<Rightarrow> go_panic + 'a \<times> 'c Session) \<Rightarrow> bool" where
  "wire_blind h \<longleftrightarrow> (\<forall>a w sc sc'. unwired a w sc sc' \<longrightarrow> alike2 a w (h sc) (h sc'))"

lemma blind_in_flight:
  assumes "in_flight env a s" "sc_async a \<noteq> None \<Longrightarrow> sc_writingFrame a \<and> wire_blind h" "h (wl_session s) = Inr (r, sc)"
  shows "\<exists>a'. h a = Inr (r, a') \<and>
    in_flight env a' (go_write (s\<lparr>wl_serving := keep, wl_session := sc, wl_log := l\<rparr>))"
proof (cases "sc_async a")
  case None
  then have "wl_session s = a" "wl_writers s = []" "wl_wroteFrameCh s = []" using assms(1) by (simp_all add: in_flight_def)
  then show ?thesis
    using assms(3) go_write_in_flight [of "s\<lparr>wl_serving := keep, wl_session := sc, wl_log := l\<rparr>"] by auto
next
  case (Some wr)
  then have flight: "wl_session s = a\<lparr>sc_async := None\<rparr> \<or> (\<exists>c. wl_session s = a\<lparr>sc_wire := c, sc_async := None\<rparr>)"
    using assms(1) by (auto simp: in_flight_def)
  define w where "w = sc_wire (wl_session s)"
  with flight have w: "wl_session s = a\<lparr>sc_wire := w, sc_async := None\<rparr>" by auto
  have "unwired (Some wr, sc_wire a) w a (wl_session s)" using Some assms(2) by (simp add: unwired_def w)
  then have "alike2 (Some wr, sc_wire a) w (h a) (h (wl_session s))" using assms(2) Some by (simp add: wire_blind_def)
  then obtain a' where a': "h a = Inr (r, a')" "unwired (Some wr, sc_wire a) w a' sc"
    using assms(3) by (cases "h a") (auto simp: rel_sum_simps)
  then have f: "sc_async a' = Some wr" "sc_wire a' = sc_wire a" "sc = a'\<lparr>sc_wire := w, sc_async := None\<rparr>"
    by (simp_all add: unwired_def)
  have "in_flight env a' (s\<lparr>wl_serving := keep, wl_session := sc, wl_log := l\<rparr>)"
    using assms(1) Some f(1,2) unfolding in_flight_def f(3) w by (auto simp: f)
  then show ?thesis using a'(1) f by (simp add: go_write_def)
qed

lemma writing_okD: "writing_ok a \<Longrightarrow> sc_async a \<noteq> None \<Longrightarrow> sc_writingFrame a"
  by (simp add: writing_ok_def)

lemma turn_in_flight:
  assumes "in_flight env a s" "writing_ok a" "sc_async a = None \<or> wire_free ev"
    and "serve_step env ev (wl_session s) = Inr (keep, sc)"
  shows "\<exists>a'. serve_step env ev a = Inr (keep, a') \<and>
    in_flight env a' (go_write (s\<lparr>wl_serving := keep, wl_session := sc, wl_log := l\<rparr>))"
  using assms(1,3,4) writing_okD [OF assms(2)] serve_step_unwired
  by (intro blind_in_flight) (auto simp: wire_blind_def)

text \<open>The result of a write is handled.\<close>

lemma wrote_in_flight:
  assumes "in_flight env a s" "wl_wroteFrameCh s = res # rest" "serve_wrote env res (wl_session s) = Inr sc"
  shows "serve_step env EvWroteFrame a = Inr (True, sc) \<and>
    in_flight env sc (go_write (s\<lparr>wl_wroteFrameCh := rest, wl_session := sc, wl_log := l\<rparr>))"
proof -
  obtain wr where "sc_async a = Some wr" using assms(1,2) by (cases "sc_async a") (simp_all add: in_flight_def)
  then obtain w err c where w: "sc_async a = Some wr" "wr_write wr = Some w"
    "writeFrame (se_header env) (se_ctx env) w (sc_wire a) = Inr (err, c)"
    "wl_session s = a\<lparr>sc_wire := c, sc_async := None\<rparr>" "wl_writers s = []" "res = \<lparr>res_wr = wr, res_err = err\<rparr>" "rest = []"
    using assms(1,2) by (auto simp: in_flight_def)
  have "bindE (writeFrameAsync env a) (\<lambda>sc1. Inr (afterTurn sc1)) = Inr sc"
    using assms(3) w by (simp add: serve_wrote_def writeFrameAsync_def write_wire_def)
  then have "serve_step env EvWroteFrame a = Inr (True, sc)"
    by (cases "writeFrameAsync env a") (simp_all add: serve_step_def)
  then show ?thesis
    using go_write_in_flight [of "s\<lparr>wl_wroteFrameCh := rest, wl_session := sc, wl_log := l\<rparr>"] w(5,7) by simp
qed

text \<open>A writer writes, and reports.\<close>

lemma write_in_flight:
  assumes "in_flight env a s" "wl_writers s = xs @ AtWrite wr # ys" "wr_write wr = Some w"
    and "writeFrame (se_header env) (se_ctx env) w (sc_wire (wl_session s)) = Inr (err, c)"
  shows "in_flight env a (s\<lparr>wl_writers := xs @ AtReport \<lparr>res_wr = wr, res_err = err\<rparr> # ys,
    wl_session := (wl_session s)\<lparr>sc_wire := c\<rparr>\<rparr>)"
  using assms by (auto simp: in_flight_def append_eq_Cons_conv split: option.splits)

lemma report_in_flight:
  assumes "in_flight env a s" "wl_writers s = xs @ AtReport res # ys"
  shows "in_flight env a (s\<lparr>wl_writers := xs @ ys, wl_wroteFrameCh := wl_wroteFrameCh s @ [res]\<rparr>)"
  using assms by (auto simp: in_flight_def append_eq_Cons_conv split: option.splits)

lemma step_in_flight:
  assumes "write_step env s s'" "serve_loop env (wl_log s) sc = Inr (wl_serving s, a)" "in_flight env a s" "writing_ok a"
    and race: "race_free env (wl_log s') sc"
  shows "\<exists>a'. serve_loop env (wl_log s') sc = Inr (wl_serving s', a') \<and> in_flight env a' s'"
  using assms(1)
proof cases
  case (Write xs wr ys w err c)
  then show ?thesis using write_in_flight [OF assms(3) Write(2-4)] assms(2) by auto
next
  case (Report xs res ys)
  then show ?thesis using report_in_flight [OF assms(3) Report(2)] assms(2) by auto
next
  case (Wrote res rest sc1)
  then show ?thesis
    using wrote_in_flight [OF assms(3) Wrote(3,4)] assms(2) by (auto simp: serve_loop_snoc)
next
  case (Turn ev keep sc1)
  have "sc_async a = None \<or> wire_free ev"
    using race Turn assms(2) by (simp add: race_free_def along_snoc no_race_turn)
  from turn_in_flight [OF assms(3,4) this Turn(4)] Turn assms(2) show ?thesis
    by (fastforce simp: serve_loop_snoc)
qed

lemma write_log_grows: "write_step env s s' \<Longrightarrow> prefix (wl_log s) (wl_log s')"
  by (auto elim!: write_step.cases)

lemma writing_in_flight:
  assumes "env_ok env" "session_inv sc" "write_steps env (start_writing sc) s"
    and "\<forall>ev \<in> set (wl_log s). event_ok ev" "race_free env (wl_log s) sc"
  shows "\<exists>a. serve_loop env (wl_log s) sc = Inr (wl_serving s, a) \<and> in_flight env a s \<and> writing_ok a"
  using assms(3-5)
proof induction
  case base
  have "in_flight env sc (start_writing sc)"
    using go_write_in_flight [of "\<lparr>wl_writers = [], wl_wroteFrameCh = [], wl_session = sc, wl_serving = True, wl_log = []\<rparr>"]
    by (simp add: start_writing_def)
  then show ?case using assms(2) by (simp add: start_writing_def session_inv_def)
next
  case (step s s')
  have p: "prefix (wl_log s) (wl_log s')" using write_log_grows [OF step.hyps(2)] .
  then have "\<forall>ev \<in> set (wl_log s). event_ok ev" "race_free env (wl_log s) sc"
    using step.prems along_prefix by (auto simp: race_free_def prefix_def)
  from step.IH [OF this] obtain a where a: "serve_loop env (wl_log s) sc = Inr (wl_serving s, a)" "in_flight env a s" "writing_ok a"
    by blast
  from step_in_flight [OF step.hyps(2) a step.prems(2)] obtain a'
    where a': "serve_loop env (wl_log s') sc = Inr (wl_serving s', a')" "in_flight env a' s'" by blast
  have "writing_ok a'" using serve_loop_goes [OF assms(1,2) step.prems(1)] a'(1) by (auto simp: follows_def session_inv_def)
  with a' show ?case by blast
qed

text \<open>Conversely, the serve loop's runs are runs of the goroutines that write when the result is handled.\<close>

definition at_loop :: "serve_event list \<Rightarrow> 'c Session \<Rightarrow> 'c writing" where
  "at_loop evs a = go_write \<lparr>wl_writers = [], wl_wroteFrameCh = [], wl_session = a, wl_serving = True, wl_log = evs\<rparr>"

lemma loop_turn:
  assumes "serve_step env ev a = Inr (True, a')" "ev \<noteq> EvWroteFrame" "no_race ev a" "writing_ok a"
  shows "write_step env (at_loop evs a) (at_loop (evs @ [ev]) a')"
proof (cases "sc_async a")
  case None
  then show ?thesis using write_step.Turn [of "at_loop evs a" ev env True a'] assms(1,2) by (simp add: at_loop_def go_write_def)
next
  case (Some wr)
  have "sc_writingFrame a" using assms(4) Some by (simp add: writing_ok_def)
  then have "unwired (Some wr, sc_wire a) (sc_wire a) a (a\<lparr>sc_async := None\<rparr>)" using Some by (simp add: unwired_def)
  from serve_step_unwired [OF this, of ev env] assms(1-3) Some
  obtain b where b: "serve_step env ev (a\<lparr>sc_async := None\<rparr>) = Inr (True, b)" "unwired (Some wr, sc_wire a) (sc_wire a) a' b"
    by (cases "serve_step env ev (a\<lparr>sc_async := None\<rparr>)") (auto simp: no_race_turn)
  then have "b = a'\<lparr>sc_async := None\<rparr>" "sc_async a' = Some wr" by (auto simp: unwired_def)
  then show ?thesis
    using write_step.Turn [of "at_loop evs a" ev env True b] assms(2) b(1) Some by (simp add: at_loop_def go_write_def)
qed

lemma async_then_wire: "sc\<lparr>sc_async := x, sc_wire := c\<rparr> = sc\<lparr>sc_wire := c, sc_async := x\<rparr>"
  by simp

lemma loop_writes:
  assumes "sc_async a = Some wr" "wr_write wr = Some w" "writeFrame (se_header env) (se_ctx env) w (sc_wire a) = Inr (err, c)"
  shows "write_step env (at_loop evs a) \<lparr>wl_writers = [AtReport \<lparr>res_wr = wr, res_err = err\<rparr>], wl_wroteFrameCh = [],
    wl_session = a\<lparr>sc_wire := c, sc_async := None\<rparr>, wl_serving = True, wl_log = evs\<rparr>"
  using write_step.Write [of "at_loop evs a" "[]" wr "[]" w env err c] assms
  by (simp add: at_loop_def go_write_def async_then_wire)

lemma loop_wrote:
  assumes "serve_step env EvWroteFrame a = Inr (True, a')" "sc_async a = Some wr"
  shows "write_steps env (at_loop evs a) (at_loop (evs @ [EvWroteFrame]) a')"
proof -
  obtain w err c where w: "wr_write wr = Some w" "writeFrame (se_header env) (se_ctx env) w (sc_wire a) = Inr (err, c)"
    "serve_wrote env \<lparr>res_wr = wr, res_err = err\<rparr> (a\<lparr>sc_wire := c, sc_async := None\<rparr>) = Inr a'"
    using assms by (auto simp: serve_step_def writeFrameAsync_def write_wire_def serve_wrote_def split: option.splits)
  let ?s = "\<lparr>wl_writers = [AtReport \<lparr>res_wr = wr, res_err = err\<rparr>], wl_wroteFrameCh = [],
    wl_session = a\<lparr>sc_wire := c, sc_async := None\<rparr>, wl_serving = True, wl_log = evs\<rparr>"
  let ?t = "?s\<lparr>wl_writers := [], wl_wroteFrameCh := [\<lparr>res_wr = wr, res_err = err\<rparr>]\<rparr>"
  note loop_writes [OF assms(2) w(1,2), of evs]
  moreover have "write_step env ?s ?t"
    using write_step.Report [of ?s "[]" "\<lparr>res_wr = wr, res_err = err\<rparr>" "[]" env] by (simp add: wroteFrameCh_cap_def)
  moreover have "write_step env ?t (at_loop (evs @ [EvWroteFrame]) a')"
    using write_step.Wrote [of ?t "\<lparr>res_wr = wr, res_err = err\<rparr>" "[]" env a'] w(3) by (simp add: at_loop_def)
  ultimately show ?thesis by (meson r_into_rtranclp rtranclp_two)
qed

lemma loop_runs:
  assumes "env_ok env" "session_inv sc" "\<forall>ev \<in> set evs. event_ok ev" "race_free env evs sc" "along awaited env evs sc"
    and "serve_loop env evs sc = Inr (True, a)"
  shows "write_steps env (start_writing sc) (at_loop evs a)"
  using assms(3-6)
proof (induction evs arbitrary: a rule: rev_induct)
  case Nil
  then show ?case by (simp add: start_writing_def at_loop_def)
next
  case (snoc ev evs)
  obtain b where b: "serve_loop env evs sc = Inr (True, b)" "serve_step env ev b = Inr (True, a)"
    using snoc.prems(4) by (auto simp: serve_loop_snoc split: prod.splits if_splits)
  have ok: "writing_ok b" using serve_loop_goes [OF assms(1,2), of evs] snoc.prems(1) b(1) by (auto simp: follows_def session_inv_def)
  have c: "no_race ev b" "awaited ev b" using snoc.prems(2,3) b(1) by (simp_all add: race_free_def along_snoc)
  have "write_steps env (start_writing sc) (at_loop evs b)"
    using snoc.IH [OF _ _ _ b(1)] snoc.prems(1-3) by (simp add: race_free_def along_snoc)
  moreover have "write_steps env (at_loop evs b) (at_loop (evs @ [ev]) a)"
  proof (cases "ev = EvWroteFrame")
    case True
    then show ?thesis using loop_wrote [of env b a] b(2) c(2) by auto
  next
    case False
    show ?thesis using loop_turn [OF b(2) False c(1) ok] by blast
  qed
  ultimately show ?case by (rule rtranclp_trans)
qed

text \<open>Writing a frame on its own goroutine while the serve loop goes on handling messages is the same as
  writing it at the moment at which the serve loop handles the result. Every state of the goroutines is one of the
  serve loop that writes and reports in one step, over the same messages, except that a frame still to be
  written there may have been written; its result then waits for the serve loop, and after it
  nothing differs. The only condition is that no SETTINGS_HEADER_TABLE_SIZE is handled during a write.\<close>

theorem writers_serve_loop:
  assumes "env_ok env" and "session_inv sc" and "write_steps env (start_writing sc) s"
    and "\<forall>ev \<in> set (wl_log s). event_ok ev" and "race_free env (wl_log s) sc"
  shows "\<exists>a. serve_loop env (wl_log s) sc = Inr (wl_serving s, a) \<and> in_flight env a s"
  using writing_in_flight [OF assms] by blast

subsection \<open>One writer at a time\<close>

text \<open>C13: at most one goroutine runs \<open>writeFrameAsync\<close>, and its result finds \<open>wroteFrameCh\<close> empty: the goroutine
  never waits at the channel, not even after the serve loop has ended. The serve loop believes that a frame is
  being written exactly while there is such a goroutine or its result, so it never waits for a result that
  does not come; and a goroutine that has its result can always send it and return.\<close>

theorem one_writer:
  assumes "env_ok env" and "session_inv sc" and "write_steps env (start_writing sc) s"
    and "\<forall>ev \<in> set (wl_log s). event_ok ev" and "race_free env (wl_log s) sc"
  shows "length (wl_writers s) + length (wl_wroteFrameCh s) = (if sc_writingFrame (wl_session s) then 1 else 0) \<and>
    (\<forall>res. AtReport res \<in> set (wl_writers s) \<longrightarrow>
       (\<exists>s'. write_step env s s' \<and> wl_writers s' = [] \<and> wl_wroteFrameCh s' = [res]))"
proof -
  obtain a where a: "in_flight env a s" "writing_ok a" using writing_in_flight [OF assms] by blast
  have "length (wl_writers s) + length (wl_wroteFrameCh s) = (if sc_writingFrame (wl_session s) then 1 else 0)"
    using a by (auto simp: in_flight_def writing_ok_def split: option.splits)
  moreover have "\<exists>s'. write_step env s s' \<and> wl_writers s' = [] \<and> wl_wroteFrameCh s' = [res]"
    if "AtReport res \<in> set (wl_writers s)" for res
  proof -
    have w: "wl_writers s = [] @ AtReport res # []" "wl_wroteFrameCh s = []"
      using a(1) that by (auto simp: in_flight_def split: option.splits)
    from write_step.Report [OF w(1), of env] w(2) show ?thesis by (fastforce simp: wroteFrameCh_cap_def)
  qed
  ultimately show ?thesis by blast
qed


text \<open>A client that opens a stream; while its HEADERS are written the peer's SETTINGS arrive.\<close>

definition writing_run :: "serve_event list" where
  "writing_run = [EvCreateStream 0 [(''k'', [''v''])] False,
     EvReadFrame (Inr (SettingsFrame False [(SettingInitialWindowSize, 100)]))]"

lemma writing_run_state:
  "race_free demo_env writing_run new_client \<and> along awaited demo_env writing_run new_client \<and>
   (case serve_loop demo_env writing_run new_client of
      Inr (True, a) \<Rightarrow>
        (case sc_async a of None \<Rightarrow> False
         | Some wr \<Rightarrow> (case wr_write wr of None \<Rightarrow> False
            | Some w \<Rightarrow> (case writeFrame (se_header demo_env) (se_ctx demo_env) w (sc_wire a) of Inr _ \<Rightarrow> True | Inl _ \<Rightarrow> False)))
    | _ \<Rightarrow> False)"
  by code_simp

lemma writing_run_steps:
  obtains s res where "write_steps demo_env (start_writing new_client) s" "wl_log s = writing_run" "wl_serving s"
    "wl_writers s = [AtReport res]"
proof -
  obtain a wr w where a: "serve_loop demo_env writing_run new_client = Inr (True, a)" "sc_async a = Some wr" "wr_write wr = Some w"
    and "case writeFrame (se_header demo_env) (se_ctx demo_env) w (sc_wire a) of Inr _ \<Rightarrow> True | Inl _ \<Rightarrow> False"
    using writing_run_state by (auto split: option.splits)
  then obtain err c where f: "writeFrame (se_header demo_env) (se_ctx demo_env) w (sc_wire a) = Inr (err, c)"
    by (cases "writeFrame (se_header demo_env) (se_ctx demo_env) w (sc_wire a)") auto
  have "\<forall>ev \<in> set writing_run. event_ok ev" by (simp add: writing_run_def result_ok_def)
  from loop_runs [OF demo_env_ok new_client_inv this _ _ a(1)] writing_run_state
  have "write_steps demo_env (start_writing new_client) (at_loop writing_run a)" by blast
  from rtranclp_two [OF this loop_writes [OF a(2,3) f]] show ?thesis by (rule that) simp_all
qed

theorem writers_serve_loop_witness:
  "\<exists>s a res. write_steps demo_env (start_writing new_client) s \<and> wl_writers s = [AtReport res] \<and>
    serve_loop demo_env writing_run new_client = Inr (True, a) \<and> in_flight demo_env a s"
proof -
  obtain s res where s: "write_steps demo_env (start_writing new_client) s" "wl_log s = writing_run" "wl_serving s"
    "wl_writers s = [AtReport res]"
    by (rule writing_run_steps)
  have "\<forall>ev \<in> set (wl_log s). event_ok ev" by (simp add: s(2) writing_run_def result_ok_def)
  from writers_serve_loop [OF demo_env_ok new_client_inv s(1) this] s writing_run_state show ?thesis by auto
qed

theorem one_writer_witness:
  "\<exists>s res s'. write_steps demo_env (start_writing new_client) s \<and> sc_writingFrame (wl_session s) \<and>
    write_step demo_env s s' \<and> wl_wroteFrameCh s' = [res]"
proof -
  obtain s res where s: "write_steps demo_env (start_writing new_client) s" "wl_log s = writing_run" "wl_serving s"
    "wl_writers s = [AtReport res]"
    by (rule writing_run_steps)
  have "\<forall>ev \<in> set (wl_log s). event_ok ev" by (simp add: s(2) writing_run_def result_ok_def)
  from one_writer [OF demo_env_ok new_client_inv s(1) this] s writing_run_state show ?thesis
    by (auto split: if_splits)
qed

end
