(* ===== verification/Goroutines.thy ===== *)
theory Goroutines
  imports WriteLoop
begin

text \<open>
  All the goroutines of a session together: the reader, the serve loop and the goroutines of \<open>writeFrameAsync\<close>, with
  the three channels between them. Every run of them is a run of the reader and the serve loop of \<open>ReadLoop\<close>,
  in which a write and its report are one step, and so a run of \<open>serve_loop\<close> over the messages handled.
\<close>

subsection \<open>The goroutines of a session\<close>

text \<open>The writers and \<open>wroteFrameCh\<close> beside the reader and the serve loop.\<close>

record 'c goroutines =
  go_routines_of :: "'c routines"
  go_writers :: "writer_pos list"
  go_wroteFrameCh :: "frameWriteResult list"

text \<open>The writers' side of a state, and a state with the writers' side replaced.\<close>

definition writers_of :: "'c goroutines \<Rightarrow> 'c writing" where
  "writers_of g = \<lparr>wl_writers = go_writers g, wl_wroteFrameCh = go_wroteFrameCh g,
     wl_session = ro_session (go_routines_of g), wl_serving = True, wl_log = []\<rparr>"

definition put_writers :: "'c writing \<Rightarrow> 'c routines \<Rightarrow> 'c goroutines" where
  "put_writers s r = \<lparr>go_routines_of = r\<lparr>ro_session := wl_session s\<rparr>, go_writers = wl_writers s,
     go_wroteFrameCh = wl_wroteFrameCh s\<rparr>"

text \<open>A turn of the serve loop or a step of the reader, and the writer that it may start.\<close>

definition go_step :: "'c routines \<Rightarrow> 'c goroutines \<Rightarrow> 'c goroutines" where
  "go_step r g = put_writers (go_write (writers_of (g\<lparr>go_routines_of := r\<rparr>))) r"

text \<open>A step: the reader and the serve loop as in \<open>ReadLoop\<close>, except that the results of writers are those that
  come over \<open>wroteFrameCh\<close>; the writers as in \<open>WriteLoop\<close>.\<close>

inductive goroutine_step :: "'c session_env \<Rightarrow> 'c goroutines \<Rightarrow> 'c goroutines \<Rightarrow> bool" for env where
  Routine: "routine_step env (go_routines_of g) r \<Longrightarrow> ro_log r \<noteq> ro_log (go_routines_of g) @ [EvWroteFrame] \<Longrightarrow>
    goroutine_step env g (go_step r g)"
| Write: "go_writers g = xs @ AtWrite wr # ys \<Longrightarrow> wr_write wr = Some w \<Longrightarrow> r = go_routines_of g \<Longrightarrow>
    writeFrame (se_header env) (se_ctx env) w (sc_wire (ro_session r)) = Inr (err, c) \<Longrightarrow>
    goroutine_step env g (g\<lparr>go_writers := xs @ AtReport \<lparr>res_wr = wr, res_err = err\<rparr> # ys,
      go_routines_of := r\<lparr>ro_session := (ro_session r)\<lparr>sc_wire := c\<rparr>\<rparr>\<rparr>)"
| Report: "go_writers g = xs @ AtReport res # ys \<Longrightarrow> length (go_wroteFrameCh g) < wroteFrameCh_cap \<Longrightarrow>
    goroutine_step env g (g\<lparr>go_writers := xs @ ys, go_wroteFrameCh := go_wroteFrameCh g @ [res]\<rparr>)"
| Wrote: "r = go_routines_of g \<Longrightarrow> ro_serve r = AtSelect \<Longrightarrow> go_wroteFrameCh g = res # rest \<Longrightarrow>
    serve_wrote env res (ro_session r) = Inr sc \<Longrightarrow>
    goroutine_step env g (go_step (r\<lparr>ro_session := sc, ro_log := ro_log r @ [EvWroteFrame]\<rparr>) (g\<lparr>go_wroteFrameCh := rest\<rparr>))"

abbreviation goroutine_steps :: "'c session_env \<Rightarrow> 'c goroutines \<Rightarrow> 'c goroutines \<Rightarrow> bool" where
  "goroutine_steps env \<equiv> (goroutine_step env)\<^sup>*\<^sup>*"

definition go_session :: "readFrameResult list \<Rightarrow> 'c Session \<Rightarrow> 'c goroutines" where
  "go_session rs sc = put_writers (start_writing sc) (go_routines rs sc)"

subsection \<open>Refinement\<close>

text \<open>The reader and the serve loop are where they are in \<open>r\<close>, but for a write in flight.\<close>

definition beside :: "'c session_env \<Rightarrow> 'c routines \<Rightarrow> 'c goroutines \<Rightarrow> bool" where
  "beside env r g \<longleftrightarrow> go_routines_of g = r\<lparr>ro_session := ro_session (go_routines_of g)\<rparr> \<and>
     in_flight env (ro_session r) (writers_of g)"

lemma in_flight_cong:
  "wl_writers s = wl_writers s' \<Longrightarrow> wl_wroteFrameCh s = wl_wroteFrameCh s' \<Longrightarrow> wl_session s = wl_session s' \<Longrightarrow>
   in_flight env a s = in_flight env a s'"
  by (cases "sc_async a") (simp_all add: in_flight_def)

lemma writers_put [simp]: "in_flight env a (writers_of (put_writers s r)) = in_flight env a s"
  by (rule in_flight_cong) (simp_all add: writers_of_def put_writers_def)

text \<open>One function of the serve loop that does not use the connection.\<close>

lemma blind_beside:
  assumes "beside env r g" "sc_async (ro_session r) \<noteq> None \<Longrightarrow> sc_writingFrame (ro_session r) \<and> wire_blind h"
    and "h (ro_session (go_routines_of g)) = Inr (x, sc)"
  shows "\<exists>a. h (ro_session r) = Inr (x, a) \<and>
    (\<forall>r'. ro_session r' = a \<longrightarrow> beside env r' (go_step (r'\<lparr>ro_session := sc\<rparr>) g))"
proof -
  have f: "in_flight env (ro_session r) (writers_of g)" using assms(1) by (simp add: beside_def)
  have h: "h (wl_session (writers_of g)) = Inr (x, sc)" using assms(3) by (simp add: writers_of_def)
  from blind_in_flight [OF f assms(2) h, where keep = True and l = "[]"] obtain a where a: "h (ro_session r) = Inr (x, a)"
    "in_flight env a (go_write ((writers_of g)\<lparr>wl_serving := True, wl_session := sc, wl_log := []\<rparr>))" by blast
  have "beside env r' (go_step (r'\<lparr>ro_session := sc\<rparr>) g)" if "ro_session r' = a" for r'
    using a(2) that by (simp add: beside_def go_step_def) (simp add: put_writers_def writers_of_def)
  then show ?thesis using a(1) by blast
qed

lemma beside_fields:
  assumes "beside env r g"
  shows "ro_reader (go_routines_of g) = ro_reader r" "ro_serve (go_routines_of g) = ro_serve r"
    "ro_frames (go_routines_of g) = ro_frames r" "ro_log (go_routines_of g) = ro_log r"
proof -
  have "go_routines_of g = r\<lparr>ro_session := ro_session (go_routines_of g)\<rparr>" using assms by (simp add: beside_def)
  then obtain s where "go_routines_of g = r\<lparr>ro_session := s\<rparr>" by blast
  then show "ro_reader (go_routines_of g) = ro_reader r" "ro_serve (go_routines_of g) = ro_serve r"
    "ro_frames (go_routines_of g) = ro_frames r" "ro_log (go_routines_of g) = ro_log r" by simp_all
qed

lemma beside_doneServing:
  "beside env r g \<Longrightarrow> sc_doneServing (ro_session (go_routines_of g)) = sc_doneServing (ro_session r)"
  by (auto simp: beside_def in_flight_def writers_of_def split: option.splits)

text \<open>The functions that the serve loop calls.\<close>

lemma wire_blind_returns: "wire_blind (\<lambda>sc. Inr (x, sc))" "wire_blind (\<lambda>sc. Inr (x, afterTurn sc))"
  by (simp_all add: wire_blind_def afterTurn_unwired)

lemma wire_blind_serve_end: "wire_blind (\<lambda>sc. bindE (serve_end env sc) (\<lambda>sc1. Inr (x, sc1)))"
  unfolding wire_blind_def by (blast intro: alike_return serve_end_unwired)

lemma wire_blind_turn: "wire_free ev \<Longrightarrow> wire_blind (serve_step env ev)"
  by (simp add: wire_blind_def serve_step_unwired)

lemma wire_blind_frame: "wire_free (EvReadFrame res) \<Longrightarrow> wire_blind (processFrameFromReader env res)"
  by (simp add: wire_blind_def processFrameFromReader_unwired)

lemma session_last:
  "r\<lparr>ro_serve := p, ro_session := a, ro_log := l\<rparr> = r\<lparr>ro_serve := p, ro_log := l, ro_session := a\<rparr>"
  "r\<lparr>ro_serve := p, ro_session := a, ro_reader := q\<rparr> = r\<lparr>ro_serve := p, ro_reader := q, ro_session := a\<rparr>"
  by simp_all

lemma routine_beside:
  assumes b: "beside env r g" and step: "routine_step env (go_routines_of g) r1"
    and ok: "writing_ok (ro_session r)"
    and race: "\<And>ev. ro_log r1 = ro_log r @ [ev] \<Longrightarrow> ev \<noteq> EvWroteFrame \<and> no_race ev (ro_session r)"
  shows "\<exists>r'. routine_step env r r' \<and> beside env r' (go_step r1 g)"
proof -
  define s where "s = ro_session (go_routines_of g)"
  have g: "go_routines_of g = r\<lparr>ro_session := s\<rparr>" using b by (simp add: beside_def s_def)
  have sim: "\<exists>a. h (ro_session r) = Inr (x, a) \<and> beside env (r1\<lparr>ro_session := a\<rparr>) (go_step r1 g)"
    if blind: "sc_async (ro_session r) \<noteq> None \<Longrightarrow> wire_blind h" and h: "h s = Inr (x, ro_session r1)" for h and x :: 'x
  proof -
    obtain a where a: "h (ro_session r) = Inr (x, a)"
      "\<forall>r'. ro_session r' = a \<longrightarrow> beside env r' (go_step (r'\<lparr>ro_session := ro_session r1\<rparr>) g)"
      using blind_beside [OF b, of h x "ro_session r1"] blind h [unfolded s_def] writing_okD [OF ok] by blast
    from a(2) [rule_format, of "r1\<lparr>ro_session := a\<rparr>"] a(1) show ?thesis by auto
  qed
  have idle: "beside env (r1\<lparr>ro_session := ro_session r\<rparr>) (go_step r1 g)" if "ro_session r1 = s"
    using sim [OF wire_blind_returns(1)] that by auto
  have into: ?thesis if "routine_step env r r'" "beside env (r1\<lparr>ro_session := a\<rparr>) (go_step r1 g)" "r' = r1\<lparr>ro_session := a\<rparr>" for r' a
    using that by blast
  from step [unfolded g] show ?thesis
  proof cases
    case (ReadFrame res rs)
    then show ?thesis by (intro into [OF routine_step.ReadFrame [of r res rs env] idle]) simp_all
  next
    case (Send res)
    then show ?thesis by (intro into [OF routine_step.Send [of r res env] idle]) simp_all
  next
    case (Done res)
    then show ?thesis using beside_doneServing [OF b] by (intro into [OF routine_step.Done [of r res env] idle]) (simp_all add: s_def)
  next
    case (Process res keep sc)
    have "sc_async (ro_session r) \<noteq> None \<Longrightarrow> wire_free (EvReadFrame res)" using race [of "EvReadFrame res"] Process by auto
    moreover have "processFrameFromReader env res s = Inr (keep, ro_session r1)" using Process by simp
    ultimately obtain a where "processFrameFromReader env res (ro_session r) = Inr (keep, a)"
        "beside env (r1\<lparr>ro_session := a\<rparr>) (go_step r1 g)"
      using sim [OF wire_blind_frame] by blast
    then show ?thesis using Process by (intro into [OF routine_step.Process [of r res env keep a]]) (simp_all add: session_last)
  next
    case (Gate res)
    have "beside env (r1\<lparr>ro_session := afterTurn (ro_session r)\<rparr>) (go_step r1 g)"
      using sim [OF wire_blind_returns(2)] Gate by simp
    then show ?thesis using Gate by (intro into [OF routine_step.Gate [of r res env]]) (simp_all add: session_last)
  next
    case (Turn ev keep sc)
    have "sc_async (ro_session r) \<noteq> None \<Longrightarrow> wire_free ev" using race [of ev] Turn by (auto simp: no_race_turn)
    moreover have "serve_step env ev s = Inr (keep, ro_session r1)" using Turn by simp
    ultimately obtain a where "serve_step env ev (ro_session r) = Inr (keep, a)"
        "beside env (r1\<lparr>ro_session := a\<rparr>) (go_step r1 g)"
      using sim [OF wire_blind_turn] by blast
    then show ?thesis using Turn by (intro into [OF routine_step.Turn [of r ev env keep a]]) (simp_all add: session_last)
  next
    case (Return sc)
    then have "bindE (serve_end env s) (\<lambda>sc1. Inr ((), sc1)) = Inr ((), ro_session r1)" by simp
    from sim [OF wire_blind_serve_end this] obtain a where
      "serve_end env (ro_session r) = Inr a" "beside env (r1\<lparr>ro_session := a\<rparr>) (go_step r1 g)" by auto
    then show ?thesis using Return by (intro into [OF routine_step.Return [of r env a]]) simp_all
  qed
qed


lemma goroutine_beside:
  assumes b: "beside env r g" and step: "goroutine_step env g g'" and ok: "writing_ok (ro_session r)"
    and race: "\<And>ev. ro_log (go_routines_of g') = ro_log r @ [ev] \<Longrightarrow> no_race ev (ro_session r)"
  shows "\<exists>r'. (routine_step env)\<^sup>=\<^sup>= r r' \<and> beside env r' g'"
  using step
proof cases
  case (Routine r1)
  have "ro_log (go_routines_of g') = ro_log r1" using Routine(1) by (simp add: go_step_def put_writers_def)
  then have "ev \<noteq> EvWroteFrame \<and> no_race ev (ro_session r)" if "ro_log r1 = ro_log r @ [ev]" for ev
    using race Routine(3) that beside_fields(4) [OF b] by auto
  from routine_beside [OF b Routine(2) ok this] show ?thesis using Routine(1) by blast
next
  case (Write xs wr ys w r1 err c)
  obtain s0 where g: "go_routines_of g = r\<lparr>ro_session := s0\<rparr>" using b by (auto simp: beside_def)
  have "in_flight env (ro_session r) (writers_of g)" using b by (simp add: beside_def)
  from write_in_flight [OF this, of xs wr ys w err c] Write g show ?thesis
    by (intro exI [of _ r]) (simp add: beside_def writers_of_def)
next
  case (Report xs res ys)
  have "in_flight env (ro_session r) (writers_of g)" using b by (simp add: beside_def)
  from report_in_flight [OF this, of xs res ys] Report b show ?thesis
    by (intro exI [of _ r]) (auto simp: beside_def writers_of_def)
next
  case (Wrote r1 res rest sc)
  note f = beside_fields [OF b]
  let ?r' = "r\<lparr>ro_session := sc, ro_log := ro_log r @ [EvWroteFrame]\<rparr>"
  have w: "in_flight env (ro_session r) (writers_of g)" "wl_wroteFrameCh (writers_of g) = res # rest"
    "serve_wrote env res (wl_session (writers_of g)) = Inr sc"
    using b Wrote by (simp_all add: beside_def writers_of_def)
  from wrote_in_flight [OF this, of "[]"] have s: "serve_step env EvWroteFrame (ro_session r) = Inr (True, sc)"
    "in_flight env sc (go_write ((writers_of g)\<lparr>wl_wroteFrameCh := rest, wl_session := sc, wl_log := []\<rparr>))" by simp_all
  obtain s0 where g: "go_routines_of g = r\<lparr>ro_session := s0\<rparr>" using b by (auto simp: beside_def)
  have "routine_step env r (r\<lparr>ro_serve := AtSelect, ro_session := sc, ro_log := ro_log r @ [EvWroteFrame]\<rparr>)"
    using routine_step.Turn [OF _ _ s(1)] Wrote(2,3) f(2) by (simp add: is_read_def)
  moreover have "r\<lparr>ro_serve := AtSelect, ro_session := sc, ro_log := ro_log r @ [EvWroteFrame]\<rparr> = ?r'"
    using Wrote(2,3) f(2) by simp
  moreover have "beside env ?r' g'"
    using s(2) Wrote(1,2) g by (simp add: beside_def go_step_def) (simp add: put_writers_def writers_of_def)
  ultimately show ?thesis by auto
qed

lemma writing_ok_afterTurn: "writing_ok (afterTurn sc) = writing_ok sc"
  by (simp add: writing_ok_def afterTurn_def shutDownIn_def Let_def)

lemma routine_writing_ok:
  assumes "env_ok env" "session_inv sc" "sc_doneServing sc = ChanOpen" "\<forall>ev \<in> set (ro_log r). event_ok ev" "serve_at env sc r"
  shows "writing_ok (ro_session r)"
proof -
  have f: "session_inv sc1 \<and> sc_doneServing sc1 = ChanOpen" if "serve_loop env (ro_log r) sc = Inr (k, sc1)" for k sc1
    using serve_loop_goes [OF assms(1,2,4)] that assms(3) by (auto simp: follows_def)
  have [simp]: "session_inv sc1 \<Longrightarrow> writing_ok sc1" for sc1 :: "'a Session"
    by (simp add: session_inv_def)
  show ?thesis
  proof (cases "ro_serve r")
    case ServeReturned
    then obtain k sc1 where "serve_loop env (ro_log r) sc = Inr (k, sc1)" "serve_end env sc1 = Inr (ro_session r)"
      using assms(5) by (auto simp: serve_at_def)
    with f [OF this(1)] serve_end_closes [OF assms(1), of sc1] show ?thesis by simp
  next
    case AtReadMore
    then show ?thesis using assms(5) f [of True "afterTurn (ro_session r)"]
      writing_ok_afterTurn [of "ro_session r"] by (simp add: serve_at_def)
  next
    case AtReturn
    then show ?thesis using assms(5) f [of False "ro_session r"] by (simp add: serve_at_def)
  qed (use assms(5) f [of True "ro_session r"] in \<open>simp_all add: serve_at_def\<close>)
qed

text \<open>A message is handled in \<open>select\<close>, or it is the frame that the reader has handed over.\<close>

lemma routine_log:
  assumes "routine_step env r r'"
  obtains "ro_log r' = ro_log r" | ev where "ro_log r' = ro_log r @ [ev]" "ro_serve r = AtSelect \<or> (\<exists>res. ro_serve r = AtFrame res)"
  using assms by cases auto

lemma goroutine_log:
  assumes "goroutine_step env g g'"
  obtains "ro_log (go_routines_of g') = ro_log (go_routines_of g)"
  | ev where "ro_log (go_routines_of g') = ro_log (go_routines_of g) @ [ev]"
      "ro_serve (go_routines_of g) = AtSelect \<or> (\<exists>res. ro_serve (go_routines_of g) = AtFrame res)"
  using assms
proof cases
  case (Routine r)
  from Routine(2) show ?thesis
    by (rule routine_log) (use Routine(1) that in \<open>simp_all add: go_step_def put_writers_def\<close>)
qed (use that in \<open>simp_all add: go_step_def put_writers_def\<close>)



text \<open>A client that opens a stream, whose HEADERS have been written while the serve loop waits in \<open>select\<close>.\<close>

lemma open_turn_state:
  "case serve_step demo_env (EvCreateStream 0 [(''k'', [''v''])] False) new_client of
     Inr (True, a) \<Rightarrow>
       (case sc_async a of None \<Rightarrow> False
        | Some wr \<Rightarrow> (case wr_write wr of None \<Rightarrow> False
           | Some w \<Rightarrow> (case writeFrame (se_header demo_env) (se_ctx demo_env) w (sc_wire a) of Inr _ \<Rightarrow> True | Inl _ \<Rightarrow> False)))
   | _ \<Rightarrow> False"
  by code_simp


end
