(* ===== verification/LogText.thy ===== *)
theory LogText
  imports SessionServe
begin

text \<open>
  The texts that the package makes for its log lines and panics: \<open>summarizeFrame\<close> of \<open>utils.go\<close> and the \<open>String\<close>
  methods. What golang.org/x/net/http2 contributes (the text of a frame's header, of a setting's
  identifier and of an error code, the debug data of GOAWAY) and the quoting of \<open>fmt\<close> under \<open>%q\<close> are arguments.
\<close>

subsection \<open>Frames\<close>

record log_text =
  lt_Header :: "Frame \<Rightarrow> string"
  lt_SettingID :: "16 word \<Rightarrow> string"
  lt_ErrCode :: "ErrCode \<Rightarrow> string"
  lt_DebugData :: "Frame \<Rightarrow> byte list"
  lt_quote :: "byte list \<Rightarrow> string"

text \<open>The function that \<open>summarizeFrame\<close> hands to \<open>ForeachSetting\<close>, with the variables it changes.\<close>

definition summarizeSetting :: "log_text \<Rightarrow> setting \<Rightarrow> nat \<times> string \<Rightarrow> go_error option \<times> (nat \<times> string)" where
  "summarizeSetting lt s v =
     (let n = fst v + 1;
          buf = (if n = 1 then snd v @ '', settings:'' else snd v)
      in (None, (n, buf @ '' '' @ lt_SettingID lt (fst s) @ ''='' @ digits (unat (snd s)) @ '','')))"

definition summarizeFrame :: "log_text \<Rightarrow> Frame \<Rightarrow> string" where
  "summarizeFrame lt f =
     (let buf = lt_Header lt f
      in case f of
           SettingsFrame _ ss \<Rightarrow>
             let (n, buf) = snd (ForeachSetting (summarizeSetting lt) ss (0, buf))
             in if 0 < n then take (length buf - 1) buf else buf
         | DataFrame d \<Rightarrow>
             let data = (if length (df_Data d) > 256 then take 256 (df_Data d) else df_Data d);
                 buf = buf @ '' data='' @ lt_quote lt data
             in if length (df_Data d) > 256
                then buf @ '' ('' @ digits (length (df_Data d) - 256) @ '' bytes omitted)'' else buf
         | WindowUpdateFrame i n \<Rightarrow>
             let buf = (if i = 0 then buf @ '' (conn)'' else buf)
             in buf @ '' incr='' @ digits (unat n)
         | PingFrame _ _ d \<Rightarrow> buf @ '' ping='' @ lt_quote lt d
         | GoAwayFrame lastID code \<Rightarrow>
             buf @ '' LastStreamID='' @ digits (unat lastID) @ '' ErrCode='' @ lt_ErrCode lt code @
             '' Debug='' @ lt_quote lt (lt_DebugData lt f)
         | RSTStreamFrame _ code \<Rightarrow> buf @ '' ErrCode='' @ lt_ErrCode lt code
         | _ \<Rightarrow> buf)"

subsection \<open>String methods\<close>

definition boolText :: "bool \<Rightarrow> string" where
  "boolText b = (if b then ''true'' else ''false'')"

definition sessionType_String :: "bool \<Rightarrow> string" where
  "sessionType_String st = (if st then ''server'' else ''client'')"

definition writeData_String :: "u32 \<Rightarrow> byte list \<Rightarrow> bool \<Rightarrow> string" where
  "writeData_String streamID p endStr =
     ''writeData(stream='' @ digits (unat streamID) @ '', p='' @ digits (length p) @ '', endStream='' @ boolText endStr @ '')''"

text \<open>The name of a writer's type under \<open>%T\<close>. Types whose methods have a pointer receiver are used by pointer.\<close>

definition typeName :: "writeFramer option \<Rightarrow> string" where
  "typeName w =
     (case w of
        None \<Rightarrow> ''<nil>''
      | Some FlushFrameWriter \<Rightarrow> ''h2stream.flushFrameWriter''
      | Some (WriteSettings _) \<Rightarrow> ''h2stream.writeSettings''
      | Some (WriteGoAway _ _) \<Rightarrow> ''*h2stream.writeGoAway''
      | Some (WriteData _ _ _) \<Rightarrow> ''*h2stream.writeData''
      | Some (HandlerPanicRST _) \<Rightarrow> ''h2stream.handlerPanicRST''
      | Some (WriteStreamError _ _) \<Rightarrow> ''h2stream.writeStreamError''
      | Some (WritePing _) \<Rightarrow> ''h2stream.writePing''
      | Some (WritePingAck _) \<Rightarrow> ''h2stream.writePingAck''
      | Some WriteSettingsAck \<Rightarrow> ''h2stream.writeSettingsAck''
      | Some (WriteResHeaders _) \<Rightarrow> ''*h2stream.writeResHeaders''
      | Some (WritePushPromise _) \<Rightarrow> ''*h2stream.writePushPromise''
      | Some (Write100ContinueHeadersFrame _) \<Rightarrow> ''h2stream.write100ContinueHeadersFrame''
      | Some (WriteWindowUpdate _ _) \<Rightarrow> ''h2stream.writeWindowUpdate'')"

text \<open>Of the writers only \<open>writeData\<close> has a \<open>String\<close> method.\<close>

definition FrameWriteRequest_String :: "FrameWriteRequest \<Rightarrow> string" where
  "FrameWriteRequest_String wr =
     (let des = (case wr_write wr of Some (WriteData i p e) \<Rightarrow> writeData_String i p e | w \<Rightarrow> typeName w)
      in ''[FrameWriteRequest stream='' @ digits (unat (StreamID wr)) @ '', ch='' @ boolText (wr_done wr \<noteq> None) @
         '', writer='' @ des @ '']'')"

subsection \<open>What the summaries hold\<close>

definition settingText :: "log_text \<Rightarrow> setting \<Rightarrow> string" where
  "settingText lt s = '' '' @ lt_SettingID lt (fst s) @ ''='' @ digits (unat (snd s))"

fun commaSeparated :: "string list \<Rightarrow> string" where
  "commaSeparated [] = []"
| "commaSeparated [x] = x"
| "commaSeparated (x # xs) = x @ '','' @ commaSeparated xs"

lemma summarizeSettings_from:
  "ForeachSetting (summarizeSetting lt) ss (Suc n, buf) =
     (None, (Suc n + length ss, buf @ concat (map (\<lambda>s. settingText lt s @ '','') ss)))"
  by (induction ss arbitrary: n buf) (simp_all add: summarizeSetting_def settingText_def)

lemma commaSeparated_drop:
  "xs \<noteq> [] \<Longrightarrow> concat (map (\<lambda>x. f x @ '','') xs) = commaSeparated (map f xs) @ '',''"
proof (induction xs)
  case (Cons x xs)
  then show ?case by (cases xs) simp_all
qed simp

text \<open>The settings are listed in their order, with commas only between them; a frame without settings is only
  its header.\<close>

theorem summarizeFrame_settings:
  "summarizeFrame lt (SettingsFrame a ss) = lt_Header lt (SettingsFrame a ss) @
     (if ss = [] then [] else '', settings:'' @ commaSeparated (map (settingText lt) ss))"
proof (cases ss)
  case (Cons s ss')
  define h where "h = lt_Header lt (SettingsFrame a ss)"
  define t where "t = h @ '', settings:'' @ commaSeparated (map (settingText lt) ss)"
  have "snd (ForeachSetting (summarizeSetting lt) ss (0, h)) =
      (length ss, h @ '', settings:'' @ concat (map (\<lambda>s. settingText lt s @ '','') ss))"
    unfolding Cons by (simp add: summarizeSetting_def [of _ s] summarizeSettings_from) (simp add: settingText_def)
  also have "\<dots> = (length ss, t @ '','')" using Cons by (subst commaSeparated_drop) (simp_all add: t_def)
  finally have f: "snd (ForeachSetting (summarizeSetting lt) ss (0, h)) = (length ss, t @ '','')" .
  have "0 < length ss" using Cons by simp
  then have "summarizeFrame lt (SettingsFrame a ss) = t"
    by (simp add: summarizeFrame_def f [unfolded h_def])
  then show ?thesis using Cons by (simp add: t_def h_def)
qed (simp add: summarizeFrame_def)

text \<open>At most 256 bytes of DATA are logged, and the number of the others.\<close>

theorem summarizeFrame_data:
  "summarizeFrame lt (DataFrame d) = lt_Header lt (DataFrame d) @ '' data='' @ lt_quote lt (take 256 (df_Data d)) @
     (if length (df_Data d) \<le> 256 then [] else '' ('' @ digits (length (drop 256 (df_Data d))) @ '' bytes omitted)'')"
  by (simp add: summarizeFrame_def)

end
