(* ===== verification/GoTrack.thy ===== *)
theory GoTrack
  imports Write_Frames
begin

text \<open>
  The goroutine checks of \<open>gotrack.go\<close>: \<open>parseUintBytes\<close> with \<open>cutoff64\<close> on 64-bit words, the parser
  \<open>curGoroutineID\<close> of the first line of a stack trace, and \<open>goroutineLock\<close>. The trace that
  \<open>runtime.Stack\<close> writes and the debug flag read from the environment are arguments.

  The parser is compared with the value of a numeral as a natural number; the lock is shown to
  accept exactly the goroutine that made it.
\<close>

type_synonym u64 = "64 word"

subsection \<open>Numbers\<close>

datatype parse_error = ErrSyntax | ErrRange | InvalidBase int

datatype NumError = NumError "byte list" parse_error

definition cutoff64 :: "int \<Rightarrow> u64" where
  "cutoff64 base = (if base < 2 then 0 else (- 1) div word_of_int base + 1)"

text \<open>\<open>1<<uint(bitSize) - 1\<close>: Go shifts a \<open>uint64\<close> by 64 or more to 0.\<close>

definition parseMax :: "int \<Rightarrow> u64" where
  "parseMax bitSize =
     (let k = uint (word_of_int bitSize :: u64) in (if k < 64 then push_bit (nat k) 1 else 0) - 1)"

text \<open>The \<open>switch\<close> on the base: the error, or the base and the bytes left after a prefix.\<close>

definition parseBase :: "byte list \<Rightarrow> int \<Rightarrow> parse_error + int \<times> byte list" where
  "parseBase s base =
     (if length s < 1 then Inl ErrSyntax
      else if 2 \<le> base \<and> base \<le> 36 then Inr (base, s)
      else if base = 0
      then if s ! 0 = 48 \<and> length s > 1 \<and> (s ! 1 = 120 \<or> s ! 1 = 88)
           then if length (drop 2 s) < 1 then Inl ErrSyntax else Inr (16, drop 2 s)
           else if s ! 0 = 48 then Inr (8, s)
           else Inr (10, s)
      else Inl (InvalidBase base))"

definition parseDigit :: "byte \<Rightarrow> byte option" where
  "parseDigit d =
     (if 48 \<le> d \<and> d \<le> 57 then Some (d - 48)
      else if 97 \<le> d \<and> d \<le> 122 then Some (d - 97 + 10)
      else if 65 \<le> d \<and> d \<le> 90 then Some (d - 65 + 10)
      else None)"

fun parseLoop :: "int \<Rightarrow> u64 \<Rightarrow> u64 \<Rightarrow> u64 \<Rightarrow> byte list \<Rightarrow> u64 \<times> parse_error option" where
  "parseLoop base cutoff maxVal n [] = (n, None)"
| "parseLoop base cutoff maxVal n (d # s) =
     (case parseDigit d of
        None \<Rightarrow> (0, Some ErrSyntax)
      | Some v \<Rightarrow>
          if uint v \<ge> base then (0, Some ErrSyntax)
          else if n \<ge> cutoff then (- 1, Some ErrRange)
          else (let n0 = n * word_of_int base; n1 = n0 + ucast v
                in if n1 < n0 \<or> n1 > maxVal then (- 1, Some ErrRange)
                   else parseLoop base cutoff maxVal n1 s))"

definition parseUintBytes :: "byte list \<Rightarrow> int \<Rightarrow> int \<Rightarrow> u64 \<times> NumError option" where
  "parseUintBytes s0 base0 bitSize0 =
     (let bitSize = (if bitSize0 = 0 then 64 else bitSize0)
      in case parseBase s0 base0 of
           Inl err \<Rightarrow> (0, Some (NumError s0 err))
         | Inr (base, s) \<Rightarrow>
             (case parseLoop base (cutoff64 base) (parseMax bitSize) 0 s of
                (n, None) \<Rightarrow> (n, None)
              | (n, Some err) \<Rightarrow> (n, Some (NumError s0 err))))"

subsection \<open>Goroutines\<close>

text \<open>A Go string as bytes.\<close>

definition bytes_of :: "string \<Rightarrow> byte list" where
  "bytes_of s = map of_char s"

definition goroutineSpace :: "byte list" where
  "goroutineSpace = bytes_of ''goroutine ''"

text \<open>\<open>bytes.TrimPrefix\<close> and \<open>bytes.IndexByte\<close>, with \<open>None\<close> for -1.\<close>

definition TrimPrefix :: "byte list \<Rightarrow> byte list \<Rightarrow> byte list" where
  "TrimPrefix b p = (if take (length p) b = p then drop (length p) b else b)"

fun IndexByte :: "byte list \<Rightarrow> byte \<Rightarrow> nat option" where
  "IndexByte [] c = None"
| "IndexByte (x # b) c = (if x = c then Some 0 else map_option Suc (IndexByte b c))"

definition littleBuf :: nat where "littleBuf = 64"

text \<open>\<open>runtime.Stack(b, false)\<close> writes as much of the trace as fits into \<open>b\<close>. The panics' messages
  quote the bytes, which the model leaves out.\<close>

definition curGoroutineID :: "byte list \<Rightarrow> go_panic + u64" where
  "curGoroutineID trace =
     (let b = TrimPrefix (take littleBuf trace) goroutineSpace
      in case IndexByte b 32 of
           None \<Rightarrow> Inl (Panic ''No space found'')
         | Some i \<Rightarrow>
             (case parseUintBytes (take i b) 10 64 of
                (n, None) \<Rightarrow> Inr n
              | (n, Some err) \<Rightarrow> Inl (Panic ''Failed to parse goroutine ID'')))"

type_synonym goroutineLock = u64

definition newGoroutineLock :: "bool \<Rightarrow> byte list \<Rightarrow> go_panic + goroutineLock" where
  "newGoroutineLock DebugGoroutines trace =
     (if \<not> DebugGoroutines then Inr 0 else curGoroutineID trace)"

definition check :: "bool \<Rightarrow> byte list \<Rightarrow> goroutineLock \<Rightarrow> go_panic + unit" where
  "check DebugGoroutines trace g =
     (if \<not> DebugGoroutines then Inr ()
      else bindE (curGoroutineID trace) (\<lambda>n.
        if n \<noteq> g then Inl (Panic ''running on the wrong goroutine'') else Inr ()))"

definition checkNotOn :: "bool \<Rightarrow> byte list \<Rightarrow> goroutineLock \<Rightarrow> go_panic + unit" where
  "checkNotOn DebugGoroutines trace g =
     (if \<not> DebugGoroutines then Inr ()
      else bindE (curGoroutineID trace) (\<lambda>n.
        if n = g then Inl (Panic ''running on the wrong goroutine'') else Inr ()))"

subsection \<open>What the parser computes\<close>

text \<open>The bytes that are digits of a base, the value of a numeral, the largest value of a bit size.\<close>

definition base_digit :: "int \<Rightarrow> byte \<Rightarrow> bool" where
  "base_digit base d = (case parseDigit d of None \<Rightarrow> False | Some v \<Rightarrow> uint v < base)"

definition digit_value :: "byte \<Rightarrow> int" where
  "digit_value d = (case parseDigit d of None \<Rightarrow> 0 | Some v \<Rightarrow> uint v)"

definition numeral_from :: "int \<Rightarrow> int \<Rightarrow> byte list \<Rightarrow> int" where
  "numeral_from base a s = foldl (\<lambda>a d. a * base + digit_value d) a s"

definition largest :: "int \<Rightarrow> int" where
  "largest bitSize = (if 1 \<le> bitSize \<and> bitSize \<le> 63 then 2 ^ nat bitSize - 1 else 2 ^ 64 - 1)"

lemma numeral_from_Nil [simp]: "numeral_from base a [] = a"
  by (simp add: numeral_from_def)

lemma numeral_from_Cons [simp]:
  "numeral_from base a (d # s) = numeral_from base (a * base + digit_value d) s"
  by (simp add: numeral_from_def)

lemma digit_value_nonneg [simp]: "0 \<le> digit_value d"
  by (simp add: digit_value_def split: option.splits)

lemma numeral_from_ge:
  assumes "1 \<le> base" "0 \<le> a"
  shows "a \<le> numeral_from base a s"
  using assms(2)
proof (induction s arbitrary: a)
  case (Cons d s)
  have "a * 1 \<le> a * base" using assms(1) Cons.prems by (intro mult_left_mono) auto
  then have "a \<le> a * base + digit_value d" by (smt (verit) digit_value_nonneg)
  moreover have "a * base + digit_value d \<le> numeral_from base (a * base + digit_value d) s"
    using calculation Cons.prems by (intro Cons.IH) linarith
  ultimately show ?case by simp
qed simp

lemma uint_parseMax:
  assumes "bitSize \<noteq> 0" "- (2 ^ 63) \<le> bitSize" "bitSize < 2 ^ 63"
  shows "uint (parseMax bitSize) = largest bitSize"
proof (cases "1 \<le> bitSize \<and> bitSize \<le> 63")
  case True
  have u: "uint (word_of_int bitSize :: u64) = bitSize"
    using True by (simp add: uint_word_of_int take_bit_int_eq_self)
  obtain k where k0: "bitSize = int k" using True nonneg_int_cases [of bitSize] by auto
  then have k: "bitSize = int k" "k \<le> 63" "k \<ge> 1" using True by auto
  have "push_bit k 1 - 1 = (mask k :: u64)"
    by (simp add: mask_eq_exp_minus_1 push_bit_eq_mult)
  then have "uint (push_bit k 1 - 1 :: u64) = 2 ^ k - 1"
    using k by (simp only: uint_mask_eq) (simp add: mask_eq_exp_minus_1)
  then show ?thesis
    using True k u by (simp add: parseMax_def largest_def)
next
  case False
  have "\<not> uint (word_of_int bitSize :: u64) < 64"
  proof (cases "bitSize < 0")
    case True
    then show ?thesis using assms
      by (simp add: uint_word_of_int take_bit_eq_mod)
        (smt (verit) mod_add_self2 mod_pos_pos_trivial)
  next
    case False
    then have "uint (word_of_int bitSize :: u64) = bitSize"
      using assms by (simp add: uint_word_of_int take_bit_int_eq_self)
    then show ?thesis using False \<open>\<not> (1 \<le> bitSize \<and> bitSize \<le> 63)\<close> assms(1) by linarith
  qed
  then show ?thesis
    using False by (auto simp: parseMax_def largest_def unsigned_minus_1_eq_mask mask_eq_exp_minus_1)
qed

lemma div_bounds:
  assumes "(0 :: int) < b"
  shows "x div b * b \<le> x" "x < (x div b + 1) * b"
proof -
  have x: "x div b * b + x mod b = x" by (rule div_mult_mod_eq)
  have m: "0 \<le> x mod b" "x mod b < b" using assms by simp_all
  show "x div b * b \<le> x" using x m by linarith
  have "(x div b + 1) * b = x div b * b + b" by (simp add: distrib_right)
  then show "x < (x div b + 1) * b" using x m by linarith
qed

lemma div_less_iff_mult:
  assumes "(0 :: int) < b"
  shows "x div b + 1 \<le> y \<longleftrightarrow> x < y * b"
proof
  assume "x div b + 1 \<le> y"
  then have "(x div b + 1) * b \<le> y * b" using assms by (intro mult_right_mono) auto
  then show "x < y * b" using div_bounds(2) [OF assms, of x] by linarith
next
  assume "x < y * b"
  then have "x div b * b < y * b" using div_bounds(1) [OF assms, of x] by linarith
  then show "x div b + 1 \<le> y" using assms by (simp add: mult_less_cancel_right)
qed

lemma cutoff64_le_iff:
  assumes "2 \<le> base" "base \<le> 36"
  shows "cutoff64 base \<le> n \<longleftrightarrow> 2 ^ 64 \<le> uint n * base"
proof -
  have b: "uint (word_of_int base :: u64) = base"
    using assms by (simp add: uint_word_of_int take_bit_int_eq_self)
  let ?q = "(2 ^ 64 - 1) div base"
  have q: "?q < 2 ^ 63" "0 \<le> ?q"
    using assms div_less_iff_mult [of base "2 ^ 64 - 1" "2 ^ 63"] by (auto simp: pos_imp_zdiv_nonneg_iff)
  have "uint ((- 1) div word_of_int base :: u64) = ?q"
    using b by (simp add: uint_div unsigned_minus_1_eq_mask mask_eq_exp_minus_1)
  then have "uint (cutoff64 base) = ?q + 1"
    using assms q by (simp add: cutoff64_def uint_word_ariths take_bit_int_eq_self)
  then show ?thesis
    using div_less_iff_mult [of base "2 ^ 64 - 1" "uint n"] assms by (auto simp: word_le_def)
qed

lemma uint_add_overflow:
  assumes "2 ^ 64 \<le> uint (a :: u64) + uint b"
  shows "uint (a + b) = uint a + uint b - 2 ^ 64"
proof -
  have "uint a < 2 ^ 64" "uint b < 2 ^ 64"
    using uint_range_size [of a] uint_range_size [of b] by (simp_all add: word_size)
  then have "uint a + uint b - 2 ^ 64 < 2 ^ 64" by linarith
  then have "(uint a + uint b - 2 ^ 64) mod 2 ^ 64 = uint a + uint b - 2 ^ 64"
    using assms by (intro mod_pos_pos_trivial) linarith+
  then have "(uint a + uint b) mod 2 ^ 64 = uint a + uint b - 2 ^ 64"
    by (simp only: minus_mod_self2)
  then show ?thesis by (simp add: uint_word_ariths(1) take_bit_eq_mod)
qed

text \<open>The loop against the value of the digits it reads.\<close>

lemma parseLoop_correct:
  assumes b: "2 \<le> base" "base \<le> 36"
    and n: "uint n \<le> uint maxVal"
  shows "parseLoop base (cutoff64 base) maxVal n s =
    (let pre = takeWhile (base_digit base) s; v = numeral_from base (uint n) pre
     in if uint maxVal < v then (- 1, Some ErrRange)
        else if pre = s then (word_of_int v, None)
        else (0, Some ErrSyntax))"
  using n
proof (induction s arbitrary: n)
  case Nil
  then show ?case by simp
next
  case (Cons d s)
  have max: "uint maxVal < 2 ^ 64" using uint_range_size [of maxVal] by (simp add: word_size)
  show ?case
  proof (cases "base_digit base d")
    case False
    then show ?thesis
      using Cons.prems by (auto simp: base_digit_def split: option.splits)
  next
    case True
    then obtain v where v: "parseDigit d = Some v" "uint v < base"
      by (auto simp: base_digit_def split: option.splits)
    then have dv: "digit_value d = uint v" by (simp add: digit_value_def)
    let ?m = "uint n * base + uint v"
    have ge: "?m \<le> numeral_from base ?m t" for t
      using b by (intro numeral_from_ge) auto
    show ?thesis
    proof (cases "cutoff64 base \<le> n")
      case c: True
      then have "2 ^ 64 \<le> uint n * base" using cutoff64_le_iff [OF b] by simp
      then have "uint maxVal < numeral_from base ?m t" for t using ge [of t] max uint_ge_0 [of v] by linarith
      then show ?thesis using c v dv True by simp
    next
      case c: False
      then have lt: "uint n * base < 2 ^ 64" using cutoff64_le_iff [OF b, of n] by simp
      have ub: "uint (word_of_int base :: u64) = base"
        using b by (simp add: uint_word_of_int take_bit_int_eq_self)
      have u0: "uint (n * word_of_int base) = uint n * base"
        using lt b ub by (simp add: uint_word_ariths take_bit_int_eq_self)
      have uv: "uint (ucast v :: u64) = uint v"
        using v b by (simp add: unsigned_ucast_eq take_bit_int_eq_self)
      show ?thesis
      proof (cases "?m < 2 ^ 64")
        case True
        then have u1: "uint (n * word_of_int base + ucast v) = ?m"
          using u0 uv b by (simp add: uint_word_ariths(1) take_bit_int_eq_self)
        show ?thesis
        proof (cases "uint maxVal < ?m")
          case over: True
          then have "uint maxVal < numeral_from base ?m t" for t using ge [of t] by linarith
          then show ?thesis
            using c v dv u1 over \<open>base_digit base d\<close> by (simp add: word_less_def)
        next
          case False
          then show ?thesis
            using c v dv u0 u1 \<open>base_digit base d\<close>
              Cons.IH [of "n * word_of_int base + ucast v"]
            by (simp add: word_less_def Let_def)
        qed
      next
        case over: False
        have "uint (n * word_of_int base + ucast v) = ?m - 2 ^ 64"
          using over u0 uv lt v b uint_add_overflow [of "n * word_of_int base" "ucast v"] by simp
        then have "n * word_of_int base + ucast v < n * word_of_int base"
          using v b u0 by (simp add: word_less_def)
        moreover have "uint maxVal < numeral_from base ?m t" for t
          using ge [of t] over max by linarith
        ultimately show ?thesis using c v dv \<open>base_digit base d\<close> by simp
      qed
    qed
  qed
qed

subsection \<open>Goroutine identifiers\<close>

lemma parseUintBytes_eq:
  assumes "s \<noteq> []" "2 \<le> base" "base \<le> 36" "- (2 ^ 63) \<le> bitSize" "bitSize < 2 ^ 63"
  shows "parseUintBytes s base bitSize =
    (let pre = takeWhile (base_digit base) s; v = numeral_from base 0 pre
     in if largest bitSize < v then (- 1, Some (NumError s ErrRange))
        else if pre = s then (word_of_int v, None)
        else (0, Some (NumError s ErrSyntax)))"
proof -
  define bs where "bs = (if bitSize = 0 then 64 else bitSize)"
  have m: "uint (parseMax bs) = largest bitSize"
    using assms uint_parseMax [of bs] by (auto simp: largest_def bs_def)
  then have "0 \<le> largest bitSize" by (metis uint_ge_0)
  moreover have "parseBase s base = Inr (base, s)"
    using assms by (simp add: parseBase_def Suc_le_eq)
  ultimately show ?thesis
    using assms parseLoop_correct [of base 0 "parseMax bs" s] m
    by (simp add: parseUintBytes_def Let_def flip: bs_def)
qed

lemma length_bytes_of [simp]: "length (bytes_of s) = length s"
  by (simp add: bytes_of_def)

lemma bytes_of_append: "bytes_of (s @ t) = bytes_of s @ bytes_of t"
  by (simp add: bytes_of_def)

lemma parseDigit_decimal:
  assumes "k < 10"
  shows "parseDigit (of_char (char_of (48 + k :: nat))) = Some (of_nat k)"
proof -
  have "(of_char (char_of (48 + k)) :: byte) = of_nat (of_char (char_of (48 + k)))"
    by (simp only: of_nat_of_char)
  then have "(of_char (char_of (48 + k)) :: byte) = of_nat (48 + k)"
    using assms by simp
  moreover have "k = 0 \<or> k = 1 \<or> k = 2 \<or> k = 3 \<or> k = 4 \<or> k = 5 \<or> k = 6 \<or> k = 7 \<or> k = 8 \<or> k = 9"
    using assms by auto
  ultimately show ?thesis by (elim disjE) (simp_all only: parseDigit_def, simp_all)
qed

lemma digits_ne [simp]: "digits n \<noteq> []"
  by (subst digits.simps) simp

lemma decimal_digit:
  assumes "k < 10"
  shows "base_digit 10 (of_char (char_of (48 + k :: nat)))"
    and "digit_value (of_char (char_of (48 + k :: nat))) = int k"
  using assms by (simp_all add: base_digit_def digit_value_def parseDigit_decimal unsigned_of_nat
      take_bit_nat_eq_self take_bit_int_eq_self of_nat_take_bit)

lemma numeral_from_append:
  "numeral_from base a (s @ t) = numeral_from base (numeral_from base a s) t"
  by (simp add: numeral_from_def)

lemma digits_numeral:
  "(\<forall>d\<in>set (bytes_of (digits n)). base_digit 10 d)
    \<and> numeral_from 10 0 (bytes_of (digits n)) = int n"
proof (induction n rule: digits.induct)
  case (1 n)
  show ?case
  proof (cases "n < 10")
    case True
    then show ?thesis
      by (subst (1 2) digits.simps) (simp add: bytes_of_def decimal_digit)
  next
    case False
    have d: "bytes_of (digits n) = bytes_of (digits (n div 10)) @ [of_char (char_of (48 + n mod 10))]"
      by (subst digits.simps) (simp add: False bytes_of_def)
    have n10: "int (n div 10) * 10 + int (n mod 10) = int n"
      using div_mult_mod_eq [of n 10] by linarith
    have "n mod 10 < 10" by simp
    note dd = decimal_digit [OF this]
    show ?thesis
      using 1 [OF False] n10 unfolding d
      by (auto simp: numeral_from_append dd)
  qed
qed

lemma base_digit_not_space: "base_digit 10 d \<Longrightarrow> d \<noteq> 32"
  by (auto simp: base_digit_def parseDigit_def)

lemma IndexByte_append:
  "c \<notin> set p \<Longrightarrow> IndexByte (p @ c # q) c = Some (length p)"
  by (induction p) auto

text \<open>The first line of the stack trace of goroutine \<open>n\<close>, as the Go runtime prints it, before the
  state of the goroutine and its frames.\<close>

definition stackTrace :: "nat \<Rightarrow> byte list \<Rightarrow> byte list" where
  "stackTrace n tail = bytes_of (''goroutine '' @ digits n @ '' ['') @ tail"

lemma length_digits: "n < 10 ^ k \<Longrightarrow> 0 < k \<Longrightarrow> length (digits n) \<le> k"
proof (induction k arbitrary: n)
  case (Suc k)
  then show ?case
  proof (cases "n < 10")
    case False
    then have "k \<noteq> 0" using Suc.prems by (intro notI) simp
    moreover have "n div 10 < 10 ^ k" using Suc.prems by (simp add: less_mult_imp_div_less mult.commute)
    ultimately have "length (digits (n div 10)) \<le> k" using Suc.IH by simp
    then show ?thesis by (subst digits.simps) (simp add: False)
  qed (subst digits.simps, simp)
qed simp

lemma curGoroutineID_trace:
  assumes "n < 2 ^ 64"
  shows "curGoroutineID (stackTrace n tail) = Inr (of_nat n)"
proof -
  let ?d = "bytes_of (digits n)"
  have len: "length (digits n) \<le> 20" using assms by (intro length_digits) simp_all
  have t: "take littleBuf (stackTrace n tail)
      = goroutineSpace @ ?d @ 32 # take (53 - length (digits n)) (91 # tail)"
    using len by (simp add: take_Cons' stackTrace_def littleBuf_def goroutineSpace_def bytes_of_append)
      (simp add: bytes_of_def) 
  have trim: "TrimPrefix (goroutineSpace @ b) goroutineSpace = b" for b
    by (simp add: TrimPrefix_def)
  have dig: "\<forall>x\<in>set ?d. base_digit 10 x" and val: "numeral_from 10 0 ?d = int n"
    using digits_numeral [of n] by simp_all
  have idx: "IndexByte (?d @ 32 # q) 32 = Some (length ?d)" for q
    using dig base_digit_not_space by (intro IndexByte_append) auto
  have tw: "takeWhile (base_digit 10) ?d = ?d" using dig by simp
  have "?d \<noteq> []" by (simp add: bytes_of_def)
  then have "parseUintBytes ?d 10 64 = (of_nat n, None)"
    using assms val parseUintBytes_eq [of ?d 10 64] by (simp add: largest_def Let_def tw)
  then show ?thesis unfolding curGoroutineID_def t trim Let_def idx by simp
qed

subsection \<open>Properties\<close>

text \<open>C24: \<open>parseUintBytes\<close> reads the longest prefix of digits of the base. When the value of that
  prefix exceeds the largest value of the bit size it returns \<open>ErrRange\<close> with the largest 64-bit
  number; otherwise it returns the value when the prefix is the whole input, and \<open>ErrSyntax\<close> with
  0 when it is not. No multiplication or addition wraps around unnoticed, for any bit size.\<close>

theorem parseUintBytes_correct:
  assumes "s \<noteq> []" "2 \<le> base" "base \<le> 36" "- (2 ^ 63) \<le> bitSize" "bitSize < 2 ^ 63"
  shows "parseUintBytes s base bitSize =
    (let pre = takeWhile (base_digit base) s; v = numeral_from base 0 pre
     in if largest bitSize < v then (- 1, Some (NumError s ErrRange))
        else if pre = s then (word_of_int v, None)
        else (0, Some (NumError s ErrSyntax)))"
  by (rule parseUintBytes_eq [OF assms])

theorem parseUintBytes_correct_witness:
  "parseUintBytes (bytes_of ''18446744073709551616'') 10 64
      = (- 1, Some (NumError (bytes_of ''18446744073709551616'') ErrRange))
    \<and> parseUintBytes (bytes_of ''18446744073709551615'') 10 64 = (- 1, None)
    \<and> parseUintBytes (bytes_of ''fFg'') 16 8 = (0, Some (NumError (bytes_of ''fFg'') ErrSyntax))"
  using parseUintBytes_correct [of "bytes_of ''18446744073709551616''" 10 64]
    parseUintBytes_correct [of "bytes_of ''18446744073709551615''" 10 64]
    parseUintBytes_correct [of "bytes_of ''fFg''" 16 8]
  by (simp add: bytes_of_def base_digit_def parseDigit_def digit_value_def largest_def Let_def)

text \<open>C40: A goroutine lock made on goroutine \<open>n\<close> holds exactly that goroutine: with the debug flag
  set, \<open>check\<close> passes on goroutine \<open>m\<close> exactly when \<open>m = n\<close> and \<open>checkNotOn\<close> exactly when
  \<open>m \<noteq> n\<close>, each panicking otherwise, for every identifier that fits into 64 bits and whatever
  follows on the trace; the 64 bytes of the buffer are always enough. With the flag unset neither
  panics.\<close>

theorem goroutineLock_exact:
  assumes "n < 2 ^ 64" "m < 2 ^ 64"
  shows "\<exists>g. newGoroutineLock debug (stackTrace n t1) = Inr g
    \<and> (check debug (stackTrace m t2) g = Inr () \<longleftrightarrow> debug \<longrightarrow> m = n)
    \<and> (checkNotOn debug (stackTrace m t2) g = Inr () \<longleftrightarrow> debug \<longrightarrow> m \<noteq> n)"
proof -
  have "(of_nat m :: u64) = of_nat n \<longleftrightarrow> m = n"
    using assms by (simp add: word_of_nat_eq_iff take_bit_nat_eq_self)
  then show ?thesis
    using assms by (simp add: newGoroutineLock_def check_def checkNotOn_def curGoroutineID_trace)
qed

theorem goroutineLock_exact_witness:
  "\<exists>g. newGoroutineLock True (stackTrace 4707 []) = Inr g
    \<and> check True (stackTrace 4707 [114]) g = Inr ()
    \<and> check True (stackTrace 18 []) g \<noteq> Inr ()
    \<and> checkNotOn True (stackTrace 18 []) g = Inr ()"
  using goroutineLock_exact [of 4707 4707 True "[]" "[114]"] goroutineLock_exact [of 4707 18 True "[]" "[]"]
  by auto

end
